(* ===== verification/Net_Prelude.thy ===== *)
theory Net_Prelude
  imports Main "HOL-Library.Word"
begin

text \<open>
  Shared material of the development: machine integers and bytes, the object
  representation of integers on the (little-endian) hosts the project targets, raw memory
  (\<open>memcpy\<close>, \<open>std::vector::resize\<close>), the errors a C++ operation can end in, and generic
  lemmas about lists that several components use.
\<close>

unbundle bit_operations_syntax

section \<open>Machine types and errors\<close>

type_synonym byte = "8 word"
type_synonym u16 = "16 word"
type_synonym u32 = "32 word"
type_synonym u64 = "64 word"

text \<open>
  The ways an operation of the code can go wrong. The \<open>UB_\<close> values stand for undefined
  behaviour of C++ (the program has no meaning from there on); the others are the defined
  effects of the standard library: an exception or a call of \<open>std::terminate\<close>.
\<close>

datatype cpp_error =
    UB_OutOfBounds
  | UB_EmptyContainer
  | UB_NullDeref
  | Length_error
  | Std_terminate

type_synonym 'a res = "cpp_error + 'a"

fun bind_res :: "'a res \<Rightarrow> ('a \<Rightarrow> 'b res) \<Rightarrow> 'b res" where
  "bind_res (Inl e) f = Inl e"
| "bind_res (Inr x) f = f x"

lemma bind_res_Inr_iff: "bind_res r f = Inr y \<longleftrightarrow> (\<exists>x. r = Inr x \<and> f x = Inr y)"
  by (cases r) auto

lemma bind_res_Inr_right [simp]: "bind_res r Inr = r"
  by (cases r) auto

section \<open>Object representation of integers\<close>

text \<open>
  \<open>le_bytes n w\<close> is the first \<open>n\<close> bytes of the memory of \<open>w\<close> (least significant byte
  first), \<open>of_le_bytes bs\<close> the integer whose memory starts with \<open>bs\<close>.
\<close>

primrec le_bytes :: "nat \<Rightarrow> 'a::len word \<Rightarrow> byte list" where
  "le_bytes 0 w = []"
| "le_bytes (Suc n) w = ucast w # le_bytes n (drop_bit 8 w)"

primrec of_le_bytes :: "byte list \<Rightarrow> 'a::len word" where
  "of_le_bytes [] = 0"
| "of_le_bytes (b # bs) = ucast b OR push_bit 8 (of_le_bytes bs)"

lemma length_le_bytes [simp]: "length (le_bytes n w) = n"
  by (induction n arbitrary: w) auto

lemma bit_nth_le_bytes:
  "i < n \<Longrightarrow> bit (le_bytes n w ! i) j \<longleftrightarrow> j < 8 \<and> bit w (8 * i + j)"
proof (induction n arbitrary: w i)
  case 0
  then show ?case by simp
next
  case (Suc n)
  show ?case
  proof (cases i)
    case 0
    then show ?thesis by (auto simp: bit_simps dest: bit_imp_le_length)
  next
    case (Suc k)
    with Suc.prems have "k < n" by simp
    with Suc show ?thesis by (simp add: Suc.IH bit_simps add.assoc)
  qed
qed

lemma bit_of_le_bytes:
  "bit (of_le_bytes bs :: 'a::len word) k \<longleftrightarrow>
     k < LENGTH('a) \<and> k div 8 < length bs \<and> bit (bs ! (k div 8)) (k mod 8)"
proof (induction bs arbitrary: k)
  case Nil
  then show ?case by simp
next
  case (Cons b bs)
  show ?case
  proof (cases "k < 8")
    case True
    then show ?thesis by (auto simp: bit_simps)
  next
    case False
    then obtain i where k: "k = i + 8" by (metis le_add_diff_inverse2 not_less)
    have "\<not> bit b k" using False by (auto dest: bit_imp_le_length)
    moreover have "k div 8 = Suc (i div 8)" "k mod 8 = i mod 8" by (simp_all add: k)
    ultimately show ?thesis by (auto simp: bit_simps k Cons.IH)
  qed
qed

lemma of_le_bytes_le_bytes [simp]:
  "LENGTH('a) \<le> 8 * n \<Longrightarrow> of_le_bytes (le_bytes n (w :: 'a::len word)) = w"
  by (rule bit_word_eqI) (auto simp: bit_of_le_bytes bit_nth_le_bytes less_mult_imp_div_less
        intro!: less_mult_imp_div_less)

lemma le_bytes_of_le_bytes [simp]:
  assumes "8 * length bs \<le> LENGTH('a)" "n = length bs"
  shows "le_bytes n (of_le_bytes bs :: 'a::len word) = bs"
proof (rule nth_equalityI)
  show "length (le_bytes n (of_le_bytes bs :: 'a word)) = length bs" using assms by simp
next
  fix i assume "i < length (le_bytes n (of_le_bytes bs :: 'a word))"
  then have i: "i < length bs" using assms by simp
  show "le_bytes n (of_le_bytes bs :: 'a word) ! i = bs ! i"
  proof (rule bit_word_eqI)
    fix j assume "j < LENGTH(8)"
    then show "bit (le_bytes n (of_le_bytes bs :: 'a word) ! i) j = bit (bs ! i) j"
      using i assms by (auto simp: bit_nth_le_bytes bit_of_le_bytes)
  qed
qed

lemma le_bytes_of_le_bytes_8: "length bs = 8 \<Longrightarrow> le_bytes 8 (of_le_bytes bs :: u64) = bs"
  by (rule le_bytes_of_le_bytes) simp_all

section \<open>Raw memory\<close>

text \<open>
  The storage of a \<open>std::vector<uint32_t>\<close> as bytes, and back. A trailing group of fewer
  than four bytes does not occur: \<open>bytes_words\<close> is only applied to whole vectors.
\<close>

definition words_bytes :: "u32 list \<Rightarrow> byte list" where
  "words_bytes ws = concat (map (le_bytes 4) ws)"

fun bytes_words :: "byte list \<Rightarrow> u32 list" where
  "bytes_words (a # b # c # d # bs) = of_le_bytes [a, b, c, d] # bytes_words bs"
| "bytes_words bs = []"

text \<open>\<open>std::memcpy(mem + off, src, n)\<close>, for a destination that is large enough.\<close>

definition memcpy_at :: "byte list \<Rightarrow> nat \<Rightarrow> byte list \<Rightarrow> byte list" where
  "memcpy_at mem off src = take off mem @ src @ drop (off + length src) mem"

text \<open>\<open>std::vector<uint32_t>::resize(n)\<close>: truncate, or append value-initialised elements.\<close>

definition resize :: "nat \<Rightarrow> u32 list \<Rightarrow> u32 list" where
  "resize n ws = take n ws @ replicate (n - length ws) 0"

lemma length_resize [simp]: "length (resize n ws) = n"
  by (simp add: resize_def)

lemma resize_same [simp]: "resize (length ws) ws = ws"
  by (simp add: resize_def)

lemma resize_smaller: "n \<le> length ws \<Longrightarrow> resize n ws = take n ws"
  by (simp add: resize_def)

lemma words_bytes_Nil [simp]: "words_bytes [] = []"
  by (simp add: words_bytes_def)

lemma words_bytes_Cons [simp]: "words_bytes (w # ws) = le_bytes 4 w @ words_bytes ws"
  by (simp add: words_bytes_def)

lemma words_bytes_append [simp]: "words_bytes (xs @ ys) = words_bytes xs @ words_bytes ys"
  by (simp add: words_bytes_def)

lemma length_words_bytes [simp]: "length (words_bytes ws) = 4 * length ws"
  by (induction ws) auto

lemma le_bytes_4: "\<exists>a b c d. le_bytes 4 w = [a, b, c, d]"
  by (simp add: numeral_eq_Suc)

lemma bytes_words_le_bytes: "bytes_words (le_bytes 4 w @ bs) = w # bytes_words bs"
proof -
  obtain a b c d where 1: "le_bytes 4 w = [a, b, c, d]" using le_bytes_4 by blast
  then have "of_le_bytes [a, b, c, d] = w"
    using of_le_bytes_le_bytes [of 4 w] by simp
  with 1 show ?thesis by simp
qed

lemma bytes_words_bytes [simp]: "bytes_words (words_bytes ws) = ws"
  by (induction ws) (auto simp: bytes_words_le_bytes)

lemma words_bytes_words [simp]:
  "length bs = 4 * n \<Longrightarrow> words_bytes (bytes_words bs) = bs"
proof (induction bs arbitrary: n rule: bytes_words.induct)
  case (1 a b c d bs)
  from "1.prems" have "length bs = 4 * (n - 1)" by simp
  then have "words_bytes (bytes_words bs) = bs" by (rule "1.IH")
  moreover have "le_bytes 4 (of_le_bytes [a, b, c, d] :: u32) = [a, b, c, d]"
    by (rule le_bytes_of_le_bytes) simp_all
  ultimately show ?case by simp
qed (auto, presburger+)

lemma length_bytes_words [simp]: "length bs = 4 * n \<Longrightarrow> length (bytes_words bs) = n"
  using length_words_bytes [of "bytes_words bs"] by simp

lemma length_memcpy_at [simp]:
  "off + length src \<le> length mem \<Longrightarrow> length (memcpy_at mem off src) = length mem"
  by (simp add: memcpy_at_def)

lemma memcpy_at_0 [simp]: "memcpy_at mem 0 src = src @ drop (length src) mem"
  by (simp add: memcpy_at_def)

lemma words_bytes_replicate_0: "words_bytes (replicate n 0) = replicate (4 * n) 0"
proof (induction n)
  case (Suc n)
  have "le_bytes 4 (0 :: u32) = replicate 4 0" by (simp add: numeral_eq_Suc)
  with Suc show ?case by (simp add: replicate_add [symmetric])
qed simp

lemma take_words_bytes: "take (4 * n) (words_bytes ws) = words_bytes (take n ws)"
proof (induction ws arbitrary: n)
  case (Cons w ws)
  then show ?case by (cases n) simp_all
qed simp

lemma drop_words_bytes: "drop (4 * n) (words_bytes ws) = words_bytes (drop n ws)"
proof (induction ws arbitrary: n)
  case (Cons w ws)
  then show ?case by (cases n) simp_all
qed simp

section \<open>Finite runs\<close>

text \<open>
  A run given as the list of its state changes: \<open>follow\<close> is its last state, \<open>allowed\<close> says
  that each change is a step of the relation.
\<close>

primrec follow :: "('s \<Rightarrow> 's) list \<Rightarrow> 's \<Rightarrow> 's" where
  "follow [] s = s"
| "follow (f # fs) s = follow fs (f s)"

primrec allowed :: "('s \<Rightarrow> 's \<Rightarrow> bool) \<Rightarrow> ('s \<Rightarrow> 's) list \<Rightarrow> 's \<Rightarrow> bool" where
  "allowed r [] s = True"
| "allowed r (f # fs) s = (r s (f s) \<and> allowed r fs (f s))"

lemma allowed_take: "allowed r fs s \<Longrightarrow> allowed r (take n fs) s"
  by (induction fs arbitrary: n s) (auto simp: take_Cons split: nat.splits)

end
