(* ===== verification/Net_Message.thy ===== *)
theory Net_Message
  imports Net_Prelude
begin

text \<open>
  The message type of \<open>include/custom_net_lib/net_message.hpp\<close>: a header (identifier and
  payload size) and a payload, with the stream operators that append a value to the
  payload and take one off its end.

  The identifier is a value of an enumeration with underlying type \<open>uint32_t\<close>; it is kept
  as the 32-bit integer, because a header that arrives from the network is copied over it
  without a check. A value of a standard-layout type is its object representation, the
  list of its bytes (\<open>sizeof\<close> is the length of that list).

  The payload is a \<open>std::vector<uint32_t>\<close>, and the operators count in its elements:
  appending a value of \<open>n\<close> bytes adds \<open>n\<close> elements, which are \<open>4 * n\<close> bytes of storage,
  and fills the first \<open>n\<close> bytes of them.
\<close>

section \<open>The data\<close>

record message_header =
  hdr_id :: u32
  hdr_size :: u32

record message =
  header :: message_header
  payload :: "u32 list"

definition empty_message :: message where
  "empty_message = \<lparr>header = \<lparr>hdr_id = 0, hdr_size = 0\<rparr>, payload = []\<rparr>"

definition set_id :: "u32 \<Rightarrow> message \<Rightarrow> message" where
  "set_id i m = m\<lparr>header := (header m)\<lparr>hdr_id := i\<rparr>\<rparr>"

definition msg_size :: "message \<Rightarrow> nat" where
  "msg_size m = length (payload m)"

section \<open>The operators\<close>

text \<open>\<open>msg << data\<close>; the assignment of the size to the 32-bit header field truncates.\<close>

definition push_data :: "message \<Rightarrow> byte list \<Rightarrow> message" where
  "push_data m data =
     (let current_size = length (payload m);
          resized = resize (current_size + length data) (payload m);
          stored = bytes_words (memcpy_at (words_bytes resized) (4 * current_size) data);
          m' = m\<lparr>payload := stored\<rparr>
      in m'\<lparr>header := (header m')\<lparr>hdr_size := word_of_nat (msg_size m')\<rparr>\<rparr>)"

text \<open>
  \<open>msg >> data\<close> for a type of \<open>n\<close> bytes. The code does not compare \<open>n\<close> with the size of
  the payload: when the payload has fewer elements, the subtraction of the two \<open>size_t\<close>
  values wraps around and the copy reads outside the vector.
\<close>

definition pop_data :: "nat \<Rightarrow> message \<Rightarrow> (message \<times> byte list) res" where
  "pop_data n m =
     (if length (payload m) < n then Inl UB_OutOfBounds
      else
        let start_idx_last_element = length (payload m) - n;
            data = take n (drop (4 * start_idx_last_element) (words_bytes (payload m)));
            m' = m\<lparr>payload := resize start_idx_last_element (payload m)\<rparr>
        in Inr (m'\<lparr>header := (header m')\<lparr>hdr_size := word_of_nat (msg_size m')\<rparr>\<rparr>, data))"

text \<open>The chained forms \<open>msg << d1 << d2\<close> and \<open>msg >> d2 >> d1\<close>.\<close>

primrec push_all :: "message \<Rightarrow> byte list list \<Rightarrow> message" where
  "push_all m [] = m"
| "push_all m (d # ds) = push_all (push_data m d) ds"

primrec pop_all :: "nat list \<Rightarrow> message \<Rightarrow> (message \<times> byte list list) res" where
  "pop_all [] m = Inr (m, [])"
| "pop_all (n # ns) m =
     bind_res (pop_data n m) (\<lambda>(m', d).
       bind_res (pop_all ns m') (\<lambda>(m'', ds). Inr (m'', d # ds)))"

text \<open>The output operator: \<open>"ID: " << (int) id << " Size: " << size\<close>.\<close>

fun dec_nat :: "nat \<Rightarrow> string" where
  "dec_nat n = (if n < 10 then [char_of (48 + n)] else dec_nat (n div 10) @ [char_of (48 + n mod 10)])"

declare dec_nat.simps [simp del]

definition dec_int :: "int \<Rightarrow> string" where
  "dec_int i = (if i < 0 then ''-'' @ dec_nat (nat (- i)) else dec_nat (nat i))"

definition show_message :: "message \<Rightarrow> string" where
  "show_message m =
     ''ID: '' @ dec_int (sint (hdr_id (header m))) @ '' Size: '' @ dec_nat (unat (hdr_size (header m)))"

section \<open>Storage of one value\<close>

definition cells :: "byte list \<Rightarrow> u32 list" where
  "cells d = bytes_words (d @ replicate (3 * length d) 0)"

lemma words_bytes_cells [simp]: "words_bytes (cells d) = d @ replicate (3 * length d) 0"
  unfolding cells_def by (rule words_bytes_words [where n = "length d"]) simp

lemma length_cells [simp]: "length (cells d) = length d"
  unfolding cells_def by (rule length_bytes_words) simp

lemma cells_Nil_iff [simp]: "cells d = [] \<longleftrightarrow> d = []"
  by (metis length_0_conv length_cells)

text \<open>The size the header announces is the number of elements, unless it was truncated.\<close>

definition wf_msg :: "message \<Rightarrow> bool" where
  "wf_msg m \<longleftrightarrow> hdr_size (header m) = word_of_nat (length (payload m))"

lemma push_data_eq:
  "push_data m d =
     m\<lparr>payload := payload m @ cells d,
       header := (header m)\<lparr>hdr_size := word_of_nat (length (payload m) + length d)\<rparr>\<rparr>"
proof -
  let ?n = "length (payload m)"
  have "words_bytes (resize (?n + length d) (payload m)) =
        words_bytes (payload m) @ replicate (4 * length d) 0"
    by (simp add: resize_def words_bytes_replicate_0)
  then have "memcpy_at (words_bytes (resize (?n + length d) (payload m))) (4 * ?n) d =
        words_bytes (payload m) @ d @ replicate (3 * length d) 0"
    by (simp add: memcpy_at_def)
  also have "\<dots> = words_bytes (payload m @ cells d)" by simp
  finally have "bytes_words (memcpy_at (words_bytes (resize (?n + length d) (payload m))) (4 * ?n) d)
        = payload m @ cells d"
    by (simp only: bytes_words_bytes)
  then show ?thesis by (simp add: push_data_def Let_def msg_size_def)
qed

lemma push_data_payload [simp]: "payload (push_data m d) = payload m @ cells d"
  by (simp add: push_data_eq)

lemma push_data_header [simp]:
  "header (push_data m d) = (header m)\<lparr>hdr_size := word_of_nat (length (payload m) + length d)\<rparr>"
  by (simp add: push_data_eq)

lemma wf_push_data [simp]: "wf_msg (push_data m d)"
  by (simp add: wf_msg_def)

lemma wf_empty_message [simp]: "wf_msg empty_message"
  by (simp add: wf_msg_def empty_message_def)

lemma wf_set_id [simp]: "wf_msg (set_id i m) \<longleftrightarrow> wf_msg m"
  by (simp add: wf_msg_def set_id_def)

lemma payload_set_id [simp]: "payload (set_id i m) = payload m"
  by (simp add: set_id_def)

lemma payload_empty_message [simp]: "payload empty_message = []"
  by (simp add: empty_message_def)

lemma pop_data_wf: "pop_data n m = Inr (m', d) \<Longrightarrow> wf_msg m'"
  by (auto simp: pop_data_def Let_def wf_msg_def msg_size_def split: if_splits)

lemma pop_data_Inl_iff: "(\<exists>e. pop_data n m = Inl e) \<longleftrightarrow> length (payload m) < n"
  by (simp add: pop_data_def Let_def)

lemma pop_push_data:
  assumes "wf_msg m"
  shows "pop_data (length d) (push_data m d) = Inr (m, d)"
proof -
  have "drop (4 * length (payload m)) (words_bytes (payload m @ cells d)) =
        d @ replicate (3 * length d) 0" by simp
  then have "pop_data (length d) (push_data m d) =
      Inr (m\<lparr>payload := payload m, header := (header m)\<lparr>hdr_size := word_of_nat (length (payload m))\<rparr>\<rparr>, d)"
    by (simp add: pop_data_def Let_def resize_smaller msg_size_def push_data_eq del: words_bytes_append)
  moreover have "hdr_size (header m) = word_of_nat (length (payload m))"
    using assms by (simp add: wf_msg_def)
  ultimately show ?thesis by simp
qed

lemma wf_push_all: "wf_msg m \<Longrightarrow> wf_msg (push_all m ds)"
  by (induction ds arbitrary: m) auto

lemma push_all_append: "push_all m (ds @ es) = push_all (push_all m ds) es"
  by (induction ds arbitrary: m) auto

lemma payload_push_all: "payload (push_all m ds) = payload m @ concat (map cells ds)"
  by (induction ds arbitrary: m) auto

lemma id_push_all [simp]: "hdr_id (header (push_all m ds)) = hdr_id (header m)"
  by (induction ds arbitrary: m) auto

lemma pop_push_all:
  "wf_msg m \<Longrightarrow> pop_all (map length (rev ds)) (push_all m ds) = Inr (m, rev ds)"
proof (induction ds rule: rev_induct)
  case Nil
  then show ?case by simp
next
  case (snoc d ds)
  have "pop_data (length d) (push_all m (ds @ [d])) = Inr (push_all m ds, d)"
    using pop_push_data [OF wf_push_all [OF snoc.prems]] by (simp add: push_all_append)
  with snoc show ?case by simp
qed

section \<open>Properties\<close>

text \<open>
  C19: the payload is a stack. Values that were appended with \<open><<\<close> come back with \<open>>>\<close> in the
  opposite order, each with the bytes it had, and the message is then what it was before,
  its header included.
\<close>

theorem message_lifo:
  assumes "wf_msg m"
  shows "pop_all (map length (rev ds)) (push_all m ds) = Inr (m, rev ds)"
  using pop_push_all [OF assms] .

text \<open>The shape of the test in \<open>tests\<close>, with values of 4, 1 and 4 bytes.\<close>

theorem message_lifo_witness:
  "pop_all [4, 1, 4] (push_all empty_message [[0, 0, 176, 64], [1], [3, 0, 0, 0]]) =
     Inr (empty_message, [[3, 0, 0, 0], [1], [0, 0, 176, 64]])"
  using message_lifo [of empty_message "[[0, 0, 176, 64], [1], [3, 0, 0, 0]]"]
  by (simp add: numeral_eq_Suc)

text \<open>
  \<open>>>\<close> for a type of \<open>n\<close> bytes is defined exactly if the payload has at least \<open>n\<close>
  elements; then it gives \<open>n\<close> bytes, takes \<open>n\<close> elements off, keeps the identifier, and
  leaves a header whose size is that of the payload. The code itself makes no such check.
\<close>

theorem pop_defined_iff:
  "(case pop_data n m of
      Inl e \<Rightarrow> e = UB_OutOfBounds \<and> msg_size m < n
    | Inr (m', d) \<Rightarrow> n \<le> msg_size m \<and> length d = n \<and> msg_size m' = msg_size m - n \<and>
        hdr_id (header m') = hdr_id (header m) \<and> wf_msg m')"
  by (auto simp: pop_data_def Let_def msg_size_def wf_msg_def)

end
