(* ===== verification/Ts_Queue.thy ===== *)
theory Ts_Queue
  imports Net_Prelude
begin

text \<open>
  The container of \<open>include/custom_net_lib/net_ts_queue.hpp\<close> as its operations behave one
  at a time, each of them under the queue's mutex. The interface the rest of the library
  relies on (first in, first out; no element lost, none invented) is the locale
  \<open>fifo_queue\<close>; the interleaving of the operations is the subject of \<open>Ts_Queue_Threads\<close>.
\<close>

section \<open>The operations\<close>

record 'a ts_queue =
  data_queue :: "'a list"

definition empty_queue :: "'a ts_queue" where
  "empty_queue = \<lparr>data_queue = []\<rparr>"

definition front_elem :: "'a ts_queue \<Rightarrow> 'a res" where
  "front_elem q = (case data_queue q of [] \<Rightarrow> Inl UB_EmptyContainer | x # _ \<Rightarrow> Inr x)"

definition back_elem :: "'a ts_queue \<Rightarrow> 'a res" where
  "back_elem q = (if data_queue q = [] then Inl UB_EmptyContainer else Inr (last (data_queue q)))"

definition pushBack :: "'a \<Rightarrow> 'a ts_queue \<Rightarrow> 'a ts_queue" where
  "pushBack x q = q\<lparr>data_queue := data_queue q @ [x]\<rparr>"

definition pushFront :: "'a \<Rightarrow> 'a ts_queue \<Rightarrow> 'a ts_queue" where
  "pushFront x q = q\<lparr>data_queue := x # data_queue q\<rparr>"

definition isEmpty :: "'a ts_queue \<Rightarrow> bool" where
  "isEmpty q \<longleftrightarrow> data_queue q = []"

definition count :: "'a ts_queue \<Rightarrow> nat" where
  "count q = length (data_queue q)"

definition clear :: "'a ts_queue \<Rightarrow> 'a ts_queue" where
  "clear q = q\<lparr>data_queue := []\<rparr>"

definition popFront :: "'a ts_queue \<Rightarrow> ('a \<times> 'a ts_queue) res" where
  "popFront q =
     (case data_queue q of
        [] \<Rightarrow> Inl UB_EmptyContainer
      | x # xs \<Rightarrow> Inr (x, q\<lparr>data_queue := xs\<rparr>))"

definition popBack :: "'a ts_queue \<Rightarrow> ('a \<times> 'a ts_queue) res" where
  "popBack q =
     (if data_queue q = [] then Inl UB_EmptyContainer
      else Inr (last (data_queue q), q\<lparr>data_queue := butlast (data_queue q)\<rparr>))"

section \<open>The interface\<close>

text \<open>
  What a client of the queue may rely on, over an abstraction \<open>contents\<close>. \<open>drain\<close> and
  \<open>push_list\<close> are the two loops its clients run: pop \<open>n\<close> times, push a sequence.
\<close>

primrec drain :: "('q \<Rightarrow> ('a \<times> 'q) res) \<Rightarrow> nat \<Rightarrow> 'q \<Rightarrow> ('a list \<times> 'q) res" where
  "drain pop 0 q = Inr ([], q)"
| "drain pop (Suc n) q =
     bind_res (pop q) (\<lambda>(x, q'). bind_res (drain pop n q') (\<lambda>(xs, q''). Inr (x # xs, q'')))"

primrec push_list :: "('a \<Rightarrow> 'q \<Rightarrow> 'q) \<Rightarrow> 'a list \<Rightarrow> 'q \<Rightarrow> 'q" where
  "push_list push [] q = q"
| "push_list push (x # xs) q = push_list push xs (push x q)"

locale fifo_queue =
  fixes contents :: "'q \<Rightarrow> 'a list"
    and push :: "'a \<Rightarrow> 'q \<Rightarrow> 'q"
    and pop :: "'q \<Rightarrow> ('a \<times> 'q) res"
    and is_empty :: "'q \<Rightarrow> bool"
  assumes contents_push: "contents (push x q) = contents q @ [x]"
    and pop_empty: "contents q = [] \<Longrightarrow> pop q = Inl UB_EmptyContainer"
    and pop_nonempty: "contents q = x # xs \<Longrightarrow> \<exists>q'. pop q = Inr (x, q') \<and> contents q' = xs"
    and is_empty_iff: "is_empty q \<longleftrightarrow> contents q = []"
begin

lemma contents_push_list: "contents (push_list push xs q) = contents q @ xs"
  by (induction xs arbitrary: q) (auto simp: contents_push)

lemma drain_ok:
  "n \<le> length (contents q) \<Longrightarrow>
     \<exists>q'. drain pop n q = Inr (take n (contents q), q') \<and> contents q' = drop n (contents q)"
proof (induction n arbitrary: q)
  case 0
  then show ?case by simp
next
  case (Suc n)
  then obtain x xs where q: "contents q = x # xs" by (cases "contents q") auto
  then obtain q' where "pop q = Inr (x, q')" "contents q' = xs" using pop_nonempty by blast
  with Suc q show ?case by fastforce
qed

lemma drain_too_many: "length (contents q) < n \<Longrightarrow> drain pop n q = Inl UB_EmptyContainer"
proof (induction n arbitrary: q)
  case 0
  then show ?case by simp
next
  case (Suc n)
  show ?case
  proof (cases "contents q")
    case Nil
    then show ?thesis by (simp add: pop_empty)
  next
    case (Cons x xs)
    then obtain q' where "pop q = Inr (x, q')" "contents q' = xs" using pop_nonempty by blast
    with Suc Cons show ?thesis by simp
  qed
qed

lemma push_drain:
  assumes "contents q = []"
  shows "\<exists>q'. drain pop (length xs) (push_list push xs q) = Inr (xs, q') \<and> is_empty q'"
  using drain_ok [of "length xs" "push_list push xs q"] assms
  by (auto simp: contents_push_list is_empty_iff)

end

text \<open>A double-ended queue: the other two operations, which work at the opposite ends.\<close>

locale deque = fifo_queue +
  fixes push_front :: "'b \<Rightarrow> 'a \<Rightarrow> 'a"
    and pop_back :: "'a \<Rightarrow> ('b \<times> 'a) res"
  assumes contents_push_front: "contents (push_front x q) = x # contents q"
    and pop_back_empty: "contents q = [] \<Longrightarrow> pop_back q = Inl UB_EmptyContainer"
    and pop_back_nonempty:
      "contents q = xs @ [x] \<Longrightarrow> \<exists>q'. pop_back q = Inr (x, q') \<and> contents q' = xs"
begin

text \<open>The mirror image is a queue as well, with the contents read from the back.\<close>

sublocale mirror: fifo_queue "\<lambda>q. rev (contents q)" push_front pop_back is_empty
proof unfold_locales
  fix x and xs and q assume "rev (contents q) = x # xs"
  then have "contents q = rev xs @ [x]" by (metis rev.simps(2) rev_rev_ident)
  then show "\<exists>q'. pop_back q = Inr (x, q') \<and> rev (contents q') = xs"
    using pop_back_nonempty by fastforce
qed (auto simp: contents_push_front pop_back_empty is_empty_iff)

lemma push_front_pop: "\<exists>q'. pop (push_front x q) = Inr (x, q') \<and> contents q' = contents q"
  by (rule pop_nonempty) (simp add: contents_push_front)

end

interpretation tsq: deque data_queue pushBack popFront isEmpty pushFront popBack
  by unfold_locales
    (auto simp: pushBack_def popFront_def isEmpty_def pushFront_def popBack_def)

section \<open>Further facts about the operations\<close>

lemma front_popFront: "front_elem q = Inr x \<longleftrightarrow> (\<exists>q'. popFront q = Inr (x, q'))"
  by (auto simp: front_elem_def popFront_def split: list.splits)

lemma back_popBack: "back_elem q = Inr x \<longleftrightarrow> (\<exists>q'. popBack q = Inr (x, q'))"
  by (auto simp: back_elem_def popBack_def)

lemma popFront_no_error_iff: "(\<exists>r. popFront q = Inr r) \<longleftrightarrow> \<not> isEmpty q"
  by (auto simp: popFront_def isEmpty_def split: list.splits)

lemma count_simps [simp]:
  "count empty_queue = 0"
  "count (pushBack x q) = Suc (count q)"
  "count (pushFront x q) = Suc (count q)"
  "count (clear q) = 0"
  by (simp_all add: count_def empty_queue_def pushBack_def pushFront_def clear_def)

lemma isEmpty_count: "isEmpty q \<longleftrightarrow> count q = 0"
  by (simp add: isEmpty_def count_def)

lemma data_queue_simps [simp]:
  "data_queue empty_queue = []"
  "data_queue (pushBack x q) = data_queue q @ [x]"
  "data_queue (pushFront x q) = x # data_queue q"
  "data_queue (clear q) = []"
  by (simp_all add: empty_queue_def pushBack_def pushFront_def clear_def)

lemma popFront_Cons [simp]:
  "data_queue q = x # xs \<Longrightarrow> popFront q = Inr (x, q\<lparr>data_queue := xs\<rparr>)"
  by (simp add: popFront_def)

lemma front_Cons [simp]: "data_queue q = x # xs \<Longrightarrow> front_elem q = Inr x"
  by (simp add: front_elem_def)

section \<open>Properties\<close>

text \<open>
  First in, first out, from both ends: what \<open>pushBack\<close> puts in, \<open>popFront\<close> takes out in
  the same order, and what \<open>pushFront\<close> puts in, \<open>popBack\<close> takes out in the same order;
  afterwards the queue is empty.
\<close>

theorem queue_fifo:
  "(\<exists>q. drain popFront (length xs) (push_list pushBack xs empty_queue) = Inr (xs, q) \<and> isEmpty q) \<and>
   (\<exists>q. drain popBack (length xs) (push_list pushFront xs empty_queue) = Inr (xs, q) \<and> isEmpty q)"
  using tsq.push_drain [of empty_queue xs] tsq.mirror.push_drain [of empty_queue xs] by simp

text \<open>
  Taking \<open>n\<close> elements out is undefined behaviour (\<open>front()\<close> of an empty \<open>std::deque\<close>)
  exactly if there are fewer than \<open>n\<close>, from either end; otherwise the first or the last
  \<open>n\<close> elements come out and \<open>count\<close> goes down by \<open>n\<close>.
\<close>

theorem queue_underflow:
  "(drain popFront n q = Inl UB_EmptyContainer \<longleftrightarrow> count q < n) \<and>
   (drain popBack n q = Inl UB_EmptyContainer \<longleftrightarrow> count q < n) \<and>
   (count q < n \<or> (\<exists>q'. drain popFront n q = Inr (take n (data_queue q), q') \<and> count q' = count q - n)) \<and>
   (count q < n \<or> (\<exists>q'. drain popBack n q = Inr (take n (rev (data_queue q)), q') \<and> count q' = count q - n))"
proof (cases "count q < n")
  case True
  then show ?thesis
    using tsq.drain_too_many [of q n] tsq.mirror.drain_too_many [of q n] by (simp add: count_def)
next
  case False
  then obtain q1 q2 where
    "drain popFront n q = Inr (take n (data_queue q), q1)" "data_queue q1 = drop n (data_queue q)"
    "drain popBack n q = Inr (take n (rev (data_queue q)), q2)" "rev (data_queue q2) = drop n (rev (data_queue q))"
    using tsq.drain_ok [of n q] tsq.mirror.drain_ok [of n q] by (auto simp: count_def)
  moreover from this(4) have "length (data_queue q2) = length (data_queue q) - n"
    by (metis length_drop length_rev)
  ultimately show ?thesis using False by (simp add: count_def)
qed

end
