(* ===== verification/Ts_Queue_Threads.thy ===== *)
theory Ts_Queue_Threads
  imports Ts_Queue
begin

text \<open>
  The synchronisation inside \<open>net_ts_queue.hpp\<close>, at the grain of its lock operations:
  \<open>mutex_q_\<close> guards the container, \<open>mtx_caller_block\<close> and the condition variable
  \<open>caller_block\<close> serve \<open>wait()\<close>. Any thread may call \<open>pushBack\<close>; one thread, the
  consumer, calls \<open>wait()\<close> and then empties the queue the way
  \<open>ServerInterfaceClass::update\<close> does (\<open>while (!isEmpty()) popFront()\<close>).

  A step is one thread passing one program point. The condition variable follows the C++
  standard: waiting releases the mutex and blocks in one atomic step, \<open>notify_one\<close> unblocks
  one thread that is blocked at that moment (and has no effect when there is none), a
  blocked thread may also wake up spuriously, and an unblocked thread reacquires the mutex
  before it goes on.
\<close>

section \<open>Threads and their steps\<close>

text \<open>
  Program points. \<open>PB\<close>: inside \<open>pushBack\<close>; \<open>W\<close>: inside \<open>wait\<close>; \<open>E\<close> and \<open>PF\<close>: the
  consumer's \<open>isEmpty\<close> and \<open>popFront\<close>. \<open>PF_failed\<close> is the undefined behaviour of taking
  an element out of an empty deque.

  An operation that changes the deque is not atomic: it reads the deque, and writes the changed one
  in another step (\<open>PB_store\<close>, \<open>PF_drop\<close>, with what was read), so that whatever is done to the deque in
  between would be lost. That nothing is, is up to \<open>mutex_q_\<close>.
\<close>

datatype 'a pc =
    Idle
  | PB_lock 'a | PB_emplace 'a | PB_store 'a "'a list" | PB_lock_cond | PB_notify | PB_unlock_cond | PB_unlock
  | W_lock | W_test | W_lock_cond | W_block | W_blocked | W_relock | W_unlock_cond | W_done
  | E_lock | E_test | PF_lock | PF_pop | PF_drop 'a "'a list" | PF_failed

record 'a threads =
  dq :: "'a list"
  mutex_q :: "nat option"
  mtx_caller_block :: "nat option"
  pcs :: "nat \<Rightarrow> 'a pc"
  pushed :: "'a list"
  popped :: "'a list"

text \<open>\<open>pushed\<close> and \<open>popped\<close> record the history; no step reads them.\<close>

definition goto :: "nat \<Rightarrow> 'a pc \<Rightarrow> 'a threads \<Rightarrow> 'a threads" where
  "goto i p s = s\<lparr>pcs := (pcs s)(i := p)\<rparr>"

definition ts_start :: "'a threads" where
  "ts_start = \<lparr>dq = [], mutex_q = None, mtx_caller_block = None, pcs = (\<lambda>_. Idle),
            pushed = [], popped = []\<rparr>"

text \<open>
  The steps of a thread inside a call; \<open>c\<close> is the consumer. The lock of \<open>isEmpty\<close> is
  released in the step that reads the container, as nothing else happens between the two.
\<close>

inductive run_step :: "nat \<Rightarrow> 'a threads \<Rightarrow> 'a threads \<Rightarrow> bool" for c :: nat where
  pb_lock: "pcs s i = PB_lock x \<Longrightarrow> mutex_q s = None \<Longrightarrow>
     run_step c s (goto i (PB_emplace x) s\<lparr>mutex_q := Some i\<rparr>)"
| pb_emplace: "pcs s i = PB_emplace x \<Longrightarrow> run_step c s (goto i (PB_store x (dq s)) s)"
| pb_store: "pcs s i = PB_store x ds \<Longrightarrow>
     run_step c s (goto i PB_lock_cond s\<lparr>dq := ds @ [x], pushed := pushed s @ [x]\<rparr>)"
| pb_lock_cond: "pcs s i = PB_lock_cond \<Longrightarrow> mtx_caller_block s = None \<Longrightarrow>
     run_step c s (goto i PB_notify s\<lparr>mtx_caller_block := Some i\<rparr>)"
| pb_notify: "pcs s i = PB_notify \<Longrightarrow> pcs s j = W_blocked \<Longrightarrow>
     run_step c s (goto i PB_unlock_cond (goto j W_relock s))"
| pb_notify_none: "pcs s i = PB_notify \<Longrightarrow> (\<forall>j. pcs s j \<noteq> W_blocked) \<Longrightarrow>
     run_step c s (goto i PB_unlock_cond s)"
| pb_unlock_cond: "pcs s i = PB_unlock_cond \<Longrightarrow>
     run_step c s (goto i PB_unlock s\<lparr>mtx_caller_block := None\<rparr>)"
| pb_unlock: "pcs s i = PB_unlock \<Longrightarrow> run_step c s (goto i Idle s\<lparr>mutex_q := None\<rparr>)"
| w_lock: "pcs s i = W_lock \<Longrightarrow> mutex_q s = None \<Longrightarrow>
     run_step c s (goto i W_test s\<lparr>mutex_q := Some i\<rparr>)"
| w_test: "pcs s i = W_test \<Longrightarrow>
     run_step c s (goto i (if dq s = [] then W_lock_cond else W_done) s\<lparr>mutex_q := None\<rparr>)"
| w_lock_cond: "pcs s i = W_lock_cond \<Longrightarrow> mtx_caller_block s = None \<Longrightarrow>
     run_step c s (goto i W_block s\<lparr>mtx_caller_block := Some i\<rparr>)"
| w_block: "pcs s i = W_block \<Longrightarrow>
     run_step c s (goto i W_blocked s\<lparr>mtx_caller_block := None\<rparr>)"
| w_relock: "pcs s i = W_relock \<Longrightarrow> mtx_caller_block s = None \<Longrightarrow>
     run_step c s (goto i W_unlock_cond s\<lparr>mtx_caller_block := Some i\<rparr>)"
| w_unlock_cond: "pcs s i = W_unlock_cond \<Longrightarrow>
     run_step c s (goto i W_lock s\<lparr>mtx_caller_block := None\<rparr>)"
| w_done: "pcs s i = W_done \<Longrightarrow> run_step c s (goto i E_lock s)"
| e_lock: "pcs s i = E_lock \<Longrightarrow> mutex_q s = None \<Longrightarrow>
     run_step c s (goto i E_test s\<lparr>mutex_q := Some i\<rparr>)"
| e_test: "pcs s i = E_test \<Longrightarrow>
     run_step c s (goto i (if dq s = [] then Idle else PF_lock) s\<lparr>mutex_q := None\<rparr>)"
| pf_lock: "pcs s i = PF_lock \<Longrightarrow> mutex_q s = None \<Longrightarrow>
     run_step c s (goto i PF_pop s\<lparr>mutex_q := Some i\<rparr>)"
| pf_pop: "pcs s i = PF_pop \<Longrightarrow> dq s = x # xs \<Longrightarrow>
     run_step c s (goto i (PF_drop x (dq s)) s)"
| pf_drop: "pcs s i = PF_drop x ds \<Longrightarrow>
     run_step c s (goto i E_lock s\<lparr>dq := tl ds, popped := popped s @ [x], mutex_q := None\<rparr>)"
| pf_pop_empty: "pcs s i = PF_pop \<Longrightarrow> dq s = [] \<Longrightarrow> run_step c s (goto i PF_failed s)"

text \<open>A whole system: steps inside calls, new calls, and spurious wake-ups.\<close>

inductive sys_step :: "nat \<Rightarrow> 'a threads \<Rightarrow> 'a threads \<Rightarrow> bool" for c :: nat where
  run: "run_step c s t \<Longrightarrow> sys_step c s t"
| call_push: "pcs s i = Idle \<Longrightarrow> sys_step c s (goto i (PB_lock x) s)"
| call_wait: "pcs s c = Idle \<Longrightarrow> sys_step c s (goto c W_lock s)"
| spurious: "pcs s i = W_blocked \<Longrightarrow> sys_step c s (goto i W_relock s)"

inductive ts_reachable :: "nat \<Rightarrow> 'a threads \<Rightarrow> bool" for c :: nat where
  init: "ts_reachable c ts_start"
| step: "ts_reachable c s \<Longrightarrow> sys_step c s t \<Longrightarrow> ts_reachable c t"

inductive_simps sys_step_iff: "sys_step c s t"

section \<open>The invariant\<close>

fun holds_q :: "'a pc \<Rightarrow> bool" where
  "holds_q (PB_emplace x) = True"
| "holds_q (PB_store x ds) = True"
| "holds_q PB_lock_cond = True"
| "holds_q PB_notify = True"
| "holds_q PB_unlock_cond = True"
| "holds_q PB_unlock = True"
| "holds_q W_test = True"
| "holds_q E_test = True"
| "holds_q PF_pop = True"
| "holds_q (PF_drop x ds) = True"
| "holds_q PF_failed = True"
| "holds_q _ = False"

fun holds_cond :: "'a pc \<Rightarrow> bool" where
  "holds_cond PB_notify = True"
| "holds_cond PB_unlock_cond = True"
| "holds_cond W_block = True"
| "holds_cond W_unlock_cond = True"
| "holds_cond _ = False"

fun in_push :: "'a pc \<Rightarrow> bool" where
  "in_push (PB_lock x) = True"
| "in_push (PB_emplace x) = True"
| "in_push (PB_store x ds) = True"
| "in_push PB_lock_cond = True"
| "in_push PB_notify = True"
| "in_push PB_unlock_cond = True"
| "in_push PB_unlock = True"
| "in_push _ = False"

text \<open>The points at which the next step of a thread reads or writes the deque.\<close>

fun accesses :: "'a pc \<Rightarrow> bool" where
  "accesses (PB_emplace x) = True"
| "accesses (PB_store x ds) = True"
| "accesses W_test = True"
| "accesses E_test = True"
| "accesses PF_pop = True"
| "accesses (PF_drop x ds) = True"
| "accesses _ = False"

lemma accesses_holds: "accesses p \<Longrightarrow> holds_q p"
  by (cases p) auto

definition locks_ok :: "'a threads \<Rightarrow> bool" where
  "locks_ok s \<longleftrightarrow> (\<forall>i. holds_q (pcs s i) \<longleftrightarrow> mutex_q s = Some i) \<and>
     (\<forall>i. holds_cond (pcs s i) \<longleftrightarrow> mtx_caller_block s = Some i)"

definition roles_ok :: "nat \<Rightarrow> 'a threads \<Rightarrow> bool" where
  "roles_ok c s \<longleftrightarrow> (\<forall>i. i \<noteq> c \<longrightarrow> pcs s i = Idle \<or> in_push (pcs s i))"

text \<open>What a thread has read of the deque is what the deque holds.\<close>

definition snapshots_ok :: "'a threads \<Rightarrow> bool" where
  "snapshots_ok s \<longleftrightarrow> (\<forall>i x ds. pcs s i = PB_store x ds \<longrightarrow> ds = dq s) \<and>
     (\<forall>i x ds. pcs s i = PF_drop x ds \<longrightarrow> ds = dq s \<and> ds = x # tl ds)"

definition queue_ok :: "nat \<Rightarrow> 'a threads \<Rightarrow> bool" where
  "queue_ok c s \<longleftrightarrow> pushed s = popped s @ dq s \<and> pcs s c \<noteq> PF_failed \<and>
     (pcs s c \<in> {W_done, PF_lock, PF_pop} \<longrightarrow> dq s \<noteq> [])"

lemmas inv_defs = locks_ok_def roles_ok_def snapshots_ok_def queue_ok_def

lemma pcs_goto [simp]: "pcs (goto i p s) = (pcs s)(i := p)"
  by (simp add: goto_def)

lemma goto_other [simp]:
  "dq (goto i p s) = dq s" "mutex_q (goto i p s) = mutex_q s"
  "mtx_caller_block (goto i p s) = mtx_caller_block s"
  "pushed (goto i p s) = pushed s" "popped (goto i p s) = popped s"
  by (simp_all add: goto_def)

lemma locks_ok_run: "run_step c s t \<Longrightarrow> locks_ok s \<Longrightarrow> locks_ok t"
  by (induction rule: run_step.induct) (force simp: locks_ok_def)+

lemma roles_ok_run: "run_step c s t \<Longrightarrow> roles_ok c s \<Longrightarrow> roles_ok c t"
  by (induction rule: run_step.induct) (force simp: roles_ok_def)+

text \<open>Only the thread that holds \<open>mutex_q_\<close> has a snapshot, so no other can make it out of date.\<close>

lemma holds_q_unique: "locks_ok s \<Longrightarrow> holds_q (pcs s i) \<Longrightarrow> holds_q (pcs s j) \<Longrightarrow> i = j"
  by (simp add: locks_ok_def)

lemma snapshots_ok_run:
  assumes "run_step c s t" "locks_ok s" "snapshots_ok s"
  shows "snapshots_ok t"
  using assms(1)
proof cases
  case (pb_store i x ds)
  have "pcs s j \<noteq> PB_store y es" "pcs s j \<noteq> PF_drop y es" if "j \<noteq> i" for j y es
    using holds_q_unique [OF assms(2), of i j] pb_store(2) that by auto
  with pb_store(1) show ?thesis by (auto simp: snapshots_ok_def goto_def)
next
  case (pf_drop i x ds)
  have "pcs s j \<noteq> PB_store y es" "pcs s j \<noteq> PF_drop y es" if "j \<noteq> i" for j y es
    using holds_q_unique [OF assms(2), of i j] pf_drop(2) that by auto
  with pf_drop(1) show ?thesis by (auto simp: snapshots_ok_def goto_def)
qed (use assms(3) in \<open>auto simp: snapshots_ok_def goto_def split: if_splits\<close>)

lemma snapshots_ok_goto:
  "snapshots_ok s \<Longrightarrow> (\<forall>x ds. p \<noteq> PB_store x ds \<and> p \<noteq> PF_drop x ds) \<Longrightarrow> snapshots_ok (goto i p s)"
  by (auto simp: snapshots_ok_def goto_def)

lemma queue_ok_run:
  assumes "run_step c s t" "locks_ok s" "roles_ok c s" "snapshots_ok s" "queue_ok c s"
  shows "queue_ok c t"
  using assms(1)
proof cases
  case (pb_store i x ds)
  then have "ds = dq s" using assms(4) by (auto simp: snapshots_ok_def)
  with pb_store assms(5) show ?thesis by (auto simp: queue_ok_def goto_def)
next
  case (pf_drop i x ds)
  then have "dq s = x # tl ds" using assms(4) by (auto simp: snapshots_ok_def)
  moreover have "i = c" using pf_drop(2) assms(3) by (auto simp: roles_ok_def)
  ultimately show ?thesis using pf_drop(1) assms(5) by (auto simp: queue_ok_def goto_def)
qed (use assms(3,5) in \<open>force simp: roles_ok_def queue_ok_def goto_def\<close>)+

text \<open>A step that only moves a program point, without touching a lock.\<close>

lemma locks_ok_goto:
  "locks_ok s \<Longrightarrow> holds_q p = holds_q (pcs s i) \<Longrightarrow> holds_cond p = holds_cond (pcs s i) \<Longrightarrow>
     locks_ok (goto i p s)"
  by (simp add: locks_ok_def)

lemma roles_ok_goto: "roles_ok c s \<Longrightarrow> i = c \<or> in_push p \<Longrightarrow> roles_ok c (goto i p s)"
  by (auto simp: roles_ok_def)

lemma queue_ok_goto:
  "queue_ok c s \<Longrightarrow> i \<noteq> c \<or> p \<notin> {PF_failed, W_done, PF_lock, PF_pop} \<Longrightarrow> queue_ok c (goto i p s)"
  by (auto simp: queue_ok_def)

lemma roles_ok_blocked: "roles_ok c s \<Longrightarrow> pcs s i = W_blocked \<Longrightarrow> i = c"
  by (auto simp: roles_ok_def)

lemma sys_step_ok:
  assumes "sys_step c s t" "locks_ok s \<and> roles_ok c s \<and> snapshots_ok s \<and> queue_ok c s"
  shows "locks_ok t \<and> roles_ok c t \<and> snapshots_ok t \<and> queue_ok c t"
  using assms(1)
proof cases
  case run
  with assms(2) show ?thesis by (blast intro: locks_ok_run roles_ok_run snapshots_ok_run queue_ok_run)
next
  case (call_push i x)
  with assms(2) show ?thesis by (simp add: locks_ok_goto roles_ok_goto snapshots_ok_goto queue_ok_goto)
next
  case call_wait
  with assms(2) show ?thesis by (simp add: locks_ok_goto roles_ok_goto snapshots_ok_goto queue_ok_goto)
next
  case (spurious i)
  with assms(2) show ?thesis
    using roles_ok_blocked [of c s i] by (simp add: locks_ok_goto roles_ok_goto snapshots_ok_goto queue_ok_goto)
qed

lemma reachable_ok: "ts_reachable c s \<Longrightarrow> locks_ok s \<and> roles_ok c s \<and> snapshots_ok s \<and> queue_ok c s"
proof (induction rule: ts_reachable.induct)
  case init
  show ?case by (simp add: inv_defs ts_start_def)
next
  case (step s t)
  then show ?case using sys_step_ok by blast
qed

lemmas reachable_locks = reachable_ok [THEN conjunct1]
lemmas reachable_roles = reachable_ok [THEN conjunct2, THEN conjunct1]
lemmas reachable_queue = reachable_ok [THEN conjunct2, THEN conjunct2, THEN conjunct2]

section \<open>Progress\<close>

text \<open>A thread is at rest when it is outside every call, or asleep in \<open>caller_block\<close>.\<close>

definition at_rest :: "'a pc \<Rightarrow> bool" where
  "at_rest p \<longleftrightarrow> p = Idle \<or> p = W_blocked \<or> p = PF_failed"

lemma notify_step: "pcs s i = PB_notify \<Longrightarrow> \<exists>t. run_step c s t"
  by (cases "\<exists>j. pcs s j = W_blocked") (blast intro: run_step.pb_notify run_step.pb_notify_none)+

lemma holds_cond_step: "holds_cond (pcs s i) \<Longrightarrow> \<exists>t. run_step c s t"
  by (cases "pcs s i") (auto intro: run_step.intros notify_step)

lemma holds_q_step:
  "holds_q (pcs s i) \<Longrightarrow> pcs s i \<noteq> PF_failed \<Longrightarrow> mtx_caller_block s = None \<Longrightarrow> \<exists>t. run_step c s t"
  by (cases "pcs s i"; cases "dq s") (auto intro: run_step.intros notify_step)

lemma no_locks_step:
  "mutex_q s = None \<Longrightarrow> mtx_caller_block s = None \<Longrightarrow> \<not> at_rest (pcs s i) \<Longrightarrow> \<exists>t. run_step c s t"
  by (cases "pcs s i"; cases "dq s") (auto simp: at_rest_def intro: run_step.intros notify_step)

lemma some_step:
  assumes "locks_ok s" "\<forall>i. pcs s i \<noteq> PF_failed" "\<not> at_rest (pcs s i)"
  shows "\<exists>t. run_step c s t"
proof (cases "mtx_caller_block s")
  case (Some j)
  with assms have "holds_cond (pcs s j)" by (simp add: locks_ok_def)
  then show ?thesis by (rule holds_cond_step)
next
  case None
  show ?thesis
  proof (cases "mutex_q s")
    case (Some j)
    with assms have "holds_q (pcs s j)" by (simp add: locks_ok_def)
    with None assms show ?thesis by (blast intro: holds_q_step)
  next
    case none_q: None
    with None assms show ?thesis by (blast intro: no_locks_step)
  qed
qed

lemma roles_no_failure: "roles_ok c s \<Longrightarrow> queue_ok c s \<Longrightarrow> \<forall>i. pcs s i \<noteq> PF_failed"
proof
  fix i assume "roles_ok c s" "queue_ok c s"
  then show "pcs s i \<noteq> PF_failed"
    by (cases "i = c"; cases "pcs s i") (auto simp: roles_ok_def queue_ok_def)
qed

section \<open>A run in which the wake-up is lost\<close>

text \<open>
  The consumer finds the queue empty and leaves \<open>isEmpty()\<close>; before it takes
  \<open>mtx_caller_block\<close>, a producer runs \<open>pushBack\<close> from start to end; then the consumer
  blocks. \<open>lost n\<close> is the state after the first \<open>n\<close> steps.
\<close>

definition lost_path :: "nat \<Rightarrow> nat \<Rightarrow> 'a \<Rightarrow> ('a threads \<Rightarrow> 'a threads) list" where
  "lost_path c i x =
     [goto c W_lock,
      \<lambda>s. goto c W_test s\<lparr>mutex_q := Some c\<rparr>,
      \<lambda>s. goto c W_lock_cond s\<lparr>mutex_q := None\<rparr>,
      goto i (PB_lock x),
      \<lambda>s. goto i (PB_emplace x) s\<lparr>mutex_q := Some i\<rparr>,
      \<lambda>s. goto i (PB_store x (dq s)) s,
      \<lambda>s. goto i PB_lock_cond s\<lparr>dq := dq s @ [x], pushed := pushed s @ [x]\<rparr>,
      \<lambda>s. goto i PB_notify s\<lparr>mtx_caller_block := Some i\<rparr>,
      goto i PB_unlock_cond,
      \<lambda>s. goto i PB_unlock s\<lparr>mtx_caller_block := None\<rparr>,
      \<lambda>s. goto i Idle s\<lparr>mutex_q := None\<rparr>,
      \<lambda>s. goto c W_block s\<lparr>mtx_caller_block := Some c\<rparr>,
      \<lambda>s. goto c W_blocked s\<lparr>mtx_caller_block := None\<rparr>]"

lemma reachable_follow: "allowed (sys_step c) fs s \<Longrightarrow> ts_reachable c s \<Longrightarrow> ts_reachable c (follow fs s)"
  by (induction fs arbitrary: s) (auto intro: ts_reachable.step)

lemma lost_path_allowed: "i \<noteq> c \<Longrightarrow> allowed (sys_step c) (lost_path c i x) ts_start"
  unfolding lost_path_def
  by (simp add: sys_step_iff run_step.simps ts_start_def goto_def) blast

lemma reachable_prefix:
  "i \<noteq> c \<Longrightarrow> ts_reachable c (follow (take n (lost_path c i x)) ts_start)"
  by (intro reachable_follow allowed_take lost_path_allowed ts_reachable.init)

lemmas follow_path = lost_path_def ts_start_def goto_def

section \<open>Properties\<close>

text \<open>
  C14: In every reachable state of any number of producers and one consumer, no element is
  lost, duplicated or reordered, although pushing and popping are not atomic: what was pushed is what
  was popped followed by what is in the queue. No two threads are about to access the deque at the same time;
  \<open>wait()\<close> returns only when there is an element to take, and the consumer's \<open>popFront()\<close> never takes an
  element out of an empty container.
\<close>

theorem ts_queue_safe:
  assumes "ts_reachable c s"
  shows "pushed s = popped s @ dq s \<and> (\<forall>i j. accesses (pcs s i) \<and> accesses (pcs s j) \<longrightarrow> i = j) \<and>
    (pcs s c = W_done \<longrightarrow> dq s \<noteq> []) \<and> (\<forall>i. pcs s i \<noteq> PF_failed)"
  using reachable_ok [OF assms] roles_no_failure [of c s] holds_q_unique [of s]
  by (auto simp: queue_ok_def intro: accesses_holds)

theorem ts_queue_safe_witness:
  "pushed (follow (take 11 (lost_path 0 1 True)) ts_start) = [True] \<and>
   (\<forall>i. pcs (follow (take 11 (lost_path 0 1 True)) ts_start) i \<noteq> PF_failed)"
  using ts_queue_safe [OF reachable_prefix [of 1 0 11 True]]
  by (simp add: follow_path)

text \<open>
  The two mutexes exclude: two threads that are between the lock and the unlock of
  \<open>mutex_q_\<close> are the same thread, and likewise for \<open>mtx_caller_block\<close>.
\<close>

theorem ts_mutual_exclusion:
  assumes "ts_reachable c s"
    and "holds_q (pcs s i) \<and> holds_q (pcs s j) \<or> holds_cond (pcs s i) \<and> holds_cond (pcs s j)"
  shows "i = j"
  using reachable_locks [OF assms(1)] assms(2) by (auto simp: locks_ok_def)

theorem ts_mutual_exclusion_witness:
  "holds_q (pcs (follow (take 8 (lost_path 0 1 True)) ts_start) 1) \<and> (1 :: nat) = 1"
  using ts_mutual_exclusion [OF reachable_prefix [of 1 0 8 True], of 1 1] by (simp add: follow_path)

text \<open>
  C25: There is no deadlock between the two mutexes: as long as some thread is inside a call
  and not asleep in the condition variable, some thread can take its next step.
\<close>

theorem ts_no_deadlock:
  assumes "ts_reachable c s" and "\<not> at_rest (pcs s i)"
  shows "\<exists>t. run_step c s t"
  using some_step [OF reachable_locks [OF assms(1)] _ assms(2)] reachable_ok [OF assms(1)]
    roles_no_failure by blast

theorem ts_no_deadlock_witness:
  "\<exists>t. run_step 0 (follow (take 8 (lost_path 0 1 True)) ts_start) t"
  by (rule ts_no_deadlock [OF reachable_prefix, of 1 0 8 True 1]) (simp_all add: follow_path at_rest_def)

text \<open>
  C38: A wake-up can be lost. The emptiness test of \<open>wait()\<close> is not made under
  \<open>mtx_caller_block\<close>, so a complete \<open>pushBack\<close> fits between the test and the blocking,
  and its notification finds nobody. In the state reached the element is in the queue, the
  consumer is blocked, every other thread is outside the queue, and no step is possible.
\<close>

theorem ts_lost_wakeup:
  "\<exists>s. ts_reachable c s \<and> dq s = [x] \<and> pcs s = (\<lambda>_. Idle)(c := W_blocked) \<and> (\<nexists>t. run_step c s t)"
proof -
  let ?s = "follow (lost_path c (Suc c) x) ts_start"
  have "ts_reachable c ?s" by (intro reachable_follow lost_path_allowed ts_reachable.init) simp
  moreover have "dq ?s = [x]" and pcs: "pcs ?s = (\<lambda>_. Idle)(c := W_blocked)"
    by (auto simp: follow_path fun_eq_iff)
  moreover have "\<nexists>t. run_step c ?s t"
  proof
    assume "\<exists>t. run_step c ?s t"
    then obtain t where "run_step c ?s t" ..
    then show False by cases (simp_all add: pcs split: if_splits)
  qed
  ultimately show ?thesis by blast
qed

end
