(* ===== verification/Connection.thy ===== *)
theory Connection
  imports Net_Message Ts_Queue
begin

text \<open>
  \<open>ConnectionInterface\<close> of \<open>include/custom_net_lib/connection_net_interface.hpp\<close>: the state
  of a connection and its methods, among them the completion handlers that the code passes
  to \<open>boost::asio\<close> as lambdas.

  A method is a function on the object's state that also returns what it asks others to
  do, in order: operations it starts at the I/O context (\<open>Io\<close>), messages it appends to the
  owner's incoming queue, and calls of the server's \<open>onClientValidated\<close>. A completion
  handler takes the result of its operation: whether there was an error (\<open>ec\<close>), and for a
  read the bytes that the operation stored in its buffer.

  A received header or payload is written over \<open>tmp_input_msg_\<close> in place, as the code's
  buffers do. Trailing underscores of the members are dropped. Two ways in which a handler can fail are outside of
  this model: \<open>resize\<close> can run out of memory for the payload that a header announces, and a
  connection that nobody refers to any more is destroyed while its handlers are still to run
  (\<open>dropped_while_pending\<close> in \<open>Custom_Server\<close> is about that).
\<close>

section \<open>State\<close>

datatype Owner = Owner_server | Owner_client

type_synonym conn_ref = nat

text \<open>\<open>OwnedMessage\<close>: the message with a pointer to its connection, which may be null.\<close>

record owned_message =
  remote :: "conn_ref option"
  msg :: message

record connection =
  owner :: Owner
  conn_id :: u32
  socket_open :: bool
  out_msg_queue :: "message ts_queue"
  tmp_input_msg :: message
  handshake_out :: u64
  handshake_in :: u64
  handshake_check :: u64

text \<open>The handlers of pending operations, named after the method that starts the operation.\<close>

datatype read_handler =
    H_ReadHeader | H_ReadPayload | H_ReadServerValidationRequest | H_ReadAndCheckValidation

datatype write_handler = H_WriteHeader | H_writePayload | H_SendValidationData

datatype task = Do_SendData message | Do_Disconnect

datatype io_call =
    Async_connect
  | Async_read nat read_handler
  | Async_write "byte list" write_handler
  | Post task

datatype effect =
    Io io_call
  | Push_incoming owned_message
  | Call_onClientValidated conn_ref

type_synonym 'a act = "'a \<times> effect list"

section \<open>Memory of the buffers\<close>

text \<open>\<open>sizeof(message_header<T>)\<close> is 8: two 32-bit members.\<close>

definition header_bytes :: "message_header \<Rightarrow> byte list" where
  "header_bytes h = le_bytes 4 (hdr_id h) @ le_bytes 4 (hdr_size h)"

definition header_of_bytes :: "byte list \<Rightarrow> message_header" where
  "header_of_bytes bs = \<lparr>hdr_id = of_le_bytes (take 4 bs), hdr_size = of_le_bytes (take 4 (drop 4 bs))\<rparr>"

text \<open>
  \<open>boost::asio::buffer(payload.data(), payload.size())\<close>: as many bytes as the vector has
  elements, from the start of its storage.
\<close>

definition payload_buffer :: "message \<Rightarrow> byte list" where
  "payload_buffer m = take (length (payload m)) (words_bytes (payload m))"

text \<open>A completed or failed read leaves the bytes it received at the start of its buffer.\<close>

definition store_header :: "byte list \<Rightarrow> connection \<Rightarrow> connection" where
  "store_header bs c =
     (let m = tmp_input_msg c
      in c\<lparr>tmp_input_msg := m\<lparr>header := header_of_bytes (memcpy_at (header_bytes (header m)) 0 bs)\<rparr>\<rparr>)"

definition store_payload :: "byte list \<Rightarrow> connection \<Rightarrow> connection" where
  "store_payload bs c =
     (let m = tmp_input_msg c
      in c\<lparr>tmp_input_msg := m\<lparr>payload := bytes_words (memcpy_at (words_bytes (payload m)) 0 bs)\<rparr>\<rparr>)"

definition store_handshake :: "byte list \<Rightarrow> connection \<Rightarrow> connection" where
  "store_handshake bs c =
     c\<lparr>handshake_in := of_le_bytes (memcpy_at (le_bytes 8 (handshake_in c)) 0 bs)\<rparr>"

definition close_socket :: "connection \<Rightarrow> connection" where
  "close_socket c = c\<lparr>socket_open := False\<rparr>"

section \<open>Handshake puzzle\<close>

definition encrypt_handshake_data :: "u64 \<Rightarrow> u64" where
  "encrypt_handshake_data input =
     (let out = input XOR 0xDEADBEEDC0DECAFE;
          out = drop_bit 4 (out AND 0xF0F0F0F0F0F0F0) OR push_bit 4 (out AND 0xF0F0F0F0F0F0F0)
      in out XOR 0xC0DEFACE12345678)"

section \<open>Construction\<close>

text \<open>
  The constructor. \<open>clock\<close> is the reading of the system clock; \<open>hs_in\<close> is the value that
  happens to be in the member \<open>handshake_in_\<close>, which no constructor initialises; \<open>sock_open\<close>
  says whether the socket that is moved in is open (accepted by the server) or not (a
  client's new socket).
\<close>

definition new_connection :: "Owner \<Rightarrow> bool \<Rightarrow> u64 \<Rightarrow> u64 \<Rightarrow> connection" where
  "new_connection parent sock_open clock hs_in =
     \<lparr>owner = parent, conn_id = 0, socket_open = sock_open, out_msg_queue = empty_queue,
      tmp_input_msg = empty_message,
      handshake_out = (if parent = Owner_server then clock else 0),
      handshake_in = hs_in,
      handshake_check = (if parent = Owner_server then encrypt_handshake_data clock else 0)\<rparr>"

section \<open>Operations that start asynchronous work\<close>

definition ReadHeader :: "connection \<Rightarrow> connection act" where
  "ReadHeader c = (c, [Io (Async_read 8 H_ReadHeader)])"

definition ReadPayload :: "connection \<Rightarrow> connection act" where
  "ReadPayload c = (c, [Io (Async_read (length (payload (tmp_input_msg c))) H_ReadPayload)])"

definition ReadServerValidationRequest :: "connection \<Rightarrow> connection act" where
  "ReadServerValidationRequest c = (c, [Io (Async_read 8 H_ReadServerValidationRequest)])"

definition ReadAndCheckValidation :: "connection \<Rightarrow> connection act" where
  "ReadAndCheckValidation c = (c, [Io (Async_read 8 H_ReadAndCheckValidation)])"

definition SendValidationData :: "connection \<Rightarrow> connection act" where
  "SendValidationData c = (c, [Io (Async_write (le_bytes 8 (handshake_out c)) H_SendValidationData)])"

text \<open>The two writes take the front of the queue, which is undefined when it is empty.\<close>

definition WriteHeader :: "connection \<Rightarrow> connection act res" where
  "WriteHeader c =
     bind_res (front_elem (out_msg_queue c)) (\<lambda>m.
       Inr (c, [Io (Async_write (header_bytes (header m)) H_WriteHeader)]))"

definition writePayload :: "connection \<Rightarrow> connection act res" where
  "writePayload c =
     bind_res (front_elem (out_msg_queue c)) (\<lambda>m.
       Inr (c, [Io (Async_write (payload_buffer m) H_writePayload)]))"

definition ConnectToServer :: "connection \<Rightarrow> connection act" where
  "ConnectToServer c =
     (if owner c = Owner_client then (c\<lparr>socket_open := True\<rparr>, [Io Async_connect]) else (c, []))"

definition ConnectToClient :: "u32 \<Rightarrow> connection \<Rightarrow> connection act" where
  "ConnectToClient u_id c =
     (if owner c = Owner_server \<and> socket_open c
      then let (c1, e1) = SendValidationData (c\<lparr>conn_id := u_id\<rparr>);
               (c2, e2) = ReadAndCheckValidation c1
           in (c2, e1 @ e2)
      else (c, []))"

definition getID :: "connection \<Rightarrow> u32" where
  "getID c = conn_id c"

definition IsConnected :: "connection \<Rightarrow> bool" where
  "IsConnected c = socket_open c"

definition Disconnect :: "connection \<Rightarrow> connection act" where
  "Disconnect c = (c, if IsConnected c then [Io (Post Do_Disconnect)] else [])"

definition SendData :: "message \<Rightarrow> connection \<Rightarrow> connection act" where
  "SendData msg_to_send c = (c, [Io (Post (Do_SendData msg_to_send))])"

definition AddToIncomingMsgQueue :: "conn_ref \<Rightarrow> connection \<Rightarrow> connection act" where
  "AddToIncomingMsgQueue self c =
     (let item = \<lparr>remote = (if owner c = Owner_server then Some self else None), msg = tmp_input_msg c\<rparr>;
          (c', e) = ReadHeader c
      in (c', Push_incoming item # e))"

section \<open>Handlers\<close>

text \<open>The lambda that \<open>SendData\<close> posts.\<close>

definition on_SendData :: "message \<Rightarrow> connection \<Rightarrow> connection act res" where
  "on_SendData msg_to_send c =
     (let writingMsgFlag = \<not> isEmpty (out_msg_queue c);
          c' = c\<lparr>out_msg_queue := pushBack msg_to_send (out_msg_queue c)\<rparr>
      in if \<not> writingMsgFlag then WriteHeader c' else Inr (c', []))"

definition on_Disconnect :: "connection \<Rightarrow> connection act" where
  "on_Disconnect c = (close_socket c, [])"

definition on_ConnectToServer :: "bool \<Rightarrow> connection \<Rightarrow> connection act" where
  "on_ConnectToServer ec c = (if \<not> ec then ReadServerValidationRequest c else (c, []))"

definition on_ReadHeader :: "conn_ref \<Rightarrow> bool \<Rightarrow> byte list \<Rightarrow> connection \<Rightarrow> connection act" where
  "on_ReadHeader self ec bs c0 =
     (let c = store_header bs c0; m = tmp_input_msg c
      in if \<not> ec then
           if 0 < unat (hdr_size (header m))
           then ReadPayload (c\<lparr>tmp_input_msg := m\<lparr>payload := resize (unat (hdr_size (header m))) (payload m)\<rparr>\<rparr>)
           else AddToIncomingMsgQueue self c
         else (close_socket c, []))"

definition on_ReadPayload :: "conn_ref \<Rightarrow> bool \<Rightarrow> byte list \<Rightarrow> connection \<Rightarrow> connection act" where
  "on_ReadPayload self ec bs c0 =
     (let c = store_payload bs c0
      in if \<not> ec then AddToIncomingMsgQueue self c else (close_socket c, []))"

text \<open>After a message has been written: take it off the queue, go on with the next one.\<close>

definition write_next :: "connection \<Rightarrow> connection act res" where
  "write_next c =
     bind_res (popFront (out_msg_queue c)) (\<lambda>(_, q).
       let c' = c\<lparr>out_msg_queue := q\<rparr>
       in if \<not> isEmpty q then WriteHeader c' else Inr (c', []))"

definition on_WriteHeader :: "bool \<Rightarrow> connection \<Rightarrow> connection act res" where
  "on_WriteHeader ec c =
     (if \<not> ec then
        bind_res (front_elem (out_msg_queue c)) (\<lambda>m.
          if 0 < length (payload m) then writePayload c else write_next c)
      else Inr (close_socket c, []))"

definition on_writePayload :: "bool \<Rightarrow> connection \<Rightarrow> connection act res" where
  "on_writePayload ec c = (if \<not> ec then write_next c else Inr (close_socket c, []))"

definition on_ReadServerValidationRequest :: "bool \<Rightarrow> byte list \<Rightarrow> connection \<Rightarrow> connection act" where
  "on_ReadServerValidationRequest ec bs c0 =
     (let c = store_handshake bs c0
      in if \<not> ec then SendValidationData (c\<lparr>handshake_out := encrypt_handshake_data (handshake_in c)\<rparr>)
         else (close_socket c, []))"

definition on_SendValidationData :: "bool \<Rightarrow> connection \<Rightarrow> connection act" where
  "on_SendValidationData ec c =
     (if \<not> ec then if owner c = Owner_client then ReadHeader c else (c, [])
      else (close_socket c, []))"

definition on_ReadAndCheckValidation :: "conn_ref \<Rightarrow> bool \<Rightarrow> byte list \<Rightarrow> connection \<Rightarrow> connection act" where
  "on_ReadAndCheckValidation self ec bs c0 =
     (let c = store_handshake bs c0
      in if \<not> ec then
           if handshake_in c = handshake_check c
           then let (c', e) = ReadHeader c in (c', Call_onClientValidated self # e)
           else (close_socket c, [])
         else (close_socket c, []))"

text \<open>What the I/O context runs for a completed operation.\<close>

datatype completion =
    Connected bool
  | Read_done read_handler bool "byte list"
  | Write_done write_handler bool
  | Run task

fun handle :: "conn_ref \<Rightarrow> completion \<Rightarrow> connection \<Rightarrow> connection act res" where
  "handle self (Connected ec) c = Inr (on_ConnectToServer ec c)"
| "handle self (Read_done H_ReadHeader ec bs) c = Inr (on_ReadHeader self ec bs c)"
| "handle self (Read_done H_ReadPayload ec bs) c = Inr (on_ReadPayload self ec bs c)"
| "handle self (Read_done H_ReadServerValidationRequest ec bs) c =
     Inr (on_ReadServerValidationRequest ec bs c)"
| "handle self (Read_done H_ReadAndCheckValidation ec bs) c =
     Inr (on_ReadAndCheckValidation self ec bs c)"
| "handle self (Write_done H_WriteHeader ec) c = on_WriteHeader ec c"
| "handle self (Write_done H_writePayload ec) c = on_writePayload ec c"
| "handle self (Write_done H_SendValidationData ec) c = Inr (on_SendValidationData ec c)"
| "handle self (Run (Do_SendData m)) c = on_SendData m c"
| "handle self (Run Do_Disconnect) c = Inr (on_Disconnect c)"

end
