(* ===== verification/Wire_Format.thy ===== *)
theory Wire_Format
  imports Connection
begin

text \<open>
  The message protocol as a function on byte streams, the specification the connection is
  measured against: \<open>wire_bytes\<close> is what the two write operations of a message put on the
  stream, \<open>recv_frames\<close> reads a stream the way the chain of read handlers does. The second
  part says which messages survive the transfer and which do not.
\<close>

section \<open>Frames\<close>

definition wire_bytes :: "message \<Rightarrow> byte list" where
  "wire_bytes m = header_bytes (header m) @ payload_buffer m"

text \<open>
  The payload of \<open>tmp_input_msg_\<close> after \<open>n\<close> bytes have been read into it: the vector is
  resized and the bytes are stored at its start; the rest keeps what it held before.
\<close>

definition filled :: "u32 list \<Rightarrow> nat \<Rightarrow> byte list \<Rightarrow> u32 list" where
  "filled old n bs = bytes_words (memcpy_at (words_bytes (resize n old)) 0 bs)"

text \<open>The message a receiver ends up with when \<open>m\<close> is sent and \<open>tmp\<close> is what it had.\<close>

definition received :: "message \<Rightarrow> message \<Rightarrow> message" where
  "received tmp m =
     (if payload m = [] then tmp\<lparr>header := header m\<rparr>
      else tmp\<lparr>header := header m, payload := filled (payload tmp) (length (payload m)) (payload_buffer m)\<rparr>)"

primrec received_all :: "message \<Rightarrow> message list \<Rightarrow> message list" where
  "received_all tmp [] = []"
| "received_all tmp (m # ms) = received tmp m # received_all (received tmp m) ms"

function recv_frames :: "message \<Rightarrow> byte list \<Rightarrow> message list" where
  "recv_frames tmp bs =
     (if length bs < 8 then []
      else
        let h = header_of_bytes (take 8 bs); rest = drop 8 bs; n = unat (hdr_size h);
            m0 = tmp\<lparr>header := h\<rparr>
        in if n = 0 then m0 # recv_frames m0 rest
           else if length rest < n then []
           else let m = m0\<lparr>payload := filled (payload tmp) n (take n rest)\<rparr>
                in m # recv_frames m (drop n rest))"
  by pat_completeness auto
termination
  by (relation "measure (\<lambda>(tmp, bs). length bs)") (auto simp: Let_def)

declare recv_frames.simps [simp del]

lemma length_header_bytes [simp]: "length (header_bytes h) = 8"
  by (simp add: header_bytes_def)

lemma header_of_header_bytes [simp]: "header_of_bytes (header_bytes h) = h"
  by (simp add: header_bytes_def header_of_bytes_def)

lemma header_bytes_of_bytes [simp]: "length bs = 8 \<Longrightarrow> header_bytes (header_of_bytes bs) = bs"
  by (simp add: header_bytes_def header_of_bytes_def)

lemma header_bytes_inj: "header_bytes h = header_bytes h' \<longleftrightarrow> h = h'"
  by (metis header_of_header_bytes)

lemma length_payload_buffer [simp]: "length (payload_buffer m) = length (payload m)"
  by (simp add: payload_buffer_def)

lemma length_wire_bytes: "length (wire_bytes m) = 8 + length (payload m)"
  by (simp add: wire_bytes_def)

lemma recv_short: "length bs < 8 \<Longrightarrow> recv_frames tmp bs = []"
  by (simp add: recv_frames.simps)

lemma recv_header_only:
  "unat (hdr_size h) = 0 \<Longrightarrow>
     recv_frames tmp (header_bytes h @ bs) = tmp\<lparr>header := h\<rparr> # recv_frames (tmp\<lparr>header := h\<rparr>) bs"
  by (simp add: recv_frames.simps [of tmp "header_bytes h @ bs"] Let_def)

lemma recv_incomplete:
  "length bs < unat (hdr_size h) \<Longrightarrow> recv_frames tmp (header_bytes h @ bs) = []"
  by (simp add: recv_frames.simps [of tmp "header_bytes h @ bs"] Let_def)

lemma recv_payload:
  assumes "unat (hdr_size h) = n" "0 < n" "length p = n"
  shows "recv_frames tmp (header_bytes h @ p @ bs) =
     (let m = tmp\<lparr>header := h, payload := filled (payload tmp) n p\<rparr> in m # recv_frames m bs)"
  using assms by (simp add: recv_frames.simps [of tmp "header_bytes h @ p @ bs"] Let_def)

text \<open>A message whose header announces its payload size is one frame.\<close>

definition sendable :: "message \<Rightarrow> bool" where
  "sendable m \<longleftrightarrow> wf_msg m \<and> length (payload m) < 2 ^ 32"

lemma sendable_size: "sendable m \<Longrightarrow> unat (hdr_size (header m)) = length (payload m)"
  by (simp add: sendable_def wf_msg_def unsigned_of_nat take_bit_nat_eq_self)

lemma recv_wire_bytes:
  assumes "sendable m"
  shows "recv_frames tmp (wire_bytes m @ bs) = received tmp m # recv_frames (received tmp m) bs"
proof (cases "payload m = []")
  case True
  then have "payload_buffer m = []" by (simp add: payload_buffer_def)
  with True show ?thesis
    using recv_header_only [of "header m" tmp bs] sendable_size [OF assms]
    by (simp add: wire_bytes_def received_def)
next
  case False
  then show ?thesis
    using recv_payload [of "header m" "length (payload m)" "payload_buffer m" tmp bs]
      sendable_size [OF assms]
    by (simp add: wire_bytes_def received_def Let_def)
qed

lemma recv_wire_all:
  "list_all sendable ms \<Longrightarrow> recv_frames tmp (concat (map wire_bytes ms)) = received_all tmp ms"
  by (induction ms arbitrary: tmp) (simp_all add: recv_wire_bytes recv_short)

section \<open>What survives the transfer\<close>

lemma length_filled [simp]: "length bs \<le> n \<Longrightarrow> length (filled old n bs) = n"
  unfolding filled_def by (rule length_bytes_words) simp

lemma words_bytes_filled:
  "length bs \<le> n \<Longrightarrow> words_bytes (filled old n bs) = bs @ drop (length bs) (words_bytes (resize n old))"
  unfolding filled_def by (subst words_bytes_words [where n = n]) simp_all

lemma received_payload:
  "payload m \<noteq> [] \<Longrightarrow>
     payload (received tmp m) = filled (payload tmp) (length (payload m)) (payload_buffer m)"
  by (simp add: received_def)

lemma header_received [simp]: "header (received tmp m) = header m"
  by (simp add: received_def)

text \<open>The first bytes, as many as there are elements, arrive whatever was there before.\<close>

lemma received_prefix:
  "payload m \<noteq> [] \<Longrightarrow>
     take (length (payload m)) (words_bytes (payload (received tmp m))) =
     take (length (payload m)) (words_bytes (payload m))"
  by (simp add: received_payload words_bytes_filled payload_buffer_def)

lemma pop_received_single:
  assumes "payload m = cells d" "d \<noteq> []"
  shows "\<exists>m'. pop_data (length d) (received tmp m) = Inr (m', d)"
  using received_prefix [of m tmp] assms
  by (simp add: received_payload pop_data_def Let_def del: words_bytes_cells)
     (simp add: words_bytes_filled payload_buffer_def)

text \<open>
  Behind them, a fresh \<open>tmp_input_msg_\<close> holds zeros: a second value whose storage starts
  after the bytes that were sent is lost.
\<close>

lemma words_bytes_received_fresh:
  assumes "payload tmp = []" "payload m \<noteq> []"
  shows "words_bytes (payload (received tmp m)) =
     payload_buffer m @ replicate (3 * length (payload m)) 0"
proof -
  have "words_bytes (resize (length (payload m)) []) = replicate (4 * length (payload m)) 0"
    by (simp add: resize_def words_bytes_replicate_0)
  with assms show ?thesis by (simp add: received_payload words_bytes_filled)
qed

lemma pop_received_second:
  assumes "payload tmp = []" "payload m = cells a @ cells b" "b \<noteq> []" "length b \<le> 3 * length a"
  shows "\<exists>m'. pop_data (length b) (received tmp m) = Inr (m', replicate (length b) 0)"
proof -
  have ne: "payload m \<noteq> []" using assms by simp
  have len: "length (payload m) = length a + length b" using assms by simp
  have "take (length b) (drop (4 * length a) (words_bytes (payload (received tmp m)))) =
      replicate (length b) 0"
    using assms(4) len by (simp add: words_bytes_received_fresh [OF assms(1) ne] min_def)
  then show ?thesis
    using ne len by (simp add: pop_data_def Let_def received_payload)
qed

lemma pop_first:
  "length (payload m) = n \<Longrightarrow> \<exists>m'. pop_data n m = Inr (m', take n (words_bytes (payload m)))"
  by (simp add: pop_data_def Let_def)

lemma length_received [simp]: "payload m \<noteq> [] \<Longrightarrow> length (payload (received tmp m)) = length (payload m)"
  by (simp add: received_payload)

text \<open>Bytes at the start of the payload, as many as it has elements, survive any number of transfers.\<close>

definition carries :: "message \<Rightarrow> byte list \<Rightarrow> bool" where
  "carries m d \<longleftrightarrow> d \<noteq> [] \<and> length (payload m) = length d \<and> take (length d) (words_bytes (payload m)) = d"

lemma carries_received: "carries m d \<Longrightarrow> carries (received tmp m) d"
proof -
  assume c: "carries m d"
  then have "payload m \<noteq> []" by (auto simp: carries_def)
  with c received_prefix [OF this, of tmp] show ?thesis by (simp add: carries_def)
qed

lemma carries_pushed: "d \<noteq> [] \<Longrightarrow> payload m = [] \<Longrightarrow> carries (push_data m d) d"
  by (simp add: carries_def)

lemma carries_pop: "carries m d \<Longrightarrow> \<exists>m'. pop_data (length d) m = Inr (m', d)"
  using pop_first [of m "length d"] by (auto simp: carries_def)

text \<open>
  How much of a message arrives: its header; and the value, if it carries a single one, which is then read back with the
  operator.
\<close>

definition arrives_as :: "message \<Rightarrow> message \<Rightarrow> bool" where
  "arrives_as m m' \<longleftrightarrow> header m' = header m \<and> (\<forall>d. carries m d \<longrightarrow> (\<exists>m''. pop_data (length d) m' = Inr (m'', d)))"

lemma arrives_received: "arrives_as m (received tmp m)"
  using carries_pop [OF carries_received] by (auto simp: arrives_as_def)

lemma arrive_all: "list_all2 arrives_as ms (received_all tmp ms)"
  by (induction ms arbitrary: tmp) (simp_all add: arrives_received)

lemma arrive_first:
  assumes "ms' = take k (received_all tmp ms)"
  shows "list_all2 arrives_as (take (length ms') ms) ms'"
proof -
  have len: "length (received_all tmp ms) = length ms" using arrive_all by (metis list_all2_lengthD)
  then have "take (length ms') ms = take k ms" by (simp add: assms min_def)
  then show ?thesis unfolding assms using list_all2_takeI [OF arrive_all] by metis
qed

end
