(* ===== verification/Connection_Run.thy ===== *)
theory Connection_Run
  imports Wire_Format
begin

text \<open>
  A connection at work: the object together with its pending operations and the two byte
  streams of its socket. A step is the arrival of bytes, a call of \<open>SendData\<close> or
  \<open>Disconnect\<close> from another thread, or the completion of one pending operation followed by
  its handler (one thread runs the I/O context, so handlers do not overlap).

  What the steps rely on of \<open>boost::asio\<close> is its documentation. A read of \<open>n\<close> bytes
  completes without error when \<open>n\<close> bytes have arrived, and takes them; a write that
  completes without error has put its whole buffer on the stream; either may fail at any
  time, after a part of its bytes. An operation on a socket that is closed, or not connected
  yet, fails. The program must
  not start a write while another one is pending on the same socket; if it does,
  \<open>overlapped\<close> records it and nothing is assumed about what the writes put on the stream.

  \<open>consumed\<close>, \<open>delivered\<close>, \<open>items\<close> and \<open>validations\<close> record the history: the bytes
  that reads took off the stream, the messages appended to the incoming queue, the items
  (handshake data, messages) in the order in which the connection accepted them for
  sending, and the number of calls of \<open>onClientValidated\<close>.
\<close>

section \<open>States and steps\<close>

datatype item = Hs "byte list" | Msg message

fun item_bytes :: "item \<Rightarrow> byte list" where
  "item_bytes (Hs bs) = bs"
| "item_bytes (Msg m) = wire_bytes m"

definition stream_of :: "item list \<Rightarrow> byte list" where
  "stream_of its = concat (map item_bytes its)"

record link =
  conn :: connection
  pending :: "io_call list"
  rx :: "byte list"
  tx :: "byte list"
  consumed :: "byte list"
  delivered :: "owned_message list"
  items :: "item list"
  validations :: nat
  overlapped :: bool

fun is_write :: "io_call \<Rightarrow> bool" where
  "is_write (Async_write bs h) = True"
| "is_write _ = False"

fun apply_effect :: "effect \<Rightarrow> link \<Rightarrow> link" where
  "apply_effect (Io op) l =
     l\<lparr>pending := pending l @ [op],
       items := (case op of Async_write bs H_SendValidationData \<Rightarrow> items l @ [Hs bs] | _ \<Rightarrow> items l),
       overlapped := overlapped l \<or> (is_write op \<and> list_ex is_write (pending l))\<rparr>"
| "apply_effect (Push_incoming om) l = l\<lparr>delivered := delivered l @ [om]\<rparr>"
| "apply_effect (Call_onClientValidated self) l = l\<lparr>validations := Suc (validations l)\<rparr>"

primrec apply_effects :: "effect list \<Rightarrow> link \<Rightarrow> link" where
  "apply_effects [] l = l"
| "apply_effects (e # es) l = apply_effects es (apply_effect e l)"

text \<open>Running the handler of a completed operation.\<close>

definition fire :: "conn_ref \<Rightarrow> completion \<Rightarrow> link \<Rightarrow> link res" where
  "fire self ev l =
     bind_res (handle self ev (conn l)) (\<lambda>(c, es). Inr (apply_effects es (l\<lparr>conn := c\<rparr>)))"

text \<open>The state between the completion of an operation and its handler.\<close>

definition read_state :: "io_call list \<Rightarrow> nat \<Rightarrow> bool \<Rightarrow> link \<Rightarrow> link" where
  "read_state ops k ok l =
     l\<lparr>pending := ops, rx := drop k (rx l),
       consumed := (if ok then consumed l @ take k (rx l) else consumed l)\<rparr>"

definition write_state :: "io_call list \<Rightarrow> byte list \<Rightarrow> link \<Rightarrow> link" where
  "write_state ops t l = l\<lparr>pending := ops, tx := t\<rparr>"

definition task_state :: "io_call list \<Rightarrow> task \<Rightarrow> link \<Rightarrow> link" where
  "task_state ops t l =
     l\<lparr>pending := ops, items := (case t of Do_SendData m \<Rightarrow> items l @ [Msg m] | _ \<Rightarrow> items l)\<rparr>"

inductive link_step :: "conn_ref \<Rightarrow> link \<Rightarrow> link \<Rightarrow> bool" for self :: conn_ref where
  arrive: "link_step self l (l\<lparr>rx := rx l @ bs\<rparr>)"
| send: "link_step self l (apply_effects (snd (SendData m (conn l))) l)"
| disconnect: "link_step self l (apply_effects (snd (Disconnect (conn l))) l)"
| connect: "pending l = xs @ Async_connect # ys \<Longrightarrow>
     fire self (Connected ec) (l\<lparr>pending := xs @ ys\<rparr>) = Inr l' \<Longrightarrow> link_step self l l'"
| read_ok: "pending l = xs @ Async_read n h # ys \<Longrightarrow> n \<le> length (rx l) \<Longrightarrow> socket_open (conn l) \<Longrightarrow>
     Async_connect \<notin> set (pending l) \<Longrightarrow>
     fire self (Read_done h False (take n (rx l))) (read_state (xs @ ys) n True l) = Inr l' \<Longrightarrow>
     link_step self l l'"
| read_failed: "pending l = xs @ Async_read n h # ys \<Longrightarrow> k \<le> n \<Longrightarrow>
     fire self (Read_done h True (take k (rx l))) (read_state (xs @ ys) k False l) = Inr l' \<Longrightarrow>
     link_step self l l'"
| write_ok: "pending l = xs @ Async_write bs h # ys \<Longrightarrow> socket_open (conn l) \<Longrightarrow>
     Async_connect \<notin> set (pending l) \<Longrightarrow> overlapped l \<or> t = tx l @ bs \<Longrightarrow>
     fire self (Write_done h False) (write_state (xs @ ys) t l) = Inr l' \<Longrightarrow> link_step self l l'"
| write_failed: "pending l = xs @ Async_write bs h # ys \<Longrightarrow> k = 0 \<or> socket_open (conn l) \<Longrightarrow>
     overlapped l \<or> t = tx l @ take k bs \<Longrightarrow>
     fire self (Write_done h True) (write_state (xs @ ys) t l) = Inr l' \<Longrightarrow> link_step self l l'"
| task: "pending l = xs @ Post t # ys \<Longrightarrow>
     fire self (Run t) (task_state (xs @ ys) t l) = Inr l' \<Longrightarrow> link_step self l l'"

text \<open>
  The initial states: an object with no history, and the operations its owner calls first.
  A server may already have posted messages when it calls \<open>ConnectToClient\<close> (the custom
  server does, in \<open>onClientConnect\<close>).
\<close>

definition fresh_link :: "connection \<Rightarrow> message list \<Rightarrow> link" where
  "fresh_link c ms =
     \<lparr>conn = c, pending = map (\<lambda>m. Post (Do_SendData m)) ms, rx = [], tx = [], consumed = [],
      delivered = [], items = [], validations = 0, overlapped = False\<rparr>"

definition server_link :: "u32 \<Rightarrow> u64 \<Rightarrow> u64 \<Rightarrow> message list \<Rightarrow> link" where
  "server_link u_id clock hs_in ms =
     (let (c, es) = ConnectToClient u_id (new_connection Owner_server True clock hs_in)
      in apply_effects es (fresh_link c ms))"

definition client_link :: "u64 \<Rightarrow> u64 \<Rightarrow> link" where
  "client_link clock hs_in =
     (let (c, es) = ConnectToServer (new_connection Owner_client False clock hs_in)
      in apply_effects es (fresh_link c []))"

inductive link_reach :: "conn_ref \<Rightarrow> link \<Rightarrow> link \<Rightarrow> bool" for self :: conn_ref and l0 :: link where
  init: "link_reach self l0 l0"
| step: "link_reach self l0 l \<Longrightarrow> link_step self l l' \<Longrightarrow> link_reach self l0 l'"

lemma link_reach_invariant:
  assumes "link_reach self l0 l" and "P l0"
    and "\<And>l l'. link_step self l l' \<Longrightarrow> P l \<Longrightarrow> P l'"
  shows "P l"
  using assms by (induction rule: link_reach.induct) blast+

lemma link_reach_follow: "allowed (link_step self) fs l0 \<Longrightarrow> link_reach self l0 (follow fs l0)"
proof -
  have "link_reach self l0 l \<Longrightarrow> allowed (link_step self) fs l \<Longrightarrow> link_reach self l0 (follow fs l)" for l
    by (induction fs arbitrary: l) (auto intro: link_reach.step)
  then show "allowed (link_step self) fs l0 \<Longrightarrow> link_reach self l0 (follow fs l0)"
    by (blast intro: link_reach.init)
qed

lemmas handler_defs =
  ReadHeader_def ReadPayload_def ReadServerValidationRequest_def ReadAndCheckValidation_def
  SendValidationData_def WriteHeader_def writePayload_def ConnectToServer_def ConnectToClient_def
  Disconnect_def SendData_def AddToIncomingMsgQueue_def on_SendData_def on_Disconnect_def
  on_ConnectToServer_def on_ReadHeader_def on_ReadPayload_def write_next_def on_WriteHeader_def
  on_writePayload_def on_ReadServerValidationRequest_def on_SendValidationData_def
  on_ReadAndCheckValidation_def

lemmas store_defs = store_header_def store_payload_def store_handshake_def close_socket_def

lemmas link_state_defs = read_state_def write_state_def task_state_def

lemma stream_of_append [simp]: "stream_of (xs @ ys) = stream_of xs @ stream_of ys"
  by (simp add: stream_of_def)

lemma stream_of_simps [simp]:
  "stream_of [] = []" "stream_of (Hs bs # its) = bs @ stream_of its"
  "stream_of (Msg m # its) = wire_bytes m @ stream_of its"
  by (simp_all add: stream_of_def)

section \<open>The write loop\<close>

text \<open>
  The outgoing side of a connection that has not started overlapping writes: idle, sending
  its handshake data, the header or the payload of the message at the front of the queue.
  The arguments are the pending writes, the queue, the items accepted, the bytes sent.
\<close>

inductive write_phase :: "io_call list \<Rightarrow> message list \<Rightarrow> item list \<Rightarrow> byte list \<Rightarrow> bool" where
  idle: "write_phase [] [] its (stream_of its)"
| greeting: "write_phase [Async_write bs H_SendValidationData] [] (ds @ [Hs bs]) (stream_of ds)"
| header: "write_phase [Async_write (header_bytes (header m)) H_WriteHeader]
     (m # q) (ds @ map Msg (m # q)) (stream_of ds)"
| payload: "payload m \<noteq> [] \<Longrightarrow>
     write_phase [Async_write (payload_buffer m) H_writePayload]
       (m # q) (ds @ map Msg (m # q)) (stream_of ds @ header_bytes (header m))"

inductive_cases idle_phase: "write_phase [] q its t"
inductive_cases greeting_phase: "write_phase [Async_write bs H_SendValidationData] q its t"
inductive_cases header_phase: "write_phase [Async_write bs H_WriteHeader] q its t"
inductive_cases payload_phase: "write_phase [Async_write bs H_writePayload] q its t"

lemma write_phase_single:
  "write_phase ws q its t \<Longrightarrow> w \<in> set ws \<Longrightarrow> ws = [w]"
  by (induction rule: write_phase.induct) auto

lemma write_phase_prefix:
  "write_phase ws q its t \<Longrightarrow> \<exists>rest. stream_of its = t @ rest"
  by (induction rule: write_phase.induct) (auto simp: wire_bytes_def)

lemma write_phase_pending_prefix:
  "write_phase [Async_write bs h] q its t \<Longrightarrow> \<exists>rest. stream_of its = t @ bs @ rest"
  by (cases rule: write_phase.cases) (auto simp: wire_bytes_def)

text \<open>The part of a state the write loop is about.\<close>

fun is_msg_write :: "io_call \<Rightarrow> bool" where
  "is_msg_write (Async_write bs H_WriteHeader) = True"
| "is_msg_write (Async_write bs H_writePayload) = True"
| "is_msg_write _ = False"

type_synonym write_view =
  "io_call list \<times> message list \<times> item list \<times> byte list \<times> bool \<times> bool"

definition write_view :: "link \<Rightarrow> write_view" where
  "write_view l = (filter is_write (pending l), data_queue (out_msg_queue (conn l)), items l, tx l,
                   socket_open (conn l), overlapped l)"

text \<open>
  At most one message is being written, and only while the queue is not empty; without
  overlap the connection is in one of the phases, or closed after a prefix of the stream.
\<close>

fun write_ok_view :: "write_view \<Rightarrow> bool" where
  "write_ok_view (ws, q, its, t, opn, ov) \<longleftrightarrow>
     length (filter is_msg_write ws) \<le> 1 \<and> (filter is_msg_write ws \<noteq> [] \<longrightarrow> q \<noteq> []) \<and>
     (ov \<or> (if opn then write_phase ws q its t else \<exists>rest. stream_of its = t @ rest))"

declare write_ok_view.simps [simp del]

definition write_inv :: "link \<Rightarrow> bool" where
  "write_inv l \<longleftrightarrow> write_ok_view (write_view l)"

lemma is_msg_write_is_write: "is_msg_write op \<Longrightarrow> is_write op"
  by (cases op rule: is_msg_write.cases) auto

lemma view_close: "write_ok_view (ws, q, its, t, opn, ov) \<Longrightarrow> write_ok_view (ws, q, its, t, False, ov)"
  using write_phase_prefix by (auto simp: write_ok_view.simps split: if_splits)

lemma view_queue:
  "write_ok_view (ws, q, its, t, opn, ov) \<Longrightarrow> q \<noteq> [] \<Longrightarrow>
     write_ok_view (ws, q @ [m], its @ [Msg m], t, opn, ov)"
proof -
  have "write_phase ws q its t \<Longrightarrow> q \<noteq> [] \<Longrightarrow> write_phase ws (q @ [m]) (its @ [Msg m]) t"
  proof (induction rule: write_phase.induct)
    case (header m' q ds)
    show ?case using write_phase.header [of m' "q @ [m]" ds] by simp
  next
    case (payload m' q ds)
    then show ?case using write_phase.payload [of m' "q @ [m]" ds] by simp
  qed auto
  then show "write_ok_view (ws, q, its, t, opn, ov) \<Longrightarrow> q \<noteq> [] \<Longrightarrow> ?thesis"
    by (auto simp: write_ok_view.simps split: if_splits)
qed

lemma view_start_message:
  assumes "write_ok_view (ws, [], its, t, opn, ov)"
  shows "write_ok_view (ws @ [Async_write (header_bytes (header m)) H_WriteHeader], [m], its @ [Msg m], t,
           opn, ov \<or> ws \<noteq> [])"
proof -
  from assms have none: "filter is_msg_write ws = []" by (auto simp: write_ok_view.simps)
  have "write_phase [] [] its t \<Longrightarrow>
      write_phase [Async_write (header_bytes (header m)) H_WriteHeader] [m] (its @ [Msg m]) t"
    by (erule idle_phase) (use write_phase.header [of m "[]" its] in auto)
  with assms none show ?thesis by (auto simp: write_ok_view.simps split: if_splits)
qed

lemma view_start_greeting:
  assumes "write_ok_view (ws, q, its, t, opn, ov)"
  shows "write_ok_view (ws @ [Async_write bs H_SendValidationData], q, its @ [Hs bs], t, opn, ov \<or> ws \<noteq> [])"
proof -
  have "write_phase [] q its t \<Longrightarrow> write_phase [Async_write bs H_SendValidationData] q (its @ [Hs bs]) t"
    by (erule idle_phase) (use write_phase.greeting in auto)
  with assms show ?thesis by (auto simp: write_ok_view.simps split: if_splits)
qed

lemma view_greeting_sent:
  assumes "write_ok_view (xs @ Async_write bs H_SendValidationData # ys, q, its, t, True, ov)"
    and "ov \<or> t' = t @ bs"
  shows "write_ok_view (xs @ ys, q, its, t', True, ov)"
proof (cases ov)
  case True
  with assms show ?thesis by (auto simp: write_ok_view.simps)
next
  case False
  with assms(1) have ph: "write_phase (xs @ Async_write bs H_SendValidationData # ys) q its t"
    by (simp add: write_ok_view.simps)
  from write_phase_single [OF this, of "Async_write bs H_SendValidationData"]
  have "xs = []" "ys = []" by (auto simp: append_eq_Cons_conv)
  with ph have "write_phase [] q its (t @ bs)"
    using write_phase.idle by (auto elim!: greeting_phase) (metis stream_of_append stream_of_simps(1,2) append_Nil2)
  with False assms \<open>xs = []\<close> \<open>ys = []\<close> show ?thesis by (auto simp: write_ok_view.simps)
qed

text \<open>A message write is the only pending message write, and the queue is not empty.\<close>

lemma view_msg_write:
  assumes "write_ok_view (xs @ op # ys, q, its, t, opn, ov)" "is_msg_write op"
  shows "q \<noteq> []" "filter is_msg_write (xs @ ys) = []"
  using assms by (auto simp: write_ok_view.simps)

lemma view_phase_alone:
  assumes "write_ok_view (xs @ op # ys, q, its, t, True, False)"
  shows "write_phase [op] q its t" "xs = []" "ys = []"
proof -
  from assms have ph: "write_phase (xs @ op # ys) q its t" by (simp add: write_ok_view.simps)
  from write_phase_single [OF this, of op] have *: "xs @ op # ys = [op]" by simp
  with ph show "write_phase [op] q its t" by simp
  from * show "xs = []" "ys = []" by (auto simp: append_eq_Cons_conv)
qed

lemma view_start_payload:
  assumes "write_ok_view (xs @ Async_write bs H_WriteHeader # ys, m # q, its, t, True, ov)"
    and "ov \<or> t' = t @ bs" and "payload m \<noteq> []"
  shows "write_ok_view ((xs @ ys) @ [Async_write (payload_buffer m) H_writePayload], m # q, its, t', True,
           ov \<or> xs @ ys \<noteq> [])"
proof (cases ov)
  case True
  with view_msg_write [OF assms(1)] show ?thesis by (simp add: write_ok_view.simps)
next
  case False
  with assms(1) view_phase_alone [of xs _ ys] have
    ph: "write_phase [Async_write bs H_WriteHeader] (m # q) its t" and "xs = []" "ys = []" by auto
  from ph assms(2,3) False have
    "write_phase [Async_write (payload_buffer m) H_writePayload] (m # q) its t'"
    by (elim header_phase) (use write_phase.payload [of m q] in auto)
  with False \<open>xs = []\<close> \<open>ys = []\<close> show ?thesis by (simp add: write_ok_view.simps)
qed

text \<open>When a message is out: what is left of the view, before the next one is started.\<close>

definition sent_upto :: "bool \<Rightarrow> io_call list \<Rightarrow> message list \<Rightarrow> item list \<Rightarrow> byte list \<Rightarrow> bool" where
  "sent_upto ov ws q its t \<longleftrightarrow> filter is_msg_write ws = [] \<and>
     (ov \<or> ws = [] \<and> (\<exists>ds. its = ds @ map Msg q \<and> t = stream_of ds))"

lemma view_sent_header:
  assumes "write_ok_view (xs @ Async_write bs H_WriteHeader # ys, m # q, its, t, True, ov)"
    and "ov \<or> t' = t @ bs" and "payload m = []"
  shows "sent_upto ov (xs @ ys) q its t'"
proof (cases ov)
  case True
  with view_msg_write [OF assms(1)] show ?thesis by (simp add: sent_upto_def)
next
  case False
  with assms(1) view_phase_alone [of xs _ ys] have
    ph: "write_phase [Async_write bs H_WriteHeader] (m # q) its t" and "xs = []" "ys = []" by auto
  from ph obtain ds where "its = ds @ map Msg (m # q)" "t = stream_of ds" "bs = header_bytes (header m)"
    by (elim header_phase) auto
  then have "its = (ds @ [Msg m]) @ map Msg q \<and> t @ bs = stream_of (ds @ [Msg m])"
    using assms(3) by (simp add: wire_bytes_def payload_buffer_def)
  with False assms(2) \<open>xs = []\<close> \<open>ys = []\<close> show ?thesis unfolding sent_upto_def by (metis append_Nil filter.simps(1))
qed

lemma view_sent_payload:
  assumes "write_ok_view (xs @ Async_write bs H_writePayload # ys, m # q, its, t, True, ov)"
    and "ov \<or> t' = t @ bs"
  shows "sent_upto ov (xs @ ys) q its t'"
proof (cases ov)
  case True
  with view_msg_write [OF assms(1)] show ?thesis by (simp add: sent_upto_def)
next
  case False
  with assms(1) view_phase_alone [of xs _ ys] have
    ph: "write_phase [Async_write bs H_writePayload] (m # q) its t" and "xs = []" "ys = []" by auto
  from ph obtain ds where "its = ds @ map Msg (m # q)"
    "t = stream_of ds @ header_bytes (header m)" "bs = payload_buffer m"
    by (elim payload_phase) auto
  then have "its = (ds @ [Msg m]) @ map Msg q \<and> t @ bs = stream_of (ds @ [Msg m])"
    by (simp add: wire_bytes_def)
  with False assms(2) \<open>xs = []\<close> \<open>ys = []\<close> show ?thesis unfolding sent_upto_def by (metis append_Nil filter.simps(1))
qed

lemma view_sent_all: "sent_upto ov ws [] its t \<Longrightarrow> write_ok_view (ws, [], its, t, True, ov)"
  using write_phase.idle by (auto simp: sent_upto_def write_ok_view.simps)

lemma view_next_message:
  assumes "sent_upto ov ws (m # q) its t"
  shows "write_ok_view (ws @ [Async_write (header_bytes (header m)) H_WriteHeader], m # q, its, t, True,
           ov \<or> ws \<noteq> [])"
proof -
  have "write_phase [Async_write (header_bytes (header m)) H_WriteHeader] (m # q) its t"
    if "its = ds @ map Msg (m # q)" "t = stream_of ds" for ds
    using write_phase.header [of m q ds] that by simp
  with assms show ?thesis by (auto simp: sent_upto_def write_ok_view.simps)
qed

text \<open>A failed write closes the socket; what is on the stream stays a prefix.\<close>

lemma view_write_failed:
  assumes "write_ok_view (xs @ Async_write bs h # ys, q, its, t, opn, ov)"
    and "k = 0 \<or> opn" "ov \<or> t' = t @ take k bs"
  shows "write_ok_view (xs @ ys, q, its, t', False, ov)"
proof -
  have len: "length (filter is_msg_write (xs @ ys)) \<le> 1" "filter is_msg_write (xs @ ys) \<noteq> [] \<longrightarrow> q \<noteq> []"
    using assms(1) by (auto simp: write_ok_view.simps split: if_splits)
  have "ov \<or> (\<exists>rest. stream_of its = t' @ rest)"
  proof (cases "ov \<or> \<not> opn")
    case True
    with assms show ?thesis by (auto simp: write_ok_view.simps)
  next
    case False
    with assms(1) view_phase_alone [of xs _ ys] have "write_phase [Async_write bs h] q its t" by auto
    from write_phase_pending_prefix [OF this] obtain rest where "stream_of its = t @ bs @ rest" ..
    then have "stream_of its = t' @ drop k bs @ rest" using False assms(3) by simp
    then show ?thesis by blast
  qed
  with len show ?thesis by (simp add: write_ok_view.simps)
qed

lemma list_ex_is_write: "list_ex is_write ops \<longleftrightarrow> filter is_write ops \<noteq> []"
  by (induction ops) auto

section \<open>The write loop keeps its invariant\<close>

text \<open>What the handlers do to the view. First those that do not write a message.\<close>

lemma write_view_simps [simp]:
  "write_view (l\<lparr>rx := r\<rparr>) = write_view l"
  "write_view (read_state ops k ok l) =
     (filter is_write ops, data_queue (out_msg_queue (conn l)), items l, tx l, socket_open (conn l), overlapped l)"
  "write_view (write_state ops t l) =
     (filter is_write ops, data_queue (out_msg_queue (conn l)), items l, t, socket_open (conn l), overlapped l)"
  by (simp_all add: write_view_def link_state_defs)

definition with_open :: "write_view \<Rightarrow> bool \<Rightarrow> write_view" where
  "with_open v opn = (case v of (ws, q, its, t, _, ov) \<Rightarrow> (ws, q, its, t, opn, ov))"

lemma write_view_connected:
  "fire self (Connected ec) l = Inr l' \<Longrightarrow> write_view l' = write_view l"
  by (auto simp: fire_def handler_defs write_view_def split: if_splits)

lemma write_view_read_header:
  "fire self (Read_done H_ReadHeader ec bs) l = Inr l' \<Longrightarrow>
     write_view l' = (if ec then with_open (write_view l) False else write_view l)"
  by (auto simp: fire_def handler_defs store_defs write_view_def with_open_def Let_def split: if_splits)

lemma write_view_read_payload:
  "fire self (Read_done H_ReadPayload ec bs) l = Inr l' \<Longrightarrow>
     write_view l' = (if ec then with_open (write_view l) False else write_view l)"
  by (auto simp: fire_def handler_defs store_defs write_view_def with_open_def Let_def split: if_splits)

lemma write_view_check:
  "fire self (Read_done H_ReadAndCheckValidation ec bs) l = Inr l' \<Longrightarrow>
     write_view l' = write_view l \<or> write_view l' = with_open (write_view l) False"
  by (auto simp: fire_def handler_defs store_defs write_view_def with_open_def Let_def split: if_splits)

lemma write_view_request:
  "fire self (Read_done H_ReadServerValidationRequest ec bs) l = Inr l' \<Longrightarrow>
     write_view l' = with_open (write_view l) False \<or>
     (\<exists>g. write_view l' =
        (case write_view l of (ws, q, its, t, opn, ov) \<Rightarrow>
           (ws @ [Async_write g H_SendValidationData], q, its @ [Hs g], t, opn, ov \<or> ws \<noteq> [])))"
  by (auto simp: fire_def handler_defs store_defs write_view_def with_open_def Let_def
        list_ex_is_write split: if_splits)

lemma write_view_greeting:
  "fire self (Write_done H_SendValidationData ec) l = Inr l' \<Longrightarrow>
     write_view l' = (if ec then with_open (write_view l) False else write_view l)"
  by (auto simp: fire_def handler_defs store_defs write_view_def with_open_def split: if_splits)

lemma write_view_disconnect:
  "fire self (Run Do_Disconnect) (task_state ops Do_Disconnect l) = Inr l' \<Longrightarrow>
     write_view l' = (filter is_write ops, data_queue (out_msg_queue (conn l)), items l, tx l, False, overlapped l)"
  by (auto simp: fire_def handler_defs store_defs write_view_def link_state_defs)

lemma view_with_open: "write_ok_view v \<Longrightarrow> write_ok_view (with_open v False)"
  by (cases v) (auto simp: with_open_def intro: view_close)

lemma write_inv_read:
  assumes "write_inv l" "fire self (Read_done h ec bs) l = Inr l'"
  shows "write_inv l'"
proof (cases h)
  case H_ReadHeader
  with assms write_view_read_header [of self ec bs l l'] show ?thesis
    by (auto simp: write_inv_def view_with_open)
next
  case H_ReadPayload
  with assms write_view_read_payload [of self ec bs l l'] show ?thesis
    by (auto simp: write_inv_def view_with_open)
next
  case H_ReadServerValidationRequest
  with assms write_view_request [of self ec bs l l'] show ?thesis
    by (cases "write_view l") (auto simp: write_inv_def view_with_open view_start_greeting)
next
  case H_ReadAndCheckValidation
  with assms write_view_check [of self ec bs l l'] show ?thesis
    by (auto simp: write_inv_def view_with_open)
qed

text \<open>The handlers of the message writes.\<close>

lemma fire_next:
  assumes "data_queue (out_msg_queue (conn l)) = m # q"
    and "bind_res (write_next (conn l)) (\<lambda>(c, es). Inr (apply_effects es (l\<lparr>conn := c\<rparr>))) = Inr l'"
    and "sent_upto (overlapped l) (filter is_write (pending l)) q (items l) (tx l)"
    and "socket_open (conn l)"
  shows "write_inv l'"
proof (cases q)
  case Nil
  with assms(1,2) have "write_view l' = (filter is_write (pending l), [], items l, tx l, True, overlapped l)"
    using assms(4) by (auto simp: write_next_def isEmpty_def write_view_def)
  with Nil assms(3) show ?thesis by (simp add: write_inv_def view_sent_all)
next
  case (Cons m' q')
  with assms(1,2) have "write_view l' = (filter is_write (pending l) @
      [Async_write (header_bytes (header m')) H_WriteHeader], m' # q', items l, tx l, True,
      overlapped l \<or> filter is_write (pending l) \<noteq> [])"
    using assms(4)
    by (auto simp: write_next_def isEmpty_def WriteHeader_def front_elem_def write_view_def list_ex_is_write)
  with Cons assms(3) show ?thesis by (simp add: write_inv_def view_next_message)
qed

lemma write_inv_write_ok:
  assumes "write_inv l" "pending l = xs @ Async_write bs h # ys" "socket_open (conn l)"
    and "overlapped l \<or> t = tx l @ bs"
    and "fire self (Write_done h False) (write_state (xs @ ys) t l) = Inr l'"
  shows "write_inv l'"
proof -
  let ?q = "data_queue (out_msg_queue (conn l))"
  let ?fx = "filter is_write xs" and ?fy = "filter is_write ys"
  have v: "write_ok_view (?fx @ Async_write bs h # ?fy, ?q, items l, tx l, True, overlapped l)"
    using assms(1-3) by (simp add: write_inv_def write_view_def)
  show ?thesis
  proof (cases "h = H_SendValidationData")
    case True
    with v assms(4) have
      "write_ok_view (?fx @ ?fy, ?q, items l, t, True, overlapped l)" by (simp add: view_greeting_sent)
    with True write_view_greeting [of self False "write_state (xs @ ys) t l" l'] assms(3,5)
    show ?thesis by (simp add: write_inv_def)
  next
    case False
    then have "is_msg_write (Async_write bs h)" by (cases h) auto
    from view_msg_write(1) [OF v this] obtain m q where q: "?q = m # q" by (cases ?q) auto
    have sent: "sent_upto (overlapped l) (?fx @ ?fy) q (items l) t"
      if "h = H_WriteHeader \<longrightarrow> payload m = []"
      using that v q assms(4) False view_sent_header view_sent_payload by (cases h) auto
    have continue: "write_inv l'" if n: "h = H_WriteHeader \<longrightarrow> payload m = []"
    proof (rule fire_next)
      show "data_queue (out_msg_queue (conn (write_state (xs @ ys) t l))) = m # q"
        using q by (simp add: write_state_def)
      show "bind_res (write_next (conn (write_state (xs @ ys) t l)))
          (\<lambda>(c, es). Inr (apply_effects es (write_state (xs @ ys) t l\<lparr>conn := c\<rparr>))) = Inr l'"
        using assms(5) n False q
        by (cases h) (auto simp: fire_def write_state_def on_WriteHeader_def on_writePayload_def)
      show "sent_upto (overlapped (write_state (xs @ ys) t l)) (filter is_write (pending (write_state (xs @ ys) t l)))
          q (items (write_state (xs @ ys) t l)) (tx (write_state (xs @ ys) t l))"
        using sent [OF n] by (simp add: write_state_def)
    qed (use assms(3) in \<open>simp add: write_state_def\<close>)
    show ?thesis
    proof (cases "h = H_WriteHeader \<longrightarrow> payload m = []")
      case True
      then show ?thesis by (rule continue)
    next
      case header: False
      then have *: "write_view l' = ((?fx @ ?fy) @ [Async_write (payload_buffer m) H_writePayload],
          m # q, items l, t, True, overlapped l \<or> ?fx @ ?fy \<noteq> [])"
        using assms(3,5) q
        by (auto simp: fire_def on_WriteHeader_def writePayload_def write_state_def write_view_def
              list_ex_is_write)
      from header v q have v': "write_ok_view (?fx @ Async_write bs H_WriteHeader # ?fy, m # q, items l, tx l,
          True, overlapped l)" and "payload m \<noteq> []" by auto
      then show ?thesis
        unfolding write_inv_def * using view_start_payload [OF v' assms(4)] by blast
    qed
  qed
qed

lemma write_inv_write_failed:
  assumes "write_inv l" "pending l = xs @ Async_write bs h # ys" "k = 0 \<or> socket_open (conn l)"
    and "overlapped l \<or> t = tx l @ take k bs"
    and "fire self (Write_done h True) (write_state (xs @ ys) t l) = Inr l'"
  shows "write_inv l'"
proof -
  have "write_ok_view (filter is_write (xs @ ys), data_queue (out_msg_queue (conn l)), items l, t, False, overlapped l)"
    using view_write_failed [of "filter is_write xs" bs h "filter is_write ys"] assms(1-4)
    by (simp add: write_inv_def write_view_def)
  moreover have "write_view l' =
      (filter is_write (xs @ ys), data_queue (out_msg_queue (conn l)), items l, t, False, overlapped l)"
    using assms(5) by (cases h) (auto simp: fire_def handler_defs store_defs write_view_def write_state_def)
  ultimately show ?thesis by (simp add: write_inv_def)
qed

lemma write_inv_send:
  assumes "write_inv l" "pending l = xs @ Post (Do_SendData m) # ys"
    and "fire self (Run (Do_SendData m)) (task_state (xs @ ys) (Do_SendData m) l) = Inr l'"
  shows "write_inv l'"
proof -
  let ?q = "data_queue (out_msg_queue (conn l))"
  let ?v = "(filter is_write (xs @ ys), ?q, items l, tx l, socket_open (conn l), overlapped l)"
  have v: "write_ok_view ?v" using assms(1,2) by (simp add: write_inv_def write_view_def)
  show ?thesis
  proof (cases "?q = []")
    case True
    with assms(3) have *: "write_view l' = (filter is_write (xs @ ys) @
        [Async_write (header_bytes (header m)) H_WriteHeader], [m], items l @ [Msg m], tx l,
        socket_open (conn l), overlapped l \<or> filter is_write (xs @ ys) \<noteq> [])"
      by (auto simp: fire_def handler_defs write_view_def task_state_def isEmpty_def list_ex_is_write front_elem_def)
    from v True have v0: "write_ok_view (filter is_write (xs @ ys), [], items l, tx l,
        socket_open (conn l), overlapped l)" by simp
    show ?thesis unfolding write_inv_def * by (rule view_start_message [OF v0])
  next
    case False
    with assms(3) have "write_view l' = (filter is_write (xs @ ys), ?q @ [m], items l @ [Msg m], tx l,
        socket_open (conn l), overlapped l)"
      by (auto simp: fire_def handler_defs write_view_def task_state_def isEmpty_def)
    with False v show ?thesis using view_queue by (simp add: write_inv_def)
  qed
qed

lemma write_view_other:
  "pending l = xs @ op # ys \<Longrightarrow> \<not> is_write op \<Longrightarrow> write_view (l\<lparr>pending := xs @ ys\<rparr>) = write_view l"
  "write_view (apply_effects (snd (SendData m c)) l) = write_view l"
  "write_view (apply_effects (snd (Disconnect c)) l) = write_view l"
  by (simp_all add: write_view_def SendData_def Disconnect_def)

theorem write_inv_step:
  assumes "link_step self l l'" "write_inv l"
  shows "write_inv l'"
  using assms(1)
proof cases
  case (connect xs ys ec)
  with assms(2) show ?thesis
    using write_view_connected [of self ec "l\<lparr>pending := xs @ ys\<rparr>" l']
    by (simp add: write_inv_def write_view_other)
next
  case (read_ok xs n h ys)
  have "write_inv (read_state (xs @ ys) n True l)"
    using assms(2) read_ok by (simp add: write_inv_def) (simp add: write_view_def)
  from write_inv_read [OF this] read_ok show ?thesis by blast
next
  case (read_failed xs n h ys k)
  have "write_inv (read_state (xs @ ys) k False l)"
    using assms(2) read_failed by (simp add: write_inv_def) (simp add: write_view_def)
  from write_inv_read [OF this] read_failed show ?thesis by blast
next
  case (task xs t ys)
  show ?thesis
  proof (cases t)
    case (Do_SendData m)
    with task assms(2) show ?thesis by (simp add: write_inv_send)
  next
    case Do_Disconnect
    with task assms(2) write_view_disconnect [of self "xs @ ys" l l'] show ?thesis
      by (auto simp: write_inv_def write_view_def intro: view_close)
  qed
qed (use assms(2) in \<open>auto simp: write_inv_def write_view_other
      intro: write_inv_write_ok [unfolded write_inv_def] write_inv_write_failed [unfolded write_inv_def]\<close>)

end
