(* ===== verification/Connection_Read.thy ===== *)
theory Connection_Read
  imports Connection_Run
begin

text \<open>
  The incoming side of a connection: the chain of read handlers computes \<open>recv_frames\<close> on
  the bytes it consumes, and does not reach the first header before the handshake is done.
\<close>

section \<open>Phases of the incoming side\<close>

text \<open>
  The pending operations whose handlers go on reading. A client starts reading headers when
  its answer to the handshake has been written, so for a client that write counts as well.
\<close>

fun read_token :: "Owner \<Rightarrow> io_call \<Rightarrow> bool" where
  "read_token r Async_connect = True"
| "read_token r (Async_read n h) = True"
| "read_token r (Async_write bs H_SendValidationData) = (r = Owner_client)"
| "read_token r _ = False"

text \<open>After the bytes \<open>fs\<close> the messages \<open>ds\<close> are out, and \<open>tmp\<close> is what the next frame overwrites.\<close>

definition at_boundary :: "message \<Rightarrow> byte list \<Rightarrow> message list \<Rightarrow> bool" where
  "at_boundary tmp fs ds \<longleftrightarrow>
     (\<forall>more. recv_frames empty_message (fs @ more) = ds @ recv_frames tmp more)"

definition greeted :: "connection \<Rightarrow> byte list \<Rightarrow> bool" where
  "greeted c g \<longleftrightarrow> length g = 8 \<and> (owner c = Owner_server \<longrightarrow> g = le_bytes 8 (handshake_check c))"

definition validations_due :: "connection \<Rightarrow> nat" where
  "validations_due c = (if owner c = Owner_server then 1 else 0)"

text \<open>
  The arguments are the pending operations of this side, the bytes consumed, the messages
  delivered and the number of calls of \<open>onClientValidated\<close>.
\<close>

inductive read_phase :: "connection \<Rightarrow> io_call list \<Rightarrow> byte list \<Rightarrow> message list \<Rightarrow> nat \<Rightarrow> bool"
  for c :: connection where
  await_answer: "owner c = Owner_server \<Longrightarrow> tmp_input_msg c = empty_message \<Longrightarrow>
     read_phase c [Async_read 8 H_ReadAndCheckValidation] [] [] 0"
| connecting: "owner c = Owner_client \<Longrightarrow> tmp_input_msg c = empty_message \<Longrightarrow>
     read_phase c [Async_connect] [] [] 0"
| await_puzzle: "owner c = Owner_client \<Longrightarrow> tmp_input_msg c = empty_message \<Longrightarrow>
     read_phase c [Async_read 8 H_ReadServerValidationRequest] [] [] 0"
| answering: "owner c = Owner_client \<Longrightarrow> tmp_input_msg c = empty_message \<Longrightarrow> length g = 8 \<Longrightarrow>
     read_phase c [Async_write bs H_SendValidationData] g [] 0"
| in_header: "greeted c g \<Longrightarrow> at_boundary (tmp_input_msg c) fs ds \<Longrightarrow>
     read_phase c [Async_read 8 H_ReadHeader] (g @ fs) ds (validations_due c)"
| in_payload: "greeted c g \<Longrightarrow> at_boundary tmp fs ds \<Longrightarrow>
     tmp_input_msg c = tmp\<lparr>header := h, payload := resize n (payload tmp)\<rparr> \<Longrightarrow>
     n = unat (hdr_size h) \<Longrightarrow> 0 < n \<Longrightarrow>
     read_phase c [Async_read n H_ReadPayload] (g @ fs @ header_bytes h) ds (validations_due c)"
| stopped: "ds = recv_frames empty_message (drop 8 cs) \<Longrightarrow>
     (ds \<noteq> [] \<or> v \<noteq> 0 \<longrightarrow> greeted c (take 8 cs)) \<Longrightarrow> v \<le> validations_due c \<Longrightarrow> read_phase c [] cs ds v"

inductive_cases await_answer_phase: "read_phase c [Async_read n H_ReadAndCheckValidation] cs ds v"
inductive_cases connecting_phase: "read_phase c [Async_connect] cs ds v"
inductive_cases await_puzzle_phase: "read_phase c [Async_read n H_ReadServerValidationRequest] cs ds v"
inductive_cases answering_phase: "read_phase c [Async_write bs h] cs ds v"
inductive_cases in_header_phase: "read_phase c [Async_read n H_ReadHeader] cs ds v"
inductive_cases in_payload_phase: "read_phase c [Async_read n H_ReadPayload] cs ds v"

lemma read_phase_single: "read_phase c ops cs ds v \<Longrightarrow> op \<in> set ops \<Longrightarrow> ops = [op]"
  by (induction rule: read_phase.induct) auto

lemma greeted_length: "greeted c g \<Longrightarrow> length g = 8"
  by (simp add: greeted_def)

lemma at_boundary_all: "at_boundary tmp fs ds \<Longrightarrow> recv_frames empty_message fs = ds"
proof -
  assume "at_boundary tmp fs ds"
  then have "recv_frames empty_message (fs @ []) = ds @ recv_frames tmp []"
    unfolding at_boundary_def by blast
  then show ?thesis by (simp add: recv_short)
qed

lemma at_boundary_incomplete:
  assumes "at_boundary tmp fs ds" "0 < unat (hdr_size h)"
  shows "recv_frames empty_message (fs @ header_bytes h) = ds"
  using assms recv_incomplete [of "[]" h tmp] unfolding at_boundary_def
  by (metis append_Nil2 list.size(3))

text \<open>The facts that hold in every phase.\<close>

lemma read_phase_facts_aux:
  assumes "read_phase c ops cs ds v"
  shows "ds = recv_frames empty_message (drop 8 cs) \<and> (ds \<noteq> [] \<or> v \<noteq> 0 \<longrightarrow> greeted c (take 8 cs)) \<and>
     v \<le> validations_due c"
  using assms
proof cases
  case (in_header g fs)
  then show ?thesis using at_boundary_all greeted_length [of c g] by simp
next
  case (in_payload g tmp fs n h)
  then show ?thesis using at_boundary_incomplete [of tmp fs ds h] greeted_length [of c g] by simp
next
  case stopped
  then show ?thesis by blast
qed (simp_all add: recv_short)

lemmas read_phase_facts =
  read_phase_facts_aux [THEN conjunct1]
  read_phase_facts_aux [THEN conjunct2, THEN conjunct1]
  read_phase_facts_aux [THEN conjunct2, THEN conjunct2]

lemma read_phase_stop:
  assumes "read_phase c ops cs ds v"
  shows "read_phase c [] cs ds v"
  using read_phase_facts [OF assms] by (rule read_phase.stopped)

lemma read_phase_cong:
  assumes "read_phase c ops cs ds v"
    and "owner c' = owner c" "tmp_input_msg c' = tmp_input_msg c" "handshake_check c' = handshake_check c"
  shows "read_phase c' ops cs ds v"
proof -
  have [simp]: "greeted c' = greeted c" "validations_due c' = validations_due c"
    using assms(2,4) by (simp_all add: greeted_def validations_due_def fun_eq_iff)
  show ?thesis using assms(1)
  proof (induction rule: read_phase.induct)
    case (in_header g fs ds)
    then show ?case using read_phase.in_header [of c' g fs ds] assms by simp
  next
    case (in_payload g tmp fs ds h n)
    then show ?case using read_phase.in_payload [of c' g tmp fs ds h n] assms by simp
  next
    case (stopped ds cs v)
    then show ?case using read_phase.stopped [of ds cs v c'] by simp
  qed (use assms in \<open>auto intro: read_phase.intros\<close>)
qed

lemma read_phase_irrelevant [simp]:
  "read_phase (c\<lparr>handshake_in := x\<rparr>) ops cs ds v = read_phase c ops cs ds v"
  "read_phase (c\<lparr>handshake_out := y\<rparr>) ops cs ds v = read_phase c ops cs ds v"
  "read_phase (c\<lparr>socket_open := b\<rparr>) ops cs ds v = read_phase c ops cs ds v"
  by (auto intro: read_phase_cong [of c] read_phase_cong [of "c\<lparr>handshake_in := x\<rparr>"]
      read_phase_cong [of "c\<lparr>handshake_out := y\<rparr>"] read_phase_cong [of "c\<lparr>socket_open := b\<rparr>"])

lemma read_phase_stop_cong:
  assumes "read_phase c ops cs ds v" "owner c' = owner c" "handshake_check c' = handshake_check c"
  shows "read_phase c' [] cs ds v"
proof -
  have "greeted c' = greeted c" "validations_due c' = validations_due c"
    using assms(2,3) by (simp_all add: greeted_def validations_due_def fun_eq_iff)
  with read_phase_facts [OF assms(1)] show ?thesis by (intro read_phase.stopped) simp_all
qed

text \<open>The next boundary, after a frame without and with a payload.\<close>

lemma at_boundary_header_only:
  assumes "at_boundary tmp fs ds" "unat (hdr_size h) = 0"
  shows "at_boundary (tmp\<lparr>header := h\<rparr>) (fs @ header_bytes h) (ds @ [tmp\<lparr>header := h\<rparr>])"
  using assms recv_header_only [OF assms(2)] by (simp add: at_boundary_def)

lemma at_boundary_payload:
  assumes "at_boundary tmp fs ds" "n = unat (hdr_size h)" "0 < n" "length p = n"
    and "m = tmp\<lparr>header := h, payload := filled (payload tmp) n p\<rparr>"
  shows "at_boundary m (fs @ header_bytes h @ p) (ds @ [m])"
  using assms recv_payload [of h n p tmp] by (simp add: at_boundary_def Let_def)

lemma at_boundary_start: "at_boundary empty_message [] []"
  by (simp add: at_boundary_def)

section \<open>The invariant\<close>

definition read_inv :: "conn_ref \<Rightarrow> link \<Rightarrow> bool" where
  "read_inv self l \<longleftrightarrow>
     read_phase (conn l) (filter (read_token (owner (conn l))) (pending l)) (consumed l)
       (map msg (delivered l)) (validations l) \<and>
     (\<forall>om \<in> set (delivered l).
        remote om = (if owner (conn l) = Owner_server then Some self else None))"

lemma read_inv_token:
  assumes "read_inv self l" "pending l = xs @ op # ys" "read_token (owner (conn l)) op"
  shows "read_phase (conn l) [op] (consumed l) (map msg (delivered l)) (validations l)"
    and "filter (read_token (owner (conn l))) (xs @ ys) = []"
proof -
  let ?f = "filter (read_token (owner (conn l)))"
  have ph: "read_phase (conn l) (?f xs @ op # ?f ys) (consumed l) (map msg (delivered l)) (validations l)"
    using assms by (simp add: read_inv_def)
  from read_phase_single [OF this, of op] have *: "?f xs @ op # ?f ys = [op]" by simp
  with ph show "read_phase (conn l) [op] (consumed l) (map msg (delivered l)) (validations l)" by simp
  from * show "?f (xs @ ys) = []" by (auto simp: append_eq_Cons_conv)
qed

section \<open>Every step keeps it\<close>

text \<open>The part of a state the invariant is about; many steps leave it alone.\<close>

definition read_view ::
  "link \<Rightarrow> Owner \<times> message \<times> u64 \<times> io_call list \<times> byte list \<times> owned_message list \<times> nat" where
  "read_view l = (owner (conn l), tmp_input_msg (conn l), handshake_check (conn l),
     filter (read_token (owner (conn l))) (pending l), consumed l, delivered l, validations l)"

lemma read_inv_view: "read_view l' = read_view l \<Longrightarrow> read_inv self l \<Longrightarrow> read_inv self l'"
  by (auto simp: read_view_def read_inv_def intro: read_phase_cong)

text \<open>A handler that ends the incoming side.\<close>

lemma read_inv_stop:
  assumes "read_inv self l"
    and "filter (read_token (owner (conn l'))) (pending l') = []"
    and "owner (conn l') = owner (conn l)" "handshake_check (conn l') = handshake_check (conn l)"
    and "consumed l' = consumed l" "delivered l' = delivered l" "validations l' = validations l"
  shows "read_inv self l'"
  using assms by (auto simp: read_inv_def intro: read_phase_stop_cong)

lemma read_view_message_write:
  "fire self (Write_done h ec) l = Inr l' \<Longrightarrow> h \<noteq> H_SendValidationData \<Longrightarrow> read_view l' = read_view l"
  by (cases h)
    (auto simp: fire_def handler_defs store_defs read_view_def bind_res_Inr_iff Let_def split: if_splits)

lemma read_view_task: "fire self (Run t) l = Inr l' \<Longrightarrow> read_view l' = read_view l"
  by (cases t)
    (auto simp: fire_def handler_defs store_defs read_view_def bind_res_Inr_iff Let_def split: if_splits)

lemma read_view_states:
  "\<not> read_token (owner (conn l)) op \<Longrightarrow> pending l = xs @ op # ys \<Longrightarrow>
     read_view (write_state (xs @ ys) t l) = read_view l"
  "\<not> read_token (owner (conn l)) op \<Longrightarrow> pending l = xs @ op # ys \<Longrightarrow>
     read_view (task_state (xs @ ys) u l) = read_view l"
  "read_view (l\<lparr>rx := r\<rparr>) = read_view l"
  "read_view (apply_effects (snd (SendData m c)) l) = read_view l"
  "read_view (apply_effects (snd (Disconnect c)) l) = read_view l"
  by (simp_all add: read_view_def link_state_defs SendData_def Disconnect_def)

lemma read_inv_message_write:
  assumes "read_inv self l" "pending l = xs @ Async_write bs h # ys" "h \<noteq> H_SendValidationData"
    and "fire self (Write_done h ec) (write_state (xs @ ys) t l) = Inr l'"
  shows "read_inv self l'"
proof -
  have "\<not> read_token (owner (conn l)) (Async_write bs h)" using assms(3) by (cases h) auto
  then have "read_view l' = read_view l"
    using read_view_message_write [OF assms(4,3)] read_view_states(1) assms(2) by simp
  then show ?thesis using assms(1) by (rule read_inv_view)
qed

lemma read_inv_greeting:
  assumes inv: "read_inv self l" and p: "pending l = xs @ Async_write bs H_SendValidationData # ys"
    and f: "fire self (Write_done H_SendValidationData ec) (write_state (xs @ ys) t l) = Inr l'"
  shows "read_inv self l'"
proof (cases "owner (conn l)")
  case Owner_server
  then have "read_view l' = read_view l"
    using f p by (auto simp: fire_def handler_defs store_defs read_view_def write_state_def split: if_splits)
  then show ?thesis using inv by (rule read_inv_view)
next
  case Owner_client
  let ?c = "conn l"
  from read_inv_token [OF inv p] Owner_client have
    ph: "read_phase ?c [Async_write bs H_SendValidationData] (consumed l) (map msg (delivered l)) (validations l)"
    and rest: "filter (read_token Owner_client) (xs @ ys) = []" by simp_all
  show ?thesis
  proof (cases ec)
    case True
    with f Owner_client rest show ?thesis
      by (intro read_inv_stop [OF inv])
        (auto simp: fire_def handler_defs store_defs write_state_def)
  next
    case False
    from ph have "length (consumed l) = 8" "tmp_input_msg ?c = empty_message"
      "delivered l = []" "validations l = 0" by (auto elim: answering_phase)
    moreover have "read_phase ?c [Async_read 8 H_ReadHeader] (consumed l @ []) [] 0"
      using read_phase.in_header [of ?c "consumed l" "[]" "[]"] calculation Owner_client at_boundary_start
      by (simp add: greeted_def validations_due_def)
    ultimately show ?thesis
      using False f Owner_client rest
      by (auto simp: read_inv_def fire_def handler_defs write_state_def)
  qed
qed

lemma read_inv_connected:
  assumes inv: "read_inv self l" and p: "pending l = xs @ Async_connect # ys"
    and f: "fire self (Connected ec) (l\<lparr>pending := xs @ ys\<rparr>) = Inr l'"
  shows "read_inv self l'"
proof -
  let ?c = "conn l"
  from read_inv_token [OF inv p] have
    ph: "read_phase ?c [Async_connect] (consumed l) (map msg (delivered l)) (validations l)"
    and rest: "filter (read_token (owner ?c)) (xs @ ys) = []" by simp_all
  show ?thesis
  proof (cases ec)
    case True
    with f rest show ?thesis
      by (intro read_inv_stop [OF inv]) (auto simp: fire_def handler_defs)
  next
    case False
    from ph have "read_phase ?c [Async_read 8 H_ReadServerValidationRequest] (consumed l)
        (map msg (delivered l)) (validations l)"
      by (elim connecting_phase) (auto intro: read_phase.await_puzzle)
    with False f rest inv show ?thesis by (auto simp: read_inv_def fire_def handler_defs)
  qed
qed

text \<open>A failed read: its handler closes the socket and starts nothing.\<close>

lemma read_inv_read_failed:
  assumes inv: "read_inv self l" and p: "pending l = xs @ Async_read n h # ys"
    and f: "fire self (Read_done h True bs) (read_state (xs @ ys) k False l) = Inr l'"
  shows "read_inv self l'"
proof -
  have "filter (read_token (owner (conn l))) (xs @ ys) = []"
    using read_inv_token [OF inv p] by simp
  then show ?thesis
    using f by (intro read_inv_stop [OF inv]; cases h)
      (auto simp: fire_def handler_defs store_defs read_state_def Let_def)
qed

text \<open>A completed read, handler by handler. What the reads store:\<close>

lemma store_handshake_all:
  "length bs = 8 \<Longrightarrow> store_handshake bs c = c\<lparr>handshake_in := of_le_bytes bs\<rparr>"
  by (simp add: store_handshake_def)

lemma store_header_all:
  "length bs = 8 \<Longrightarrow>
     store_header bs c = c\<lparr>tmp_input_msg := (tmp_input_msg c)\<lparr>header := header_of_bytes bs\<rparr>\<rparr>"
  by (simp add: store_header_def Let_def)

lemma read_inv_check_ok:
  assumes inv: "read_inv self l" and p: "pending l = xs @ Async_read n H_ReadAndCheckValidation # ys"
    and n: "n \<le> length (rx l)"
    and f: "fire self (Read_done H_ReadAndCheckValidation False (take n (rx l))) (read_state (xs @ ys) n True l) = Inr l'"
  shows "read_inv self l'"
proof -
  let ?c = "conn l" and ?bs = "take n (rx l)"
  from read_inv_token [OF inv p] have
    ph: "read_phase ?c [Async_read n H_ReadAndCheckValidation] (consumed l) (map msg (delivered l)) (validations l)"
    and rest: "filter (read_token (owner ?c)) (xs @ ys) = []" by simp_all
  from ph n have facts: "length ?bs = 8" "consumed l = []" "delivered l = []" "validations l = 0"
    "owner ?c = Owner_server" "tmp_input_msg ?c = empty_message" by (auto elim: await_answer_phase)
  show ?thesis
  proof (cases "of_le_bytes ?bs = handshake_check ?c")
    case True
    then have "?bs = le_bytes 8 (handshake_check ?c)" using facts(1) by (metis le_bytes_of_le_bytes_8)
    then have "read_phase ?c [Async_read 8 H_ReadHeader] (?bs @ []) [] 1"
      using read_phase.in_header [of ?c ?bs "[]" "[]"] facts at_boundary_start
      by (simp add: greeted_def validations_due_def)
    with True f facts rest show ?thesis
      by (auto simp: read_inv_def fire_def handler_defs read_state_def store_handshake_all)
  next
    case False
    have "read_phase ?c [] ?bs [] 0"
      using facts by (intro read_phase.stopped) (simp_all add: recv_short)
    with False f facts rest show ?thesis
      by (auto simp: read_inv_def fire_def handler_defs read_state_def store_handshake_all close_socket_def)
  qed
qed

lemma read_inv_request_ok:
  assumes inv: "read_inv self l" and p: "pending l = xs @ Async_read n H_ReadServerValidationRequest # ys"
    and n: "n \<le> length (rx l)"
    and f: "fire self (Read_done H_ReadServerValidationRequest False (take n (rx l))) (read_state (xs @ ys) n True l) = Inr l'"
  shows "read_inv self l'"
proof -
  let ?c = "conn l" and ?bs = "take n (rx l)"
  from read_inv_token [OF inv p] have
    ph: "read_phase ?c [Async_read n H_ReadServerValidationRequest] (consumed l) (map msg (delivered l)) (validations l)"
    and rest: "filter (read_token (owner ?c)) (xs @ ys) = []" by simp_all
  from ph n have facts: "length ?bs = 8" "consumed l = []" "delivered l = []" "validations l = 0"
    "owner ?c = Owner_client" "tmp_input_msg ?c = empty_message" by (auto elim: await_puzzle_phase)
  have "read_phase ?c [Async_write g H_SendValidationData] ?bs [] 0" for g
    using facts by (intro read_phase.answering) simp_all
  with f facts rest show ?thesis
    by (auto simp: read_inv_def fire_def handler_defs read_state_def store_handshake_all)
qed

lemma read_inv_header_ok:
  assumes inv: "read_inv self l" and p: "pending l = xs @ Async_read n H_ReadHeader # ys"
    and n: "n \<le> length (rx l)"
    and f: "fire self (Read_done H_ReadHeader False (take n (rx l))) (read_state (xs @ ys) n True l) = Inr l'"
  shows "read_inv self l'"
proof -
  let ?c = "conn l" and ?bs = "take n (rx l)" and ?v = "validations l"
  let ?h = "header_of_bytes ?bs" and ?tmp = "tmp_input_msg ?c"
  from read_inv_token [OF inv p] have
    ph: "read_phase ?c [Async_read n H_ReadHeader] (consumed l) (map msg (delivered l)) ?v"
    and rest: "filter (read_token (owner ?c)) (xs @ ys) = []" by simp_all
  from ph obtain g fs where facts: "n = 8" "consumed l = g @ fs" "?v = validations_due ?c"
    "greeted ?c g" "at_boundary ?tmp fs (map msg (delivered l))" by (auto elim: in_header_phase)
  from facts n have len: "length ?bs = 8" by simp
  then have bs: "?bs = header_bytes ?h" by simp
  show ?thesis
  proof (cases "unat (hdr_size ?h) = 0")
    case True
    let ?m = "?tmp\<lparr>header := ?h\<rparr>" and ?c' = "?c\<lparr>tmp_input_msg := ?tmp\<lparr>header := ?h\<rparr>\<rparr>"
    have "read_phase ?c' [Async_read 8 H_ReadHeader] (g @ (fs @ ?bs)) (map msg (delivered l) @ [?m])
        (validations_due ?c')"
      using facts at_boundary_header_only [OF facts(5) True] bs
      by (intro read_phase.in_header) (simp_all add: greeted_def)
    with True f facts rest len inv show ?thesis
      by (auto simp: read_inv_def fire_def handler_defs read_state_def store_header_all Let_def
          validations_due_def)
  next
    case False
    let ?k = "unat (hdr_size ?h)"
    let ?c' = "?c\<lparr>tmp_input_msg := ?tmp\<lparr>header := ?h, payload := resize ?k (payload ?tmp)\<rparr>\<rparr>"
    have "read_phase ?c' [Async_read ?k H_ReadPayload] (g @ fs @ header_bytes ?h) (map msg (delivered l))
        (validations_due ?c')"
      using facts False by (intro read_phase.in_payload) (simp_all add: greeted_def)
    then have "read_phase ?c' [Async_read ?k H_ReadPayload] (g @ fs @ ?bs) (map msg (delivered l)) ?v"
      using bs facts(3) by (simp add: validations_due_def)
    with False f facts rest len inv show ?thesis
      by (auto simp: read_inv_def fire_def handler_defs read_state_def store_header_all Let_def)
  qed
qed

lemma read_inv_payload_ok:
  assumes inv: "read_inv self l" and p: "pending l = xs @ Async_read n H_ReadPayload # ys"
    and n: "n \<le> length (rx l)"
    and f: "fire self (Read_done H_ReadPayload False (take n (rx l))) (read_state (xs @ ys) n True l) = Inr l'"
  shows "read_inv self l'"
proof -
  let ?c = "conn l" and ?bs = "take n (rx l)" and ?v = "validations l"
  from read_inv_token [OF inv p] have
    ph: "read_phase ?c [Async_read n H_ReadPayload] (consumed l) (map msg (delivered l)) ?v"
    and rest: "filter (read_token (owner ?c)) (xs @ ys) = []" by simp_all
  from ph obtain g fs tmp h where facts: "consumed l = g @ fs @ header_bytes h" "?v = validations_due ?c"
    "greeted ?c g" "at_boundary tmp fs (map msg (delivered l))"
    "tmp_input_msg ?c = tmp\<lparr>header := h, payload := resize n (payload tmp)\<rparr>"
    "n = unat (hdr_size h)" "0 < n" by (auto elim: in_payload_phase)
  let ?m = "tmp\<lparr>header := h, payload := filled (payload tmp) n ?bs\<rparr>"
  let ?c' = "?c\<lparr>tmp_input_msg := ?m\<rparr>"
  have st: "store_payload ?bs ?c = ?c'"
    using facts(5) by (simp add: store_payload_def filled_def Let_def)
  have "read_phase ?c' [Async_read 8 H_ReadHeader] (g @ (fs @ header_bytes h @ ?bs))
      (map msg (delivered l) @ [?m]) (validations_due ?c')"
    using facts n at_boundary_payload [OF facts(4,6,7), of ?bs ?m]
    by (intro read_phase.in_header) (simp_all add: greeted_def)
  with f facts rest inv st show ?thesis
    by (auto simp: read_inv_def fire_def handler_defs read_state_def Let_def
        validations_due_def)
qed

theorem read_inv_step:
  assumes "link_step self l l'" "read_inv self l"
  shows "read_inv self l'"
  using assms(1)
proof cases
  case (read_ok xs n h ys)
  with assms(2) show ?thesis
    by (cases h) (auto intro: read_inv_check_ok read_inv_request_ok read_inv_header_ok read_inv_payload_ok)
next
  case (write_ok xs bs h ys t)
  with assms(2) show ?thesis
    by (cases "h = H_SendValidationData") (auto intro: read_inv_message_write read_inv_greeting)
next
  case (write_failed xs bs h ys k t)
  with assms(2) show ?thesis
    by (cases "h = H_SendValidationData") (auto intro: read_inv_message_write read_inv_greeting)
next
  case (task xs t ys)
  then have "read_view l' = read_view l"
    using read_view_task read_view_states(2) [of l "Post t" xs ys t] by simp
  then show ?thesis using assms(2) by (rule read_inv_view)
next
  case (connect xs ys ec)
  with assms(2) show ?thesis by (blast intro: read_inv_connected)
next
  case (read_failed xs n h ys k)
  with assms(2) show ?thesis by (blast intro: read_inv_read_failed)
qed (use assms(2) in \<open>auto intro: read_inv_view simp: read_view_states\<close>)

end
