(* ===== verification/Handshake.thy ===== *)
theory Handshake
  imports Connection
begin

text \<open>
  The puzzle of the connection handshake, \<open>encrypt_handshake_data\<close>, and the exchange built
  on it: the server sends the reading of its clock, the client returns the puzzle's value,
  the server compares it with the value it computed itself.
\<close>

section \<open>The puzzle as a function on bits\<close>

definition puzzle_mask :: u64 where
  "puzzle_mask = 0xF0F0F0F0F0F0F0"

text \<open>The bits that \<open>puzzle_mask\<close> selects, and the two positions each of them is moved to.\<close>

lemma encrypt_unfold:
  "encrypt_handshake_data x =
     (let y = (x XOR 0xDEADBEEDC0DECAFE) AND puzzle_mask
      in (drop_bit 4 y OR push_bit 4 y) XOR 0xC0DEFACE12345678)"
  by (simp add: encrypt_handshake_data_def puzzle_mask_def Let_def)

lemma xor_and_mask: "(a XOR b) AND m = (a AND m) XOR (b AND m)" for a b m :: u64
  by (rule bit_word_eqI) (auto simp: bit_simps)

lemma encrypt_cong:
  assumes "x AND puzzle_mask = y AND puzzle_mask"
  shows "encrypt_handshake_data x = encrypt_handshake_data y"
  by (simp add: encrypt_unfold xor_and_mask assms)

text \<open>Every second nibble of the puzzle's value does not depend on its argument.\<close>

lemma shifted_mask:
  "(drop_bit 4 (y AND puzzle_mask) OR push_bit 4 (y AND puzzle_mask)) AND 0xF0F0F0F0F0F0F0F0 = 0"
proof -
  have "drop_bit 4 (y AND puzzle_mask) = drop_bit 4 y AND 0x0F0F0F0F0F0F0F"
    by (simp add: drop_bit_and puzzle_mask_def)
  moreover have "push_bit 4 (y AND puzzle_mask) = push_bit 4 y AND 0x0F0F0F0F0F0F0F00"
    by (simp add: push_bit_and puzzle_mask_def)
  ultimately show ?thesis by (simp add: and.assoc bit.conj_disj_distrib2)
qed

lemma encrypt_fixed:
  "encrypt_handshake_data x AND 0xF0F0F0F0F0F0F0F0 = 0xC0D0F0C010305070"
  unfolding encrypt_unfold Let_def xor_and_mask [of _ "0xC0DEFACE12345678"] shifted_mask by simp

lemma puzzle_mask_flip: "(x XOR (k AND NOT puzzle_mask)) AND puzzle_mask = x AND puzzle_mask"
  by (rule bit_word_eqI) (auto simp: bit_simps)

section \<open>Properties\<close>

text \<open>
  The handshake puzzle ignores 36 of the 64 bits of its argument, those outside
  \<open>0xF0F0F0F0F0F0F0\<close>: flipping any of them leaves the value as it is. And 32 bits of the
  value, every second nibble, are the same for every argument. (Both of the code's masks
  select the same nibbles, so the two shifted halves land on the same places.)
\<close>

theorem puzzle_shape:
  "encrypt_handshake_data (x XOR (k AND NOT puzzle_mask)) = encrypt_handshake_data x \<and>
   encrypt_handshake_data x AND 0xF0F0F0F0F0F0F0F0 = 0xC0D0F0C010305070"
  using encrypt_cong [OF puzzle_mask_flip] encrypt_fixed by blast

end
