(* ===== verification/Connection_Sched.thy ===== *)
theory Connection_Sched
  imports Connection_Read
begin

text \<open>
  An executable scheduler for a connection: a list of actions, each of them one step of
  \<open>link_step\<close>. It gives concrete runs, for scenarios and for the theorems that state that
  a situation can come about.
\<close>

datatype action =
    Arrive "byte list"
  | Call_SendData message
  | Call_Disconnect
  | Complete nat
  | Fail nat

text \<open>\<open>Complete i\<close> completes the \<open>i\<close>-th pending operation, \<open>Fail i\<close> makes it fail at once.\<close>

definition without :: "nat \<Rightarrow> 'a list \<Rightarrow> 'a list" where
  "without i xs = take i xs @ drop (Suc i) xs"

fun to_option :: "'a res \<Rightarrow> 'a option" where
  "to_option (Inr x) = Some x"
| "to_option (Inl e) = None"

fun complete :: "conn_ref \<Rightarrow> io_call \<Rightarrow> io_call list \<Rightarrow> link \<Rightarrow> link option" where
  "complete self Async_connect ops l = to_option (fire self (Connected False) (l\<lparr>pending := ops\<rparr>))"
| "complete self (Async_read n h) ops l =
     (if n \<le> length (rx l) \<and> socket_open (conn l) \<and> Async_connect \<notin> set ops
      then to_option (fire self (Read_done h False (take n (rx l))) (read_state ops n True l)) else None)"
| "complete self (Async_write bs h) ops l =
     (if socket_open (conn l) \<and> Async_connect \<notin> set ops
      then to_option (fire self (Write_done h False) (write_state ops (tx l @ bs) l)) else None)"
| "complete self (Post t) ops l = to_option (fire self (Run t) (task_state ops t l))"

fun fail :: "conn_ref \<Rightarrow> io_call \<Rightarrow> io_call list \<Rightarrow> link \<Rightarrow> link option" where
  "fail self Async_connect ops l = to_option (fire self (Connected True) (l\<lparr>pending := ops\<rparr>))"
| "fail self (Async_read n h) ops l =
     to_option (fire self (Read_done h True []) (read_state ops 0 False l))"
| "fail self (Async_write bs h) ops l =
     to_option (fire self (Write_done h True) (write_state ops (tx l) l))"
| "fail self (Post t) ops l = None"

fun do_action :: "conn_ref \<Rightarrow> action \<Rightarrow> link \<Rightarrow> link option" where
  "do_action self (Arrive bs) l = Some (l\<lparr>rx := rx l @ bs\<rparr>)"
| "do_action self (Call_SendData m) l = Some (apply_effects (snd (SendData m (conn l))) l)"
| "do_action self Call_Disconnect l = Some (apply_effects (snd (Disconnect (conn l))) l)"
| "do_action self (Complete i) l =
     (if i < length (pending l) then complete self (pending l ! i) (without i (pending l)) l else None)"
| "do_action self (Fail i) l =
     (if i < length (pending l) then fail self (pending l ! i) (without i (pending l)) l else None)"

primrec run_actions :: "conn_ref \<Rightarrow> action list \<Rightarrow> link \<Rightarrow> link option" where
  "run_actions self [] l = Some l"
| "run_actions self (a # as) l = Option.bind (do_action self a l) (run_actions self as)"

lemma to_option_Some_iff [simp]: "to_option r = Some x \<longleftrightarrow> r = Inr x"
  by (cases r) auto

lemma without_split: "i < length xs \<Longrightarrow> xs = take i xs @ xs ! i # drop (Suc i) xs"
  by (rule id_take_nth_drop)

lemma complete_step:
  assumes "pending l = xs @ op # ys" "complete self op (xs @ ys) l = Some l'"
  shows "link_step self l l'"
proof (cases op)
  case Async_connect
  with assms show ?thesis by (auto intro: link_step.connect)
next
  case (Async_read n h)
  with assms show ?thesis by (auto intro!: link_step.read_ok [of l xs n h ys] split: if_splits)
next
  case (Async_write bs h)
  with assms show ?thesis
    by (auto intro!: link_step.write_ok [of l xs bs h ys "tx l @ bs"] split: if_splits)
next
  case (Post t)
  with assms show ?thesis by (auto intro: link_step.task)
qed

lemma fail_step:
  assumes "pending l = xs @ op # ys" "fail self op (xs @ ys) l = Some l'"
  shows "link_step self l l'"
proof (cases op)
  case Async_connect
  with assms show ?thesis by (auto intro: link_step.connect)
next
  case (Async_read n h)
  with assms show ?thesis by (auto intro!: link_step.read_failed [of l xs n h ys 0])
next
  case (Async_write bs h)
  with assms show ?thesis by (auto intro!: link_step.write_failed [of l xs bs h ys 0 "tx l"])
qed (use assms in simp)

lemma do_action_step: "do_action self a l = Some l' \<Longrightarrow> link_step self l l'"
proof (cases a)
  case (Complete i)
  moreover assume "do_action self a l = Some l'"
  ultimately show ?thesis
    using complete_step [OF without_split] by (auto simp: without_def split: if_splits)
next
  case (Fail i)
  moreover assume "do_action self a l = Some l'"
  ultimately show ?thesis
    using fail_step [OF without_split] by (auto simp: without_def split: if_splits)
qed (auto intro: link_step.intros)

lemma link_reach_trans: "link_reach self l1 l2 \<Longrightarrow> link_reach self l0 l1 \<Longrightarrow> link_reach self l0 l2"
  by (induction rule: link_reach.induct) (auto intro: link_reach.step)

lemma run_actions_reach:
  assumes "run_actions self as l = Some l'" shows "link_reach self l l'"
  using assms
proof (induction as arbitrary: l)
  case Nil
  then show ?case by (auto intro: link_reach.init)
next
  case (Cons a as)
  then obtain l1 where "do_action self a l = Some l1" "run_actions self as l1 = Some l'"
    by (auto simp: bind_eq_Some_conv)
  then show ?case
    using Cons.IH do_action_step link_reach_trans link_reach.step [OF link_reach.init] by blast
qed

text \<open>A run whose result is in a set that can be decided by computation.\<close>

lemma run_actions_find:
  "(case run_actions self as l of None \<Rightarrow> False | Some l' \<Rightarrow> P l') \<Longrightarrow>
     \<exists>l'. link_reach self l l' \<and> P l'"
  by (auto split: option.splits intro: run_actions_reach)

lemmas run_defs =
  server_link_def client_link_def fresh_link_def new_connection_def Let_def without_def
  fire_def handler_defs store_defs link_state_defs isEmpty_def

end
