(* ===== verification/Connection_Safety.thy ===== *)
theory Connection_Safety
  imports Connection_Sched Handshake
begin

text \<open>
  What holds in every state a connection can reach from its construction, by either owner:
  the outgoing stream is well formed, the incoming messages are the frames of the incoming
  stream, no handler of a pending operation fails, a server accepts nothing before the
  right answer to its puzzle. And what can go wrong: a second write can be started while
  the handshake data is still being sent, and a client's message can overtake its answer.
\<close>

section \<open>Reachable states\<close>

text \<open>The states of a connection that a server or a client has set up.\<close>

inductive reached :: "conn_ref \<Rightarrow> link \<Rightarrow> bool" for self :: conn_ref where
  by_server: "link_reach self (server_link u_id clock hs_in ms) l \<Longrightarrow> reached self l"
| by_client: "link_reach self (client_link clock hs_in) l \<Longrightarrow> reached self l"

lemma filter_posts [simp]:
  "filter is_write (map (\<lambda>m. Post (Do_SendData m)) ms) = []"
  "filter is_msg_write (map (\<lambda>m. Post (Do_SendData m)) ms) = []"
  "filter (read_token r) (map (\<lambda>m. Post (Do_SendData m)) ms) = []"
  "list_ex is_write (map (\<lambda>m. Post (Do_SendData m)) ms) = False"
  by (induction ms) auto

lemma greeting_start: "write_phase [Async_write g H_SendValidationData] [] [Hs g] []"
  using write_phase.greeting [of g "[]"] by simp

lemma idle_start: "write_phase [] [] [] []"
  using write_phase.idle [of "[]"] by simp

lemma write_inv_server: "write_inv (server_link u_id clock hs_in ms)"
  by (simp add: run_defs write_inv_def write_view_def write_ok_view.simps greeting_start empty_queue_def)

lemma write_inv_client: "write_inv (client_link clock hs_in)"
  by (simp add: run_defs write_inv_def write_view_def write_ok_view.simps idle_start empty_queue_def)

lemma read_inv_server: "read_inv self (server_link u_id clock hs_in ms)"
  by (auto simp: run_defs read_inv_def intro!: read_phase.await_answer)

lemma read_inv_client: "read_inv self (client_link clock hs_in)"
  by (auto simp: run_defs read_inv_def intro!: read_phase.connecting)

lemma reached_write_inv: "reached self l \<Longrightarrow> write_inv l"
  by (induction rule: reached.induct)
    (auto elim!: link_reach_invariant [where P = write_inv] intro: write_inv_server write_inv_client write_inv_step)

lemma reached_read_inv: "reached self l \<Longrightarrow> read_inv self l"
  by (induction rule: reached.induct)
    (auto elim!: link_reach_invariant [where P = "read_inv self"] intro: read_inv_server read_inv_client read_inv_step)

text \<open>What no handler changes.\<close>

definition fixed_part :: "link \<Rightarrow> Owner \<times> u64" where
  "fixed_part l = (owner (conn l), handshake_check (conn l))"

lemma conn_apply_effects [simp]: "conn (apply_effects es l) = conn l"
proof (induction es arbitrary: l)
  case (Cons e es)
  then show ?case by (cases e) simp_all
qed simp

lemma handle_fixed:
  "handle self ev c = Inr (c', es) \<Longrightarrow> owner c' = owner c \<and> handshake_check c' = handshake_check c"
  by (cases "(self, ev, c)" rule: handle.cases)
    (auto simp: handler_defs store_defs Let_def bind_res_Inr_iff split: if_splits)

lemma fire_fixed: "fire self ev l = Inr l' \<Longrightarrow> fixed_part l' = fixed_part l"
  by (auto simp: fire_def bind_res_Inr_iff fixed_part_def dest: handle_fixed)

lemma step_fixed: "link_step self l l' \<Longrightarrow> fixed_part l' = fixed_part l"
  by (induction rule: link_step.induct)
    (auto dest!: fire_fixed simp: link_state_defs, auto simp: fixed_part_def)

lemma reach_fixed: "link_reach self l0 l \<Longrightarrow> fixed_part l = fixed_part l0"
  by (induction rule: link_reach.induct) (auto dest: step_fixed)

lemma server_fixed: "fixed_part (server_link u_id clock hs_in ms) = (Owner_server, encrypt_handshake_data clock)"
  by (simp add: run_defs fixed_part_def)

lemma client_fixed: "fixed_part (client_link clock hs_in) = (Owner_client, 0)"
  by (simp add: run_defs fixed_part_def)

section \<open>Handlers do not fail\<close>

text \<open>The results that an operation can complete with.\<close>

fun completes :: "io_call \<Rightarrow> completion \<Rightarrow> bool" where
  "completes Async_connect (Connected ec) = True"
| "completes (Async_read n h) (Read_done h' ec bs) =
     (h' = h \<and> length bs \<le> n \<and> (\<not> ec \<longrightarrow> length bs = n))"
| "completes (Async_write bs h) (Write_done h' ec) = (h' = h)"
| "completes (Post t) (Run t') = (t' = t)"
| "completes _ _ = False"

lemma message_write_queue:
  assumes "write_inv l" "op \<in> set (pending l)" "is_msg_write op"
  shows "data_queue (out_msg_queue (conn l)) \<noteq> []"
proof -
  from assms(2) obtain xs ys where "pending l = xs @ op # ys" by (blast dest: split_list)
  then show ?thesis
    using assms view_msg_write [of "filter is_write xs" op "filter is_write ys"] is_msg_write_is_write
    by (auto simp: write_inv_def write_view_def)
qed

lemma msg_write_handled:
  assumes "data_queue (out_msg_queue c) \<noteq> []" "is_msg_write (Async_write bs h)"
  shows "\<exists>r. handle self (Write_done h ec) c = Inr r"
proof -
  from assms(1) obtain m q where "data_queue (out_msg_queue c) = m # q" by (cases "data_queue (out_msg_queue c)") auto
  then show ?thesis
    using assms(2) by (cases h; cases q) (auto simp: handler_defs isEmpty_def front_elem_def)
qed

lemma other_handled:
  "(\<And>h ec. ev = Write_done h ec \<Longrightarrow> h = H_SendValidationData) \<Longrightarrow> \<exists>r. handle self ev c = Inr r"
  by (cases "(self, ev, c)" rule: handle.cases)
    (auto simp: on_SendData_def WriteHeader_def isEmpty_def front_elem_def pushBack_def Let_def split: list.splits)

text \<open>
  C1: in every state a connection can reach, whatever the network does and whatever other
  threads send, the handler of each pending operation runs without an error on each result
  the operation can have. In particular \<open>WriteHeader\<close>, \<open>writePayload\<close> and their handlers
  never take the front of an empty queue, even when writes overlap.
\<close>

theorem handlers_never_fail:
  assumes "reached self l" "op \<in> set (pending l)" "completes op ev"
  shows "\<exists>c es. handle self ev (conn l) = Inr (c, es)"
proof -
  have "\<exists>r. handle self ev (conn l) = Inr r"
  proof (cases "is_msg_write op")
    case True
    then obtain bs h where "op = Async_write bs h" by (cases op) auto
    with assms True show ?thesis
      using msg_write_handled message_write_queue reached_write_inv by (cases ev) auto
  next
    case False
    show ?thesis
    proof (rule other_handled)
      fix h ec assume "ev = Write_done h ec"
      with assms(3) False show "h = H_SendValidationData" by (cases op; cases h) auto
    qed
  qed
  then show ?thesis by auto
qed

lemma server_start: "reached self (server_link u_id clock hs_in ms)"
  by (rule by_server) (rule link_reach.init)

theorem handlers_never_fail_witness:
  "\<exists>c es. handle 0 (Read_done H_ReadAndCheckValidation False [1, 2, 3, 4, 5, 6, 7, 8])
     (conn (server_link 10000 42 0 [])) = Inr (c, es)"
  by (rule handlers_never_fail [OF server_start, of "Async_read 8 H_ReadAndCheckValidation"])
    (simp_all add: run_defs)

section \<open>The outgoing stream\<close>

lemma link_framing:
  assumes "reached self l" "\<not> overlapped l"
  shows "take (length (tx l)) (stream_of (items l)) = tx l \<and>
     (socket_open (conn l) \<and> filter is_write (pending l) = [] \<longrightarrow>
        tx l = stream_of (items l) \<and> isEmpty (out_msg_queue (conn l)))"
proof -
  have v: "write_ok_view (write_view l)"
    using reached_write_inv [OF assms(1)] by (simp add: write_inv_def)
  have "\<exists>rest. stream_of (items l) = tx l @ rest"
    using v assms(2) by (auto simp: write_view_def write_ok_view.simps split: if_splits dest: write_phase_prefix)
  then obtain rest where "stream_of (items l) = tx l @ rest" ..
  moreover have "tx l = stream_of (items l) \<and> isEmpty (out_msg_queue (conn l))"
    if "socket_open (conn l)" "filter is_write (pending l) = []"
  proof -
    have "write_phase [] (data_queue (out_msg_queue (conn l))) (items l) (tx l)"
      using v that assms(2) by (simp add: write_view_def write_ok_view.simps)
    then show ?thesis by (auto elim: idle_phase simp: isEmpty_def)
  qed
  ultimately show ?thesis by simp
qed

text \<open>
  C2: as long as no two writes have overlapped, the bytes a connection has put on the stream
  are a prefix of the handshake data and messages it accepted for sending, each message as
  its header followed by its payload buffer, in the order of acceptance. When the socket
  is open and no write is pending, they are all of it, and the queue is empty.
\<close>

theorem stream_framing:
  assumes "reached self l" "\<not> overlapped l"
  shows "take (length (tx l)) (stream_of (items l)) = tx l \<and>
     (socket_open (conn l) \<and> filter is_write (pending l) = [] \<longrightarrow>
        tx l = stream_of (items l) \<and> isEmpty (out_msg_queue (conn l)))"
  using assms by (rule link_framing)

theorem stream_framing_witness:
  "take (length (tx (server_link 10000 42 0 []))) (stream_of (items (server_link 10000 42 0 []))) =
     tx (server_link 10000 42 0 [])"
  using stream_framing [OF server_start [of 0 10000 42 0 "[]"]] by (simp add: run_defs)

text \<open>Draining: every pending write can complete, and the loop goes on until nothing is left.\<close>

definition write_ready :: "link \<Rightarrow> bool" where
  "write_ready l \<longleftrightarrow> write_inv l \<and> \<not> overlapped l \<and> socket_open (conn l) \<and> Async_connect \<notin> set (pending l)"

definition writes_left :: "link \<Rightarrow> nat" where
  "writes_left l =
     (case filter is_write (pending l) of
        [] \<Rightarrow> 0
      | Async_write bs H_writePayload # _ \<Rightarrow> 2 * length (data_queue (out_msg_queue (conn l))) - 1
      | Async_write bs H_WriteHeader # _ \<Rightarrow> 2 * length (data_queue (out_msg_queue (conn l)))
      | _ \<Rightarrow> 1)"

lemma filter_read_header [simp]: "filter is_write [Async_read n h] = []"
  by simp

text \<open>
  The state of the other side; writing leaves it alone, once the handshake data has been
  written (after that, a client starts to read).
\<close>

definition greeting_done :: "link \<Rightarrow> bool" where
  "greeting_done l \<longleftrightarrow> (\<forall>bs. Async_write bs H_SendValidationData \<notin> set (pending l))"

definition reading_part :: "link \<Rightarrow> byte list \<times> byte list \<times> owned_message list \<times> io_call list" where
  "reading_part l = (consumed l, rx l, delivered l, filter (\<lambda>op. \<not> is_write op) (pending l))"

lemma drain_step:
  assumes r: "write_ready l" and p: "pending l = xs @ Async_write bs h # ys"
  shows "\<exists>l'. link_step self l l' \<and> write_ready l' \<and> items l' = items l \<and> writes_left l' < writes_left l \<and>
    consumed l' = consumed l \<and> tx l' = tx l @ bs \<and>
    (greeting_done l \<longrightarrow> greeting_done l' \<and> reading_part l' = reading_part l)"
proof -
  let ?ops = "xs @ ys" and ?q = "data_queue (out_msg_queue (conn l))"
  let ?l = "write_state ?ops (tx l @ bs) l"
  have v: "write_ok_view (filter is_write xs @ Async_write bs h # filter is_write ys, ?q, items l, tx l, True, False)"
    using r p by (auto simp: write_ready_def write_inv_def write_view_def)
  note alone = view_phase_alone [OF v]
  have none: "filter is_write ?ops = []" using alone by simp
  have left: "writes_left l = (case h of H_SendValidationData \<Rightarrow> 1 | H_writePayload \<Rightarrow> 2 * length ?q - 1
      | H_WriteHeader \<Rightarrow> 2 * length ?q)"
    using p alone by (cases h) (simp_all add: writes_left_def)
  have qne: "?q \<noteq> []" if "h \<noteq> H_SendValidationData"
    using view_msg_write(1) [OF v] that by (cases h) auto
  have "\<exists>l'. fire self (Write_done h False) ?l = Inr l' \<and> items l' = items l \<and> \<not> overlapped l' \<and>
      socket_open (conn l') \<and> Async_connect \<notin> set (pending l') \<and> writes_left l' < writes_left l \<and>
      consumed l' = consumed l \<and> tx l' = tx l @ bs \<and>
      (greeting_done l \<longrightarrow> greeting_done l' \<and> reading_part l' = reading_part l)"
  proof (cases h)
    case H_SendValidationData
    then show ?thesis using r p none left alone
      by (auto simp: fire_def handler_defs write_state_def write_ready_def reading_part_def greeting_done_def writes_left_def)
  next
    case H_WriteHeader
    with qne obtain m q where q: "?q = m # q" by (cases ?q) auto
    show ?thesis using r p none left H_WriteHeader q alone
      by (cases "payload m"; cases q)
        (auto simp: fire_def handler_defs write_state_def write_ready_def reading_part_def greeting_done_def writes_left_def isEmpty_def
          front_elem_def list_ex_is_write Let_def)
  next
    case H_writePayload
    with qne obtain m q where q: "?q = m # q" by (cases ?q) auto
    show ?thesis using r p none left H_writePayload q alone
      by (cases q)
        (auto simp: fire_def handler_defs write_state_def write_ready_def reading_part_def greeting_done_def writes_left_def isEmpty_def
          front_elem_def list_ex_is_write Let_def)
  qed
  then obtain l' where l': "fire self (Write_done h False) ?l = Inr l'" "items l' = items l"
    "\<not> overlapped l'" "socket_open (conn l')" "Async_connect \<notin> set (pending l')"
    "writes_left l' < writes_left l" "consumed l' = consumed l" "tx l' = tx l @ bs"
    "greeting_done l \<longrightarrow> greeting_done l' \<and> reading_part l' = reading_part l" by blast
  moreover have st: "link_step self l l'"
    using r p l'(1) by (intro link_step.write_ok) (auto simp: write_ready_def)
  moreover have "write_inv l'"
    using write_inv_step [OF st] r by (simp add: write_ready_def)
  ultimately show ?thesis by (auto simp: write_ready_def)
qed

lemma no_write_pending:
  assumes "write_ready l" "filter is_write (pending l) = []"
  shows "tx l = stream_of (items l) \<and> isEmpty (out_msg_queue (conn l))"
proof -
  have "write_phase [] (data_queue (out_msg_queue (conn l))) (items l) (tx l)"
    using assms by (auto simp: write_ready_def write_inv_def write_view_def write_ok_view.simps)
  then show ?thesis by (auto elim: idle_phase simp: isEmpty_def)
qed

lemma drain_all:
  "write_ready l \<Longrightarrow> \<exists>l'. link_reach self l l' \<and> items l' = items l \<and>
     tx l' = stream_of (items l) \<and> isEmpty (out_msg_queue (conn l'))"
proof (induction "writes_left l" arbitrary: l rule: less_induct)
  case less
  show ?case
  proof (cases "filter is_write (pending l) = []")
    case True
    with no_write_pending [OF less.prems] show ?thesis by (auto intro: link_reach.init)
  next
    case False
    then obtain op where op: "op \<in> set (pending l)" "is_write op" by (auto simp: filter_empty_conv)
    from op(2) obtain bs h where "op = Async_write bs h" by (cases op) auto
    with op obtain xs ys where "pending l = xs @ Async_write bs h # ys" by (blast dest: split_list)
    from drain_step [OF less.prems this, of self] obtain l1 where l1:
      "link_step self l l1" "write_ready l1" "items l1 = items l" "writes_left l1 < writes_left l" by blast
    from less.hyps [OF l1(4,2)] obtain l' where l': "link_reach self l1 l'" "items l' = items l1"
      "tx l' = stream_of (items l1)" "isEmpty (out_msg_queue (conn l'))" by blast
    have "link_reach self l l'"
      using l'(1) link_reach.step [OF link_reach.init l1(1)] by (rule link_reach_trans)
    with l1(3) l' show ?thesis by auto
  qed
qed

text \<open>
  The write loop finishes. From every reachable state in which the socket is open and
  connected and no two writes have overlapped, the connection can go on, without accepting
  anything new, to a state in which everything it had accepted is on the stream and its
  queue is empty; no accepted message is stuck in the queue.
\<close>

theorem write_loop_drains:
  assumes "reached self l" "\<not> overlapped l" "socket_open (conn l)" "Async_connect \<notin> set (pending l)"
  shows "\<exists>l'. link_reach self l l' \<and> items l' = items l \<and> tx l' = stream_of (items l) \<and>
     isEmpty (out_msg_queue (conn l'))"
  using assms reached_write_inv by (intro drain_all) (auto simp: write_ready_def)

theorem write_loop_drains_witness:
  "\<exists>l'. link_reach 0 (server_link 10000 42 0 []) l' \<and> tx l' = le_bytes 8 (42 :: u64)"
  using write_loop_drains [OF server_start [of 0 10000 42 0 "[]"]] by (auto simp: run_defs)

section \<open>The incoming stream\<close>

lemma link_frames:
  assumes "reached self l"
  shows "map msg (delivered l) = recv_frames empty_message (drop 8 (consumed l)) \<and>
     map remote (delivered l) =
       replicate (length (delivered l)) (if owner (conn l) = Owner_server then Some self else None)"
proof -
  from reached_read_inv [OF assms] have
    ph: "read_phase (conn l) (filter (read_token (owner (conn l))) (pending l)) (consumed l)
       (map msg (delivered l)) (validations l)"
    and rem: "\<forall>om \<in> set (delivered l). remote om = (if owner (conn l) = Owner_server then Some self else None)"
    by (simp_all add: read_inv_def)
  have "map remote xs = replicate (length xs) r" if "\<forall>om \<in> set xs. remote om = r" for xs :: "owned_message list" and r
    using that by (induction xs) auto
  note this [OF rem]
  with read_phase_facts(1) [OF ph] show ?thesis by simp
qed

text \<open>
  C3: whatever bytes arrive, the messages a connection hands to its owner are exactly the
  frames of the bytes it has taken off the stream, after the first eight (the handshake),
  in their order; a server's connection marks each with itself, a client's with none.
\<close>

theorem delivered_frames:
  assumes "reached self l"
  shows "map msg (delivered l) = recv_frames empty_message (drop 8 (consumed l)) \<and>
     map remote (delivered l) =
       replicate (length (delivered l)) (if owner (conn l) = Owner_server then Some self else None)"
  using assms by (rule link_frames)

text \<open>The server's answer to compare with; only the bytes after it are messages.\<close>

lemma client_start: "reached self (client_link clock hs_in)"
  by (rule by_client) (rule link_reach.init)

lemma greeted_server:
  assumes "link_reach self (server_link u_id clock hs_in ms) l" "greeted (conn l) g"
  shows "g = le_bytes 8 (encrypt_handshake_data clock)"
proof -
  have "fixed_part l = (Owner_server, encrypt_handshake_data clock)"
    using reach_fixed [OF assms(1)] server_fixed by simp
  with assms(2) show ?thesis by (simp add: fixed_part_def greeted_def)
qed

theorem delivered_frames_witness:
  "map msg (delivered (client_link 42 0)) = recv_frames empty_message []"
  using delivered_frames [OF client_start [of 0 42 0]] by (simp add: run_defs)

text \<open>
  C11: a server's connection neither reports its client as validated nor hands a message
  to its owner, unless the first eight bytes that arrived are the puzzle's value for the
  clock reading it sent; and it reports the validation at most once.
\<close>

theorem server_validation:
  assumes "link_reach self (server_link u_id clock hs_in ms) l"
    and "validations l \<noteq> 0 \<or> delivered l \<noteq> []"
  shows "take 8 (consumed l) = le_bytes 8 (encrypt_handshake_data clock) \<and> validations l \<le> 1"
proof -
  have "read_inv self l" by (rule reached_read_inv) (rule by_server [OF assms(1)])
  then have ph: "read_phase (conn l) (filter (read_token (owner (conn l))) (pending l)) (consumed l)
       (map msg (delivered l)) (validations l)" by (simp add: read_inv_def)
  have "greeted (conn l) (take 8 (consumed l))" using read_phase_facts(2) [OF ph] assms(2) by auto
  moreover have "validations_due (conn l) \<le> 1" by (simp add: validations_due_def)
  ultimately show ?thesis
    using greeted_server [OF assms(1)] read_phase_facts(3) [OF ph] by (auto intro: le_trans)
qed

text \<open>A client that answers the puzzle, step by step from the two initial states.\<close>

definition answer_run :: "u64 \<Rightarrow> action list" where
  "answer_run clock = [Arrive (le_bytes 8 (encrypt_handshake_data clock)), Complete 0, Complete 0]"

lemma answer_accepted:
  "case run_actions self (answer_run clock) (server_link u_id clock hs_in []) of
     None \<Rightarrow> False
   | Some l \<Rightarrow> validations l = 1 \<and> consumed l = le_bytes 8 (encrypt_handshake_data clock) \<and>
       tx l = le_bytes 8 clock \<and> pending l = [Async_read 8 H_ReadHeader] \<and> socket_open (conn l)"
  by (simp add: answer_run_def run_defs store_handshake_all)

theorem server_validation_witness:
  "\<exists>l. link_reach 0 (server_link 10000 42 0 []) l \<and> validations l = 1 \<and>
     take 8 (consumed l) = le_bytes 8 (encrypt_handshake_data (42 :: u64))"
proof -
  from run_actions_find [OF answer_accepted [where self = 0 and clock = 42 and u_id = 10000 and hs_in = 0]] obtain l where
    l: "link_reach 0 (server_link 10000 42 0 []) l" "validations l = 1" by blast
  from server_validation [OF l(1)] l(2) have
    "take 8 (consumed l) = le_bytes 8 (encrypt_handshake_data (42 :: u64))" by simp
  with l show ?thesis by blast
qed

text \<open>
  C26: the honest exchange works. A client that is sent the server's clock reading puts the
  puzzle's value for it on its stream and starts reading messages; a server that receives
  these eight bytes reports the client as validated, once, and starts reading messages.
  Both runs exist for every clock reading and every initial value of \<open>handshake_in_\<close>.
\<close>

theorem handshake_completes:
  "(\<exists>l. link_reach self (client_link c0 hs) l \<and> consumed l = le_bytes 8 clock \<and>
      tx l = le_bytes 8 (encrypt_handshake_data clock) \<and>
      pending l = [Async_read 8 H_ReadHeader] \<and> socket_open (conn l)) \<and>
   (\<exists>l. link_reach self (server_link u_id clock hs' []) l \<and>
      consumed l = le_bytes 8 (encrypt_handshake_data clock) \<and> validations l = 1 \<and>
      tx l = le_bytes 8 clock \<and> pending l = [Async_read 8 H_ReadHeader] \<and> socket_open (conn l))"
proof
  have "case run_actions self [Arrive (le_bytes 8 clock), Complete 0, Complete 0, Complete 0] (client_link c0 hs) of
      None \<Rightarrow> False
    | Some l \<Rightarrow> consumed l = le_bytes 8 clock \<and> tx l = le_bytes 8 (encrypt_handshake_data clock) \<and>
        pending l = [Async_read 8 H_ReadHeader] \<and> socket_open (conn l)"
    by (simp add: run_defs store_handshake_all)
  then show "\<exists>l. link_reach self (client_link c0 hs) l \<and> consumed l = le_bytes 8 clock \<and>
      tx l = le_bytes 8 (encrypt_handshake_data clock) \<and>
      pending l = [Async_read 8 H_ReadHeader] \<and> socket_open (conn l)"
    by (rule run_actions_find)
next
  show "\<exists>l. link_reach self (server_link u_id clock hs' []) l \<and>
      consumed l = le_bytes 8 (encrypt_handshake_data clock) \<and> validations l = 1 \<and>
      tx l = le_bytes 8 clock \<and> pending l = [Async_read 8 H_ReadHeader] \<and> socket_open (conn l)"
    using run_actions_find [OF answer_accepted [where self = self and clock = clock and u_id = u_id and hs_in = hs']]
    by blast
qed

section \<open>Overlapping and overtaking\<close>

text \<open>
  A server that sends a message in \<open>onClientConnect\<close>, as the custom server does, can
  start writing it while its handshake data is still being written: two \<open>async_write\<close>
  operations are pending on one socket, which \<open>boost::asio\<close> forbids (what they put on the
  stream is undefined). The flag in \<open>SendData\<close> looks at the message queue only.
\<close>

theorem handshake_write_overlaps:
  "\<exists>l. link_reach self (server_link u_id clock hs_in (m # ms)) l \<and> overlapped l \<and>
     filter is_write (pending l) =
       [Async_write (le_bytes 8 clock) H_SendValidationData,
        Async_write (header_bytes (header m)) H_WriteHeader]"
proof -
  have "case run_actions self [Complete 0] (server_link u_id clock hs_in (m # ms)) of None \<Rightarrow> False
    | Some l \<Rightarrow> overlapped l \<and> filter is_write (pending l) =
       [Async_write (le_bytes 8 clock) H_SendValidationData,
        Async_write (header_bytes (header m)) H_WriteHeader]"
    by (simp add: run_defs front_elem_def empty_queue_def pushBack_def)
  then show ?thesis by (rule run_actions_find)
qed

text \<open>
  A client's message can overtake its own answer to the handshake. \<open>SendData\<close> does not
  wait for the validation, so the header of a message can be the first eight bytes a
  client sends; the server takes them for the answer, and unless they happen to be the
  puzzle's value it closes the connection without handing anything to its owner.
\<close>

theorem message_overtakes_answer:
  fixes m :: message
  assumes "header_bytes (header m) \<noteq> le_bytes 8 (encrypt_handshake_data clock)"
  shows "(\<exists>l. link_reach self (client_link c0 hs) l \<and> tx l = header_bytes (header m) \<and> consumed l = []) \<and>
    (\<exists>l. link_reach self (server_link u_id clock hs' []) l \<and> consumed l = header_bytes (header m) \<and>
       \<not> socket_open (conn l) \<and> validations l = 0 \<and> delivered l = [])"
proof
  have "case run_actions self [Call_SendData m, Complete 0, Complete 0, Complete 1] (client_link c0 hs) of
      None \<Rightarrow> False | Some l \<Rightarrow> tx l = header_bytes (header m) \<and> consumed l = []"
    by (cases "payload m = []") (simp_all add: run_defs front_elem_def empty_queue_def pushBack_def popFront_def)
  then show "\<exists>l. link_reach self (client_link c0 hs) l \<and> tx l = header_bytes (header m) \<and> consumed l = []"
    by (rule run_actions_find)
next
  have "of_le_bytes (header_bytes (header m)) \<noteq> encrypt_handshake_data clock"
    using assms by (metis le_bytes_of_le_bytes_8 length_header_bytes)
  then have "case run_actions self [Arrive (header_bytes (header m)), Complete 1] (server_link u_id clock hs' []) of
      None \<Rightarrow> False | Some l \<Rightarrow> consumed l = header_bytes (header m) \<and>
       \<not> socket_open (conn l) \<and> validations l = 0 \<and> delivered l = []"
    by (simp add: run_defs store_handshake_all)
  then show "\<exists>l. link_reach self (server_link u_id clock hs' []) l \<and> consumed l = header_bytes (header m) \<and>
       \<not> socket_open (conn l) \<and> validations l = 0 \<and> delivered l = []"
    by (rule run_actions_find)
qed

lemma of_le_bytes_zeros: "of_le_bytes (replicate n 0) = 0"
  by (induction n) simp_all

theorem message_overtakes_answer_witness:
  "\<exists>l. link_reach 0 (client_link 0 0) l \<and> tx l = replicate 8 0 \<and> consumed l = []"
proof -
  have zero: "header_bytes (header empty_message) = replicate 8 0"
    by (simp add: header_bytes_def empty_message_def numeral_eq_Suc)
  have "header_bytes (header empty_message) \<noteq> le_bytes 8 (encrypt_handshake_data 42)"
  proof
    assume "header_bytes (header empty_message) = le_bytes 8 (encrypt_handshake_data 42)"
    then have "(of_le_bytes (replicate 8 0) :: u64) = of_le_bytes (le_bytes 8 (encrypt_handshake_data 42))"
      using zero by simp
    then have "encrypt_handshake_data 42 = 0" unfolding of_le_bytes_zeros by simp
    then show False by (simp add: encrypt_handshake_data_def Let_def)
  qed
  from message_overtakes_answer [OF this, of 0 0 0] zero show ?thesis by auto
qed

end
