(* ===== verification/End_To_End.thy ===== *)
theory End_To_End
  imports Connection_Safety
begin

text \<open>
  Two connections, one of a server and one of a client, joined by the streams of a socket:
  what one of them has put on its stream is what the other one takes off. Which messages
  arrive, in which order, and what is left of their payloads.
\<close>

section \<open>What a server's connection sends\<close>

fun messages_of :: "item list \<Rightarrow> message list" where
  "messages_of [] = []"
| "messages_of (Msg m # its) = m # messages_of its"
| "messages_of (Hs bs # its) = messages_of its"

lemma messages_of_map [simp]: "messages_of (map Msg ms) = ms"
  by (induction ms) auto

lemma items_apply:
  "(\<And>bs. Io (Async_write bs H_SendValidationData) \<notin> set es) \<Longrightarrow> items (apply_effects es l) = items l"
proof (induction es arbitrary: l)
  case (Cons e es)
  then have "items (apply_effects es (apply_effect e l)) = items (apply_effect e l)" by auto
  moreover have "items (apply_effect e l) = items l"
    using Cons.prems [of _] by (cases e) (auto split: io_call.splits write_handler.splits)
  ultimately show ?case by simp
qed simp

lemma handle_no_greeting:
  assumes "handle self ev c = Inr (c', es)"
    and "\<And>ec bs. ev \<noteq> Read_done H_ReadServerValidationRequest ec bs"
  shows "Io (Async_write g H_SendValidationData) \<notin> set es"
  using assms by (cases "(self, ev, c)" rule: handle.cases)
    (auto simp: handler_defs Let_def bind_res_Inr_iff split: if_splits)

lemma fire_items:
  assumes "fire self ev l = Inr l'" "\<And>ec bs. ev \<noteq> Read_done H_ReadServerValidationRequest ec bs"
  shows "items l' = items l"
  using assms handle_no_greeting [of self ev "conn l"]
  by (auto simp: fire_def bind_res_Inr_iff items_apply)

lemma step_items:
  assumes "link_step self l l'" "\<And>n. Async_read n H_ReadServerValidationRequest \<notin> set (pending l)"
  shows "items l' = items l \<or> (\<exists>m. items l' = items l @ [Msg m])"
  using assms
proof (induction rule: link_step.induct)
  case (task l xs t ys l')
  then show ?case by (cases t) (auto dest!: fire_items simp: task_state_def)
qed (auto dest!: fire_items simp: link_state_defs SendData_def Disconnect_def items_apply)

lemma server_reads:
  assumes "link_reach self (server_link u_id clock hs_in ms) l"
  shows "Async_read n H_ReadServerValidationRequest \<notin> set (pending l)"
proof
  assume "Async_read n H_ReadServerValidationRequest \<in> set (pending l)"
  then obtain xs ys where p: "pending l = xs @ Async_read n H_ReadServerValidationRequest # ys"
    by (blast dest: split_list)
  have "read_inv self l" by (rule reached_read_inv) (rule by_server [OF assms])
  from read_inv_token(1) [OF this p] have "owner (conn l) = Owner_client"
    by (auto elim: await_puzzle_phase)
  moreover have "owner (conn l) = Owner_server"
    using reach_fixed [OF assms] server_fixed [of u_id clock hs_in ms] by (simp add: fixed_part_def)
  ultimately show False by simp
qed

lemma server_items:
  "link_reach self (server_link u_id clock hs_in ms) l \<Longrightarrow>
     \<exists>qs. items l = Hs (le_bytes 8 clock) # map Msg qs"
proof (induction rule: link_reach.induct)
  case init
  then show ?case by (simp add: run_defs)
next
  case (step l l')
  then obtain qs where qs: "items l = Hs (le_bytes 8 clock) # map Msg qs" by blast
  from step_items [OF step.hyps(2) server_reads [OF step.hyps(1)]] show ?case
  proof
    assume "items l' = items l"
    then show ?thesis unfolding qs ..
  next
    assume "\<exists>m. items l' = items l @ [Msg m]"
    then obtain m where "items l' = items l @ [Msg m]" ..
    with qs have "items l' = Hs (le_bytes 8 clock) # map Msg (qs @ [m])" by simp
    then show ?thesis by blast
  qed
qed

section \<open>Parsing a part of a stream\<close>

lemma recv_step:
  assumes "8 \<le> length bs" "n = unat (hdr_size (header_of_bytes (take 8 bs)))" "8 + n \<le> length bs"
  shows "recv_frames tmp bs =
     (let m = (if n = 0 then tmp\<lparr>header := header_of_bytes (take 8 bs)\<rparr>
         else tmp\<lparr>header := header_of_bytes (take 8 bs), payload := filled (payload tmp) n (take n (drop 8 bs))\<rparr>)
      in m # recv_frames m (drop (8 + n) bs))"
proof -
  have "\<not> length bs < 8" "\<not> length (drop 8 bs) < n" using assms(1,3) by auto
  then show ?thesis
    unfolding recv_frames.simps [of tmp bs] by (simp add: Let_def add.commute assms(2) [symmetric])
qed

lemma recv_stop:
  assumes "n = unat (hdr_size (header_of_bytes (take 8 bs)))" "length bs < 8 + n"
  shows "recv_frames tmp bs = []"
  using assms by (subst recv_frames.simps) (auto simp: Let_def)

lemma recv_frames_take:
  "\<exists>k. recv_frames tmp (take i bs) = take k (recv_frames tmp bs)"
proof (induction "length bs" arbitrary: tmp bs i rule: less_induct)
  case less
  let ?n = "unat (hdr_size (header_of_bytes (take 8 bs)))"
  consider (short) "length (take i bs) < 8 + ?n" | (full) "8 + ?n \<le> length (take i bs)" by linarith
  then show ?case
  proof cases
    case short
    have "recv_frames tmp (take i bs) = []"
    proof (cases "length (take i bs) < 8")
      case True
      then show ?thesis by (rule recv_short)
    next
      case False
      then have "8 \<le> i" by simp
      then have "take 8 (take i bs) = take 8 bs" by (simp add: min_def)
      with short show ?thesis by (intro recv_stop [of ?n]) simp_all
    qed
    then show ?thesis by (intro exI [of _ 0]) simp
  next
    case full
    then have "8 + ?n \<le> i" and le: "8 + ?n \<le> length bs" by simp_all
    then have tk: "take 8 (take i bs) = take 8 bs"
      and pl: "take ?n (drop 8 (take i bs)) = take ?n (drop 8 bs)"
      by (simp_all add: min_def drop_take)
    define m where "m = (if ?n = 0 then tmp\<lparr>header := header_of_bytes (take 8 bs)\<rparr>
         else tmp\<lparr>header := header_of_bytes (take 8 bs), payload := filled (payload tmp) ?n (take ?n (drop 8 bs))\<rparr>)"
    have 1: "recv_frames tmp bs = m # recv_frames m (drop (8 + ?n) bs)"
      using recv_step [of bs ?n tmp] le by (simp add: m_def Let_def)
    have 2: "recv_frames tmp (take i bs) = m # recv_frames m (take (i - (8 + ?n)) (drop (8 + ?n) bs))"
      using recv_step [of "take i bs" ?n tmp] full tk pl by (simp add: m_def Let_def drop_take)
    from le have "length (drop (8 + ?n) bs) < length bs" by simp
    from less [OF this] obtain k where
      "recv_frames m (take (i - (8 + ?n)) (drop (8 + ?n) bs)) = take k (recv_frames m (drop (8 + ?n) bs))" by blast
    with 1 2 show ?thesis by (intro exI [of _ "Suc k"]) simp
  qed
qed

section \<open>From one end to the other\<close>

text \<open>What a receiver gets out of a part of a sender's stream.\<close>

lemma transfer_general:
  assumes "reached self l" "\<not> overlapped l" "items l = Hs g # map Msg ms" "length g = 8"
    and "list_all sendable ms" and "reached self' l'" "consumed l' = take n (tx l)"
  shows "(\<exists>k. map msg (delivered l') = take k (received_all empty_message ms)) \<and>
    (socket_open (conn l) \<and> filter is_write (pending l) = [] \<and> length (tx l) \<le> n \<longrightarrow>
       map msg (delivered l') = received_all empty_message ms)"
proof -
  let ?s = "concat (map wire_bytes ms)"
  have "stream_of (map Msg ms) = ?s" by (induction ms) auto
  then have st: "stream_of (items l) = g @ ?s" using assms(3) by simp
  have framing: "take (length (tx l)) (g @ ?s) = tx l"
    "socket_open (conn l) \<and> filter is_write (pending l) = [] \<longrightarrow> tx l = g @ ?s"
    using link_framing [OF assms(1,2)] st by simp_all
  have all: "recv_frames empty_message ?s = received_all empty_message ms"
    using recv_wire_all [OF assms(5)] .
  have d: "map msg (delivered l') = recv_frames empty_message (drop 8 (take n (tx l)))"
    using link_frames [OF assms(6)] assms(7) by simp
  have "drop 8 (take n (tx l)) = take (n - 8) (take (length (tx l) - 8) ?s)"
    by (subst framing(1) [symmetric]) (simp add: assms(4) drop_take min_def)
  then have "drop 8 (take n (tx l)) = take (min (n - 8) (length (tx l) - 8)) ?s" by simp
  with d all recv_frames_take [of empty_message _ ?s] have
    "\<exists>k. map msg (delivered l') = take k (received_all empty_message ms)" by metis
  moreover have "map msg (delivered l') = received_all empty_message ms"
    if "socket_open (conn l) \<and> filter is_write (pending l) = [] \<and> length (tx l) \<le> n"
  proof -
    have "tx l = g @ ?s" "length (tx l) \<le> n" using framing(2) that by simp_all
    then have "take n (tx l) = g @ ?s" by simp
    with d all assms(4) show ?thesis by simp
  qed
  ultimately show ?thesis by blast
qed

lemma transfer_from_server:
  assumes "link_reach self (server_link u_id clock hs_in ms) l" "\<not> overlapped l"
    and "list_all sendable (messages_of (items l))"
    and "link_reach self' (client_link c_clock hs) l'" "consumed l' = take n (tx l)"
  shows "(\<exists>k. map msg (delivered l') = take k (received_all empty_message (messages_of (items l)))) \<and>
    (socket_open (conn l) \<and> filter is_write (pending l) = [] \<and> length (tx l) \<le> n \<longrightarrow>
       map msg (delivered l') = received_all empty_message (messages_of (items l)))"
proof -
  from server_items [OF assms(1)] obtain qs where qs: "items l = Hs (le_bytes 8 clock) # map Msg qs" ..
  have "reached self l" "reached self' l'"
    using assms(1,4) by (auto intro: by_server by_client)
  from transfer_general [OF this(1) assms(2) qs _ _ this(2) assms(5)] qs assms(3) show ?thesis by simp
qed

text \<open>
  C4: from server to client, under two conditions that the code does not establish by itself: the server's end has not
  overlapped two writes (\<open>handshake_write_overlaps\<close> shows that it can), and its messages have right
  sizes in their headers. Then, in whatever states the two ends of a socket are, the messages the client was handed are,
  one for one and in order, the first ones of those the server's end accepted for sending; none is
  left out in between, repeated or invented. Each has the header that was sent, and, if it carries a single value, gives
  that value back; for the payload of other messages it has what the receiver's buffer makes of the
  bytes that are sent (\<open>received\<close>), so that further values can be lost. When the
  server's writes are done, its socket is open and the client has taken all the bytes, they are all of them.
\<close>

theorem server_to_client:
  assumes "link_reach self (server_link u_id clock hs_in ms) l" "\<not> overlapped l"
    and "list_all sendable (messages_of (items l))"
    and "link_reach self' (client_link c_clock hs) l'" "consumed l' = take n (tx l)"
  shows "(\<exists>k. map msg (delivered l') = take k (received_all empty_message (messages_of (items l)))) \<and>
    list_all2 arrives_as (take (length (delivered l')) (messages_of (items l))) (map msg (delivered l')) \<and>
    (socket_open (conn l) \<and> filter is_write (pending l) = [] \<and> length (tx l) \<le> n \<longrightarrow>
       map msg (delivered l') = received_all empty_message (messages_of (items l)))"
proof -
  note t = transfer_from_server [OF assms]
  then obtain k where "map msg (delivered l') = take k (received_all empty_message (messages_of (items l)))" by blast
  from arrive_first [OF this] t show ?thesis by simp
qed

text \<open>A run in which the server sends one message without a payload, and the client gets it.\<close>

definition hello :: message where
  "hello = set_id 3 empty_message"

lemma hello_simps [simp]:
  "payload hello = []" "sendable hello" "header_of_bytes (header_bytes (header hello)) = header hello"
  "hdr_size (header hello) = 0" "received empty_message hello = hello"
  by (simp_all add: hello_def sendable_def received_def set_id_def empty_message_def wf_msg_def)

lemma hello_sent:
  "case run_actions self [Complete 0, Call_SendData hello, Complete 1, Complete 1] (server_link u_id clock hs_in []) of
     None \<Rightarrow> False
   | Some l \<Rightarrow> \<not> overlapped l \<and> socket_open (conn l) \<and> filter is_write (pending l) = [] \<and>
       items l = [Hs (le_bytes 8 clock), Msg hello] \<and> tx l = le_bytes 8 clock @ header_bytes (header hello)"
  by (simp add: run_defs front_elem_def empty_queue_def pushBack_def popFront_def)

lemma hello_received:
  "case run_actions self [Arrive (g @ header_bytes (header hello)), Complete 0, Complete 0, Complete 0, Complete 0]
       (client_link c_clock hs) of
     None \<Rightarrow> False
   | Some l \<Rightarrow> consumed l = g @ header_bytes (header hello)"
  if "length g = 8"
  using that by (simp add: run_defs store_handshake_all)

theorem server_to_client_witness:
  "\<exists>l'. link_reach 0 (client_link 0 0) l' \<and> map msg (delivered l') = [hello]"
proof -
  from run_actions_find [OF hello_sent [where self = 0 and u_id = 10000 and clock = 42 and hs_in = 0]] obtain l where
    l: "link_reach 0 (server_link 10000 42 0 []) l" "\<not> overlapped l" "socket_open (conn l)"
      "filter is_write (pending l) = []" "items l = [Hs (le_bytes 8 (42 :: u64)), Msg hello]"
      "tx l = le_bytes 8 (42 :: u64) @ header_bytes (header hello)" by blast
  from run_actions_find [OF hello_received [of "le_bytes 8 (42 :: u64)", where self = 0 and c_clock = 0 and hs = 0]]
  obtain l' where l': "link_reach 0 (client_link 0 0) l'"
      "consumed l' = le_bytes 8 (42 :: u64) @ header_bytes (header hello)" by auto
  have "consumed l' = take 16 (tx l)" using l(6) l'(2) by simp
  have ms: "messages_of (items l) = [hello]" and len: "length (tx l) \<le> 16" using l(5,6) by simp_all
  then have "list_all sendable (messages_of (items l))" by simp
  note both = server_to_client [OF l(1,2) this l'(1) \<open>consumed l' = take 16 (tx l)\<close>]
  have "map msg (delivered l') = received_all empty_message (messages_of (items l))"
    by (rule both [THEN conjunct2, THEN conjunct2, THEN mp]) (intro conjI l(3,4) len)
  then have "map msg (delivered l') = [hello]" unfolding ms by simp
  with l'(1) show ?thesis by (intro exI [of _ l'] conjI)
qed

lemma transfer_from_client:
  assumes "link_reach self (client_link c_clock hs) l" "\<not> overlapped l"
    and "items l = Hs g # map Msg ms" "length g = 8" "list_all sendable ms"
    and "link_reach self' (server_link u_id clock hs_in qs) l'" "consumed l' = take n (tx l)"
  shows "(\<exists>k. map msg (delivered l') = take k (received_all empty_message ms)) \<and>
    (socket_open (conn l) \<and> filter is_write (pending l) = [] \<and> length (tx l) \<le> n \<longrightarrow>
       map msg (delivered l') = received_all empty_message ms)"
proof -
  have "reached self l" "reached self' l'"
    using assms(1,6) by (auto intro: by_server by_client)
  from transfer_general [OF this(1) assms(2-5) this(2) assms(7)] show ?thesis .
qed

text \<open>
  C15: from client to server, when the client's first bytes are its answer to the handshake (which nothing in
  \<open>SendData\<close> guarantees), its end has not overlapped two writes and its messages have right sizes in their
  headers: the messages the server was handed are, one for one and in order, the first ones that the client's end
  accepted, all of them when its writes are done and the server has taken all the bytes. Each has the header that was
  sent and gives back a single value; the payload of others is what the receiver's buffer makes of it.
\<close>

theorem client_to_server:
  assumes "link_reach self (client_link c_clock hs) l" "\<not> overlapped l"
    and "items l = Hs g # map Msg ms" "length g = 8" "list_all sendable ms"
    and "link_reach self' (server_link u_id clock hs_in qs) l'" "consumed l' = take n (tx l)"
  shows "(\<exists>k. map msg (delivered l') = take k (received_all empty_message ms)) \<and>
    list_all2 arrives_as (take (length (delivered l')) ms) (map msg (delivered l')) \<and>
    (socket_open (conn l) \<and> filter is_write (pending l) = [] \<and> length (tx l) \<le> n \<longrightarrow>
       map msg (delivered l') = received_all empty_message ms)"
proof -
  note t = transfer_from_client [OF assms]
  then obtain k where "map msg (delivered l') = take k (received_all empty_message ms)" by blast
  from arrive_first [OF this] t show ?thesis by simp
qed

text \<open>The same message the other way round: the client answers, then sends it.\<close>

lemma hello_client_sent:
  "case run_actions self [Arrive (le_bytes 8 clock), Complete 0, Complete 0, Complete 0,
       Call_SendData hello, Complete 1, Complete 1] (client_link c_clock hs) of
     None \<Rightarrow> False
   | Some l \<Rightarrow> \<not> overlapped l \<and> socket_open (conn l) \<and> filter is_write (pending l) = [] \<and>
       items l = Hs (le_bytes 8 (encrypt_handshake_data clock)) # map Msg [hello] \<and>
       tx l = le_bytes 8 (encrypt_handshake_data clock) @ header_bytes (header hello)"
  by (simp add: run_defs store_handshake_all front_elem_def empty_queue_def pushBack_def popFront_def)

lemma hello_server_received:
  "case run_actions self [Arrive (le_bytes 8 (encrypt_handshake_data clock) @ header_bytes (header hello)),
       Complete 1, Complete 1] (server_link u_id clock hs_in []) of
     None \<Rightarrow> False
   | Some l \<Rightarrow> consumed l = le_bytes 8 (encrypt_handshake_data clock) @ header_bytes (header hello)"
  by (simp add: run_defs store_handshake_all)

theorem client_to_server_witness:
  "\<exists>l'. link_reach 0 (server_link 10000 42 0 []) l' \<and> map msg (delivered l') = [hello]"
proof -
  let ?g = "le_bytes 8 (encrypt_handshake_data 42)"
  from run_actions_find [OF hello_client_sent [where self = 0 and clock = 42 and c_clock = 0 and hs = 0]] obtain l where
    l: "link_reach 0 (client_link 0 0) l" "\<not> overlapped l" "socket_open (conn l)"
      "filter is_write (pending l) = []" "items l = Hs ?g # map Msg [hello]"
      "tx l = ?g @ header_bytes (header hello)" by blast
  from run_actions_find [OF hello_server_received [where self = 0 and u_id = 10000 and clock = 42 and hs_in = 0]]
  obtain l' where l': "link_reach 0 (server_link 10000 42 0 []) l'"
      "consumed l' = ?g @ header_bytes (header hello)" by auto
  have "consumed l' = take 16 (tx l)" using l(6) l'(2) by simp
  have len: "length (tx l) \<le> 16" using l(6) by simp
  have "length ?g = 8" "list_all sendable [hello]" by simp_all
  note both = client_to_server [OF l(1,2,5) this l'(1) \<open>consumed l' = take 16 (tx l)\<close>]
  have "map msg (delivered l') = received_all empty_message [hello]"
    by (rule both [THEN conjunct2, THEN conjunct2, THEN mp]) (intro conjI l(3,4) len)
  then have "map msg (delivered l') = [hello]" by simp
  with l'(1) show ?thesis by (intro exI [of _ l'] conjI)
qed

section \<open>What a message looks like when it arrives\<close>

lemma value_survives:
  "\<exists>m'. pop_data (length d) (received tmp (push_data (set_id i empty_message) d)) = Inr (m', d)"
proof (cases "d = []")
  case True
  then show ?thesis by (simp add: pop_data_def Let_def)
next
  case False
  then show ?thesis
    using pop_received_single [of "push_data (set_id i empty_message) d" d tmp] by simp
qed

text \<open>
  A message with one value arrives with that value, whatever the receiver's buffer held
  before: reading it back with the operator gives the bytes that were stored.
\<close>

theorem single_value_survives:
  "\<exists>m'. pop_data (length d) (received tmp (push_data (set_id i empty_message) d)) = Inr (m', d)"
  by (rule value_survives)



text \<open>
  A message without a payload arrives with the payload of the message before it, since
  only \<open>ReadPayload\<close>'s caller resizes the buffer; and when the receiver sends it on as it
  is (the custom server does so with a ping), the header announces no payload but the
  stale bytes are written, and the peer takes them for the next header.
\<close>

theorem stale_payload_echo:
  "payload (received tmp (set_id i empty_message)) = payload tmp \<and>
   recv_frames peer (wire_bytes (received tmp (set_id i empty_message)) @ rest) =
     (let m = received peer (set_id i empty_message)
      in m # recv_frames m (payload_buffer tmp @ rest))"
proof -
  let ?h = "header (set_id i empty_message)"
  have "unat (hdr_size ?h) = 0" by (simp add: set_id_def empty_message_def)
  from recv_header_only [OF this, of peer "payload_buffer tmp @ rest"] show ?thesis
    by (simp add: received_def wire_bytes_def payload_buffer_def Let_def)
qed

end
