(* ===== verification/Connection_Progress.thy ===== *)
theory Connection_Progress
  imports End_To_End
begin

text \<open>
  What a connection can always still do. The read loop can go on until every complete frame
  that has arrived is delivered; together with the write loop, everything that one end of a
  socket has accepted for sending can reach the owner of the other end. And a connection
  whose socket is closed comes to rest: its pending operations complete, a bounded number of
  times, and none of them delivers anything any more.
\<close>

section \<open>The read loop\<close>

definition message_read :: "read_handler \<Rightarrow> bool" where
  "message_read h \<longleftrightarrow> h = H_ReadHeader \<or> h = H_ReadPayload"

text \<open>A connection that is reading messages; the argument is the number of bytes it waits for.\<close>

definition reading :: "nat \<Rightarrow> link \<Rightarrow> bool" where
  "reading n l \<longleftrightarrow> socket_open (conn l) \<and> Async_connect \<notin> set (pending l) \<and>
     (\<exists>h. message_read h \<and> Async_read n h \<in> set (pending l))"

text \<open>The state of the other side, which reading leaves alone.\<close>

definition sending_part :: "link \<Rightarrow> item list \<times> byte list \<times> message list \<times> bool \<times> io_call list" where
  "sending_part l = (items l, tx l, data_queue (out_msg_queue (conn l)), overlapped l, filter is_write (pending l))"

lemma reading_phase:
  assumes "read_inv self l" "reading n l"
  shows "0 < n \<and> (n \<le> length (rx l) \<or>
    map msg (delivered l) = recv_frames empty_message (drop 8 (consumed l @ rx l)))"
proof -
  from assms(2) obtain h where h: "message_read h" "Async_read n h \<in> set (pending l)" by (auto simp: reading_def)
  then obtain xs ys where p: "pending l = xs @ Async_read n h # ys" by (blast dest: split_list)
  have ph: "read_phase (conn l) [Async_read n h] (consumed l) (map msg (delivered l)) (validations l)"
    by (rule read_inv_token(1) [OF assms(1) p]) simp
  from h(1) show ?thesis unfolding message_read_def
  proof
    assume "h = H_ReadHeader"
    with ph obtain g fs where f: "n = 8" "consumed l = g @ fs" "greeted (conn l) g"
      "at_boundary (tmp_input_msg (conn l)) fs (map msg (delivered l))" by (auto elim: in_header_phase)
    then show ?thesis
      using greeted_length [OF f(3)] by (cases "8 \<le> length (rx l)") (simp_all add: at_boundary_def recv_short)
  next
    assume "h = H_ReadPayload"
    with ph obtain g fs tmp hd where f: "consumed l = g @ fs @ header_bytes hd" "greeted (conn l) g"
      "at_boundary tmp fs (map msg (delivered l))" "n = unat (hdr_size hd)" "0 < n" by (auto elim: in_payload_phase)
    then show ?thesis
      using greeted_length [OF f(2)] recv_incomplete [of "rx l" hd tmp]
      by (cases "n \<le> length (rx l)") (simp_all add: at_boundary_def)
  qed
qed

lemma read_one:
  assumes inv: "read_inv self l" and r: "reading n l" and n: "n \<le> length (rx l)"
  shows "\<exists>l' k. link_step self l l' \<and> reading k l' \<and> consumed l' @ rx l' = consumed l @ rx l \<and>
    length (rx l') < length (rx l) \<and> sending_part l' = sending_part l"
proof -
  have pos: "0 < n" using reading_phase [OF inv r] by simp
  from r obtain h where h: "message_read h" "Async_read n h \<in> set (pending l)" by (auto simp: reading_def)
  then obtain xs ys where p: "pending l = xs @ Async_read n h # ys" by (blast dest: split_list)
  let ?l = "read_state (xs @ ys) n True l"
  have "\<exists>l'. fire self (Read_done h False (take n (rx l))) ?l = Inr l' \<and> (\<exists>k. reading k l') \<and>
      consumed l' = consumed ?l \<and> rx l' = rx ?l \<and> sending_part l' = sending_part l"
    using h(1) r p unfolding message_read_def
    by (elim disjE) (auto simp: fire_def handler_defs store_defs read_state_def Let_def reading_def
        sending_part_def message_read_def)
  then obtain l' k where l': "fire self (Read_done h False (take n (rx l))) ?l = Inr l'"
    "reading k l'" "consumed l' = consumed ?l" "rx l' = rx ?l" "sending_part l' = sending_part l" by blast
  have "link_step self l l'" using r p n l'(1) by (intro link_step.read_ok) (auto simp: reading_def)
  with l' pos n show ?thesis by (auto simp: read_state_def)
qed

lemma read_all:
  "read_inv self l \<Longrightarrow> reading n l \<Longrightarrow> \<exists>l' k. link_reach self l l' \<and> reading k l' \<and>
     consumed l' @ rx l' = consumed l @ rx l \<and> sending_part l' = sending_part l \<and>
     map msg (delivered l') = recv_frames empty_message (drop 8 (consumed l @ rx l))"
proof (induction "length (rx l)" arbitrary: l n rule: less_induct)
  case less
  note inv = less.prems(1) and r = less.prems(2)
  show ?case
  proof (cases "n \<le> length (rx l)")
    case False
    with reading_phase [OF inv r] r show ?thesis by (auto intro: link_reach.init)
  next
    case True
    from read_one [OF inv r this] obtain l1 k where l1: "link_step self l l1" "reading k l1"
      "consumed l1 @ rx l1 = consumed l @ rx l" "length (rx l1) < length (rx l)" "sending_part l1 = sending_part l" by blast
    from less.hyps [OF l1(4) read_inv_step [OF l1(1) inv] l1(2)] obtain l' k' where l': "link_reach self l1 l'"
      "reading k' l'" "consumed l' @ rx l' = consumed l1 @ rx l1" "sending_part l' = sending_part l1"
      "map msg (delivered l') = recv_frames empty_message (drop 8 (consumed l1 @ rx l1))" by blast
    have "link_reach self l l'" using l'(1) link_reach.step [OF link_reach.init l1(1)] by (rule link_reach_trans)
    with l' l1 show ?thesis by (intro exI [of _ l'] exI [of _ k']) simp
  qed
qed

section \<open>From end to end\<close>

lemma link_reach_from: "link_reach self l l' \<Longrightarrow> reached self l \<Longrightarrow> reached self l'"
  by (auto elim!: reached.cases intro: reached.intros link_reach_trans)

lemma deliver_general:
  assumes "reached self l" "\<not> overlapped l" "socket_open (conn l)" "Async_connect \<notin> set (pending l)"
    and "items l = Hs g # map Msg ms" "length g = 8" "list_all sendable ms"
    and "reached self' l'" "reading k l'" "consumed l' @ rx l' = take n (tx l)"
  shows "\<exists>m m'. link_reach self l m \<and> items m = items l \<and> link_reach self' l' m' \<and>
    consumed m' @ rx m' = tx m \<and> tx m = stream_of (items l) \<and>
    map msg (delivered m') = received_all empty_message ms"
proof -
  have "stream_of (map Msg ms) = concat (map wire_bytes ms)" by (induction ms) auto
  then have st: "stream_of (items l) = g @ concat (map wire_bytes ms)" using assms(5) by simp
  from drain_all [of l self] assms(1-4) reached_write_inv obtain m where m: "link_reach self l m" "items m = items l"
    "tx m = stream_of (items l)" by (auto simp: write_ready_def)
  have "take (length (tx l)) (stream_of (items l)) = tx l" using link_framing [OF assms(1,2)] by blast
  then have "take n (tx l) = take (min n (length (tx l))) (tx m)" by (metis m(3) take_take)
  then obtain bs where bs: "tx m = take n (tx l) @ bs" by (metis append_take_drop_id)
  let ?l = "l'\<lparr>rx := rx l' @ bs\<rparr>"
  have arr: "link_step self' l' ?l" by (rule link_step.arrive)
  have "read_inv self' ?l" using read_inv_step [OF arr] reached_read_inv [OF assms(8)] by blast
  moreover have "reading k ?l" using assms(9) by (simp add: reading_def)
  ultimately obtain m' where m': "link_reach self' ?l m'" "consumed m' @ rx m' = consumed ?l @ rx ?l"
    "map msg (delivered m') = recv_frames empty_message (drop 8 (consumed ?l @ rx ?l))"
    using read_all by blast
  have all: "consumed ?l @ rx ?l = tx m" using assms(10) bs by (simp add: append_assoc [symmetric] del: append_assoc)
  have "map msg (delivered m') = received_all empty_message ms"
    using m'(3) assms(6) m(3) st recv_wire_all [OF assms(7)] unfolding all by simp
  moreover have "link_reach self' l' m'" using m'(1) link_reach.step [OF link_reach.init arr] by (rule link_reach_trans)
  ultimately show ?thesis using m m'(2) unfolding all by blast
qed

section \<open>A closed connection comes to rest\<close>

text \<open>What others do to a connection; every other step completes one of its operations.\<close>

definition external :: "link \<Rightarrow> link \<Rightarrow> bool" where
  "external l l' \<longleftrightarrow> (\<exists>bs. l' = l\<lparr>rx := rx l @ bs\<rparr>) \<or> (\<exists>m. l' = apply_effects (snd (SendData m (conn l))) l) \<or>
     l' = apply_effects (snd (Disconnect (conn l))) l"

definition own_step :: "conn_ref \<Rightarrow> link \<Rightarrow> link \<Rightarrow> bool" where
  "own_step self l l' \<longleftrightarrow> link_step self l l' \<and> \<not> external l l'"

inductive own_steps :: "conn_ref \<Rightarrow> nat \<Rightarrow> link \<Rightarrow> link \<Rightarrow> bool" for self :: conn_ref where
  none: "own_steps self 0 l l"
| more: "own_steps self k l l' \<Longrightarrow> own_step self l' l'' \<Longrightarrow> own_steps self (Suc k) l l''"

text \<open>A posted message may start a write, and a connect a read; everything else ends.\<close>

fun op_work :: "io_call \<Rightarrow> nat" where
  "op_work Async_connect = 2"
| "op_work (Post (Do_SendData m)) = 2"
| "op_work _ = 1"

definition work :: "link \<Rightarrow> nat" where
  "work l = sum_list (map op_work (pending l))"

definition handed_over :: "link \<Rightarrow> owned_message list \<times> nat \<times> byte list" where
  "handed_over l = (delivered l, validations l, consumed l)"

lemma work_split: "pending l = xs @ op # ys \<Longrightarrow> work l = op_work op + sum_list (map op_work (xs @ ys))"
  by (simp add: work_def)

lemma op_work_pos: "0 < op_work op"
  by (cases op rule: op_work.cases) simp_all

lemma task_closed:
  assumes "fire self (Run t) (task_state ops t l) = Inr l'" "\<not> socket_open (conn l)"
  shows "work l' < op_work (Post t) + sum_list (map op_work ops) \<and> \<not> socket_open (conn l') \<and>
    handed_over l' = handed_over l"
proof (cases t)
  case (Do_SendData m)
  with assms show ?thesis
    by (cases "isEmpty (out_msg_queue (conn l))"; cases "data_queue (out_msg_queue (conn l))")
      (auto simp: fire_def handler_defs task_state_def work_def handed_over_def front_elem_def pushBack_def isEmpty_def)
next
  case Do_Disconnect
  with assms show ?thesis
    by (auto simp: fire_def handler_defs store_defs task_state_def work_def handed_over_def)
qed

lemma external_work: "external l l' \<Longrightarrow> work l \<le> work l'"
  by (auto simp: external_def work_def SendData_def Disconnect_def)

lemma closed_step:
  assumes "link_step self l l'" "\<not> socket_open (conn l)"
  shows "external l l' \<or> work l' < work l \<and> \<not> socket_open (conn l') \<and> handed_over l' = handed_over l"
  using assms(1)
proof cases
  case (connect xs ys ec)
  then show ?thesis using assms(2) work_split [OF connect(1)]
    by (auto simp: fire_def handler_defs work_def handed_over_def split: if_splits)
next
  case (read_failed xs n h ys k)
  then show ?thesis using work_split [OF read_failed(1)]
    by (cases h) (auto simp: fire_def handler_defs store_defs read_state_def work_def handed_over_def Let_def)
next
  case (write_failed xs bs h ys k t)
  then show ?thesis using work_split [OF write_failed(1)]
    by (cases h) (auto simp: fire_def handler_defs store_defs write_state_def work_def handed_over_def)
next
  case (task xs t ys)
  from task_closed [OF task(2) assms(2)] work_split [OF task(1)] show ?thesis by simp
qed (use assms(2) in \<open>auto simp: external_def\<close>)

lemma closed_progress:
  assumes "\<not> socket_open (conn l)" "pending l \<noteq> []"
  shows "\<exists>l'. own_step self l l'"
proof -
  from assms(2) obtain op ys where p: "pending l = [] @ op # ys" by (cases "pending l") auto
  have "\<exists>l'. link_step self l l' \<and> work l' < work l"
  proof (cases op)
    case Async_connect
    then have "fire self (Connected True) (l\<lparr>pending := [] @ ys\<rparr>) = Inr (l\<lparr>pending := ys\<rparr>)"
      by (simp add: fire_def handler_defs)
    from link_step.connect [OF p [unfolded Async_connect] this] show ?thesis
      using p op_work_pos by (intro exI [of _ "l\<lparr>pending := ys\<rparr>"]) (simp add: work_def)
  next
    case (Async_read n h)
    obtain l' where l': "fire self (Read_done h True (take 0 (rx l))) (read_state ([] @ ys) 0 False l) = Inr l'" "pending l' = ys"
      by (cases h) (auto simp: fire_def handler_defs store_defs read_state_def Let_def)
    have "link_step self l l'" by (rule link_step.read_failed [OF p [unfolded Async_read] _ l'(1)]) simp
    with l'(2) p op_work_pos show ?thesis by (intro exI [of _ l']) (simp add: work_def)
  next
    case (Async_write bs h)
    obtain l' where l': "fire self (Write_done h True) (write_state ([] @ ys) (tx l) l) = Inr l'" "pending l' = ys"
      by (cases h) (auto simp: fire_def handler_defs store_defs write_state_def)
    have "link_step self l l'" by (rule link_step.write_failed [OF p [unfolded Async_write], of 0, OF _ _ l'(1)]) simp_all
    with l'(2) p op_work_pos show ?thesis by (intro exI [of _ l']) (simp add: work_def)
  next
    case (Post t)
    from other_handled [of "Run t" self "conn (task_state ([] @ ys) t l)"] obtain c es where
      "handle self (Run t) (conn (task_state ([] @ ys) t l)) = Inr (c, es)" by auto
    then obtain l' where f: "fire self (Run t) (task_state ([] @ ys) t l) = Inr l'" by (auto simp: fire_def)
    from link_step.task [OF p [unfolded Post] f] task_closed [OF f assms(1)] work_split [OF p] Post show ?thesis by auto
  qed
  then show ?thesis using external_work by (fastforce simp: own_step_def)
qed

lemma closed_run:
  "own_steps self k l l' \<Longrightarrow> \<not> socket_open (conn l) \<Longrightarrow>
     k + work l' \<le> work l \<and> \<not> socket_open (conn l') \<and> handed_over l' = handed_over l"
proof (induction rule: own_steps.induct)
  case (more k l l' l'')
  then show ?case using closed_step [of self l' l''] by (auto simp: own_step_def)
qed simp

section \<open>Properties\<close>

text \<open>
  The read loop does not get stuck. From every reachable state in which the connection is open
  and reading messages, it can go on, touching nothing of its outgoing side, until it has
  delivered every complete frame of the bytes that have arrived.
\<close>
theorem read_loop_drains:
  assumes "reached self l" "reading n l"
  shows "\<exists>l'. link_reach self l l' \<and> sending_part l' = sending_part l \<and> consumed l' @ rx l' = consumed l @ rx l \<and>
    map msg (delivered l') = recv_frames empty_message (drop 8 (consumed l @ rx l))"
  using read_all [OF reached_read_inv [OF assms(1)] assms(2)] by blast

text \<open>
  C5: everything that is accepted can arrive, once the handshake is behind. Let one end of a socket be in any reachable
  state in which it is open and connected, has not overlapped writes, and has accepted its handshake data first and then messages
  with right sizes in their headers; let the other end be reading messages, with its own handshake behind it,
  and let the bytes that have arrived be the first ones that were sent. (The code does not see to it that
  writes do not overlap and that the answer to the handshake comes first.) Then both ends can go on, the
  first one without accepting anything new, until the other end's owner has been handed a message for every one
  that was accepted for sending, in order, each with the header that was sent and with its value, if it
  carries a single one; the rest of a payload is what the receiver's buffer makes of it.
\<close>
theorem delivery_completes:
  assumes "reached self l" "\<not> overlapped l" "socket_open (conn l)" "Async_connect \<notin> set (pending l)"
    and "items l = Hs g # map Msg ms" "length g = 8" "list_all sendable ms"
    and "reached self' l'" "reading k l'" "consumed l' @ rx l' = take n (tx l)"
  shows "\<exists>m m'. link_reach self l m \<and> items m = items l \<and> link_reach self' l' m' \<and>
    consumed m' @ rx m' = tx m \<and> tx m = stream_of (items l) \<and>
    map msg (delivered m') = received_all empty_message ms \<and> list_all2 arrives_as ms (map msg (delivered m'))"
  using deliver_general [OF assms] arrive_all [of ms empty_message] by metis

text \<open>
  C16: a closed connection comes to rest. Once the socket is closed, its operations can
  complete only a bounded number of times, at most twice each; a completion is possible as
  long as an operation is pending; the socket stays closed; and nothing is consumed,
  delivered or validated any more.
\<close>
theorem closed_comes_to_rest:
  assumes "\<not> socket_open (conn l)" "own_steps self k l l'"
  shows "k \<le> 2 * length (pending l) \<and> \<not> socket_open (conn l') \<and> handed_over l' = handed_over l \<and>
    (pending l' = [] \<or> (\<exists>l''. own_step self l' l''))"
proof -
  have two: "op_work op \<le> 2" for op by (cases op rule: op_work.cases) simp_all
  have "sum_list (map op_work ops) \<le> 2 * length ops" for ops
  proof (induction ops)
    case (Cons op ops)
    have "op_work op + sum_list (map op_work ops) \<le> 2 + 2 * length ops" using Cons two [of op] by linarith
    then show ?case by simp
  qed simp
  then have "work l \<le> 2 * length (pending l)" by (simp add: work_def)
  moreover note closed_run [OF assms(2,1)]
  ultimately show ?thesis using closed_progress [of l' self] by auto
qed

text \<open>A client after the handshake, to which the header of a message arrives.\<close>

definition client_ready :: "u64 \<Rightarrow> link \<Rightarrow> bool" where
  "client_ready clock l \<longleftrightarrow> reading 8 l \<and> consumed l = le_bytes 8 clock \<and> rx l = []"

lemma client_ready_reached: "\<exists>l. link_reach self (client_link c0 hs) l \<and> client_ready clock l"
proof -
  have "case run_actions self [Arrive (le_bytes 8 clock), Complete 0, Complete 0, Complete 0] (client_link c0 hs) of
      None \<Rightarrow> False | Some l \<Rightarrow> client_ready clock l"
    by (simp add: run_defs store_handshake_all client_ready_def reading_def message_read_def)
  then show ?thesis by (rule run_actions_find)
qed

theorem read_loop_drains_witness:
  "\<exists>l. link_reach 0 (client_link 0 0) l \<and> map msg (delivered l) = [hello]"
proof -
  from client_ready_reached [of 0 0 0 42] obtain l where l: "link_reach 0 (client_link 0 0) l" "client_ready 42 l" by blast
  let ?l = "l\<lparr>rx := rx l @ header_bytes (header hello)\<rparr>"
  have r: "link_reach 0 (client_link 0 0) ?l" using l(1) link_step.arrive by (rule link_reach.step)
  have "reading 8 ?l" using l(2) by (simp add: client_ready_def reading_def)
  from read_loop_drains [OF by_client [OF r] this] obtain l' where l': "link_reach 0 ?l l'"
    "map msg (delivered l') = recv_frames empty_message (drop 8 (consumed ?l @ rx ?l))" by blast
  have "recv_frames empty_message (header_bytes (header hello) @ []) = [hello]"
    using recv_wire_bytes [OF hello_simps(2), of empty_message "[]"]
    by (simp add: wire_bytes_def payload_buffer_def recv_short)
  then have "map msg (delivered l') = [hello]" using l'(2) l(2) by (simp add: client_ready_def)
  with link_reach_trans [OF l'(1) r] show ?thesis by (intro exI [of _ l'] conjI)
qed

theorem delivery_completes_witness:
  "\<exists>m'. link_reach 0 (client_link 0 0) m' \<and> map msg (delivered m') = [hello]"
proof -
  have "case run_actions 0 [Complete 0, Call_SendData hello, Complete 1] (server_link 10000 42 0 []) of
     None \<Rightarrow> False
   | Some l \<Rightarrow> \<not> overlapped l \<and> socket_open (conn l) \<and> Async_connect \<notin> set (pending l) \<and>
       items l = [Hs (le_bytes 8 (42 :: u64)), Msg hello] \<and> tx l = le_bytes 8 (42 :: u64)"
    by (simp add: run_defs front_elem_def empty_queue_def pushBack_def)
  from run_actions_find [OF this] obtain l where l: "link_reach 0 (server_link 10000 42 0 []) l" "\<not> overlapped l"
    "socket_open (conn l)" "Async_connect \<notin> set (pending l)" "items l = Hs (le_bytes 8 (42 :: u64)) # map Msg [hello]"
    "tx l = le_bytes 8 (42 :: u64)" by auto
  from client_ready_reached [of 0 0 0 42] obtain l' where l': "link_reach 0 (client_link 0 0) l'" "client_ready 42 l'" by blast
  have "consumed l' @ rx l' = take 8 (tx l)" "reading 8 l'" using l'(2) l(6) by (simp_all add: client_ready_def)
  from delivery_completes [OF by_server [OF l(1)] l(2-5) _ _ by_client [OF l'(1)] this(2,1)] obtain m' where
    "link_reach 0 l' m'" "map msg (delivered m') = received_all empty_message [hello]" by auto
  then have "link_reach 0 l' m'" "map msg (delivered m') = [hello]" by simp_all
  with link_reach_trans [OF this(1) l'(1)] show ?thesis by (intro exI [of _ m'] conjI)
qed

theorem closed_comes_to_rest_witness:
  "\<exists>l'. own_steps 0 1 ((client_link 0 0)\<lparr>conn := close_socket (conn (client_link 0 0))\<rparr>) l' \<and> \<not> socket_open (conn l')"
proof -
  let ?l = "(client_link 0 0)\<lparr>conn := close_socket (conn (client_link 0 0))\<rparr>"
  have c: "\<not> socket_open (conn ?l)" "pending ?l \<noteq> []" by (simp_all add: close_socket_def run_defs)
  from closed_progress [OF this] obtain l' where "own_step 0 ?l l'" by blast
  from own_steps.more [OF own_steps.none this] have s: "own_steps 0 1 ?l l'" by simp
  from closed_comes_to_rest [OF c(1) s] s show ?thesis by blast
qed

end
