(* ===== verification/Net_Server.thy ===== *)
theory Net_Server
  imports End_To_End
begin

text \<open>
  \<open>ServerInterfaceClass\<close> of \<open>include/custom_net_lib/net_server.hpp\<close>: the acceptor, the queue
  of connections, the queue of incoming messages.

  The connections are objects on a heap, \<open>links\<close>, and a \<open>std::shared_ptr\<close> to one is its
  index or null. The virtual methods, which a server that derives from the class
  overrides, are the record \<open>server_methods\<close>; every method of the class that calls one
  takes the record. \<open>console\<close> is what the server prints, line by line. \<open>approved\<close> is the
  history of the connections it approved.
\<close>

section \<open>State\<close>

record server =
  links :: "link list"
  inMsgQueue :: "owned_message ts_queue"
  connectionsQueue :: "conn_ref option list"
  idCounter :: u32
  accepting :: nat
  io_stopped :: bool
  io_thread :: bool
  console :: "string list"
  approved :: "conn_ref list"

record server_methods =
  onClientConnect :: "conn_ref \<Rightarrow> server \<Rightarrow> (bool \<times> server) res"
  onClientDisconnect :: "conn_ref option \<Rightarrow> server \<Rightarrow> server res"
  onMessage :: "conn_ref option \<Rightarrow> message \<Rightarrow> server \<Rightarrow> server res"
  onClientValidated :: "conn_ref \<Rightarrow> server \<Rightarrow> server res"

definition say :: "string \<Rightarrow> server \<Rightarrow> server" where
  "say line s = s\<lparr>console := console s @ [line]\<rparr>"

definition on_link :: "conn_ref \<Rightarrow> (link \<Rightarrow> link) \<Rightarrow> server \<Rightarrow> server" where
  "on_link r f s = s\<lparr>links := (links s)[r := f (links s ! r)]\<rparr>"

text \<open>Method calls through a pointer to a connection.\<close>

definition call_SendData :: "conn_ref \<Rightarrow> message \<Rightarrow> server \<Rightarrow> server" where
  "call_SendData r m = on_link r (\<lambda>l. let (c, es) = SendData m (conn l) in apply_effects es (l\<lparr>conn := c\<rparr>))"

definition call_ConnectToClient :: "conn_ref \<Rightarrow> u32 \<Rightarrow> server \<Rightarrow> server" where
  "call_ConnectToClient r u_id =
     on_link r (\<lambda>l. let (c, es) = ConnectToClient u_id (conn l) in apply_effects es (l\<lparr>conn := c\<rparr>))"

definition is_live :: "server \<Rightarrow> conn_ref option \<Rightarrow> bool" where
  "is_live s p = (case p of None \<Rightarrow> False | Some r \<Rightarrow> IsConnected (conn (links s ! r)))"

definition client_id :: "server \<Rightarrow> conn_ref \<Rightarrow> u32" where
  "client_id s r = getID (conn (links s ! r))"

section \<open>The default methods\<close>

definition base_methods :: server_methods where
  "base_methods =
     \<lparr>onClientConnect = \<lambda>client s. Inr (False, s),
      onClientDisconnect = \<lambda>client s. Inr s,
      onMessage = \<lambda>client msg_input s. Inr s,
      onClientValidated = \<lambda>client s. Inr (say ''OnClientValidated!'' s)\<rparr>"

section \<open>Operations\<close>

text \<open>The constructor leaves \<open>idCounter_\<close> uninitialised: \<open>id0\<close> is the value it happens to have.\<close>

definition new_server :: "u32 \<Rightarrow> server" where
  "new_server id0 =
     \<lparr>links = [], inMsgQueue = empty_queue, connectionsQueue = [], idCounter = id0, accepting = 0,
      io_stopped = False, io_thread = False, console = [], approved = []\<rparr>"

definition waitForClientConnection :: "server \<Rightarrow> server" where
  "waitForClientConnection s = s\<lparr>accepting := Suc (accepting s)\<rparr>"

text \<open>
  \<open>failure\<close> is the text of the exception when the thread cannot be created. Assigning to
  a \<open>std::thread\<close> that is still joinable ends the program.
\<close>

definition Start :: "string option \<Rightarrow> server \<Rightarrow> (bool \<times> server) res" where
  "Start failure s =
     (let s1 = waitForClientConnection s
      in case failure of
           Some what \<Rightarrow> Inr (False, say (''[SERVER] ERROR: '' @ what) s1)
         | None \<Rightarrow>
             if io_thread s1 then Inl Std_terminate
             else Inr (True, say ''[SERVER]: Server started.'' (s1\<lparr>io_thread := True\<rparr>)))"

definition Stop :: "server \<Rightarrow> bool \<times> server" where
  "Stop s = (True, say ''[SERVER]: Server stopped.'' (s\<lparr>io_stopped := True, io_thread := False\<rparr>))"

text \<open>
  The handler of \<open>async_accept\<close>. \<open>ec\<close> is the error message, if any; \<open>endpoint\<close> what
  \<open>sock.remote_endpoint()\<close> prints, or \<open>None\<close> when that call throws (the peer is gone
  already): nobody catches the exception, and the thread that runs the I/O context ends
  the program. \<open>clock\<close> and \<open>hs_in\<close> are the arguments of \<open>new_connection\<close>.
\<close>

definition on_accept ::
  "server_methods \<Rightarrow> string option \<Rightarrow> string option \<Rightarrow> u64 \<Rightarrow> u64 \<Rightarrow> server \<Rightarrow> server res" where
  "on_accept vt ec endpoint clock hs_in s =
     (case ec of
        Some message \<Rightarrow>
          Inr (waitForClientConnection (say (''[SERVER]: ERROR with establishing a new connection: '' @ message) s))
      | None \<Rightarrow>
          (case endpoint of
             None \<Rightarrow> Inl Std_terminate
           | Some ep \<Rightarrow>
               let s1 = say (''[SERVER]: A new connection was established: '' @ ep) s;
                   r = length (links s1);
                   s2 = s1\<lparr>links := links s1 @ [fresh_link (new_connection Owner_server True clock hs_in) []]\<rparr>
               in bind_res (onClientConnect vt r s2) (\<lambda>(ok, s3).
                    if ok then
                      let s4 = say ''[SERVER]: Connection is valid - connection is active now!'' s3;
                          s5 = s4\<lparr>connectionsQueue := connectionsQueue s4 @ [Some r]\<rparr>;
                          s6 = call_ConnectToClient r (idCounter s5) s5;
                          s7 = s6\<lparr>idCounter := idCounter s6 + 1, approved := approved s6 @ [r]\<rparr>;
                          s8 = say (''[CLIENT '' @ dec_nat (unat (client_id s7 r)) @ ''] connection approved'') s7
                      in Inr (waitForClientConnection s8)
                    else Inr (waitForClientConnection (say ''[SERVER]: The server denied the connection!'' s3)))))"

text \<open>
  \<open>std::remove\<close> and \<open>erase\<close> take the pointers out that equal the local
  \<open>client_connection\<close>, which was reset before and is null.
\<close>

definition sendMessageToClient ::
  "server_methods \<Rightarrow> conn_ref option \<Rightarrow> message \<Rightarrow> server \<Rightarrow> server res" where
  "sendMessageToClient vt client_connection msg_to_send s =
     (if is_live s client_connection
      then Inr (call_SendData (the client_connection) msg_to_send s)
      else bind_res (onClientDisconnect vt client_connection s) (\<lambda>s1.
             let client_connection = None
             in Inr (s1\<lparr>connectionsQueue := removeAll client_connection (connectionsQueue s1)\<rparr>)))"

text \<open>The loop over the connections, by position; the flag says that one was reset.\<close>

primrec send_loop ::
  "server_methods \<Rightarrow> message \<Rightarrow> conn_ref option \<Rightarrow> nat list \<Rightarrow> bool \<Rightarrow> server \<Rightarrow> (bool \<times> server) res" where
  "send_loop vt m ignore_client [] flag s = Inr (flag, s)"
| "send_loop vt m ignore_client (i # is) flag s =
     (let connIt = connectionsQueue s ! i
      in if is_live s connIt
         then send_loop vt m ignore_client is flag
                (if connIt \<noteq> ignore_client then call_SendData (the connIt) m s else s)
         else bind_res (onClientDisconnect vt connIt s) (\<lambda>s1.
                send_loop vt m ignore_client is True
                  (s1\<lparr>connectionsQueue := (connectionsQueue s1)[i := None]\<rparr>)))"

definition sendMessageToAllClients ::
  "server_methods \<Rightarrow> message \<Rightarrow> conn_ref option \<Rightarrow> server \<Rightarrow> server res" where
  "sendMessageToAllClients vt msg_to_send ignore_client s =
     bind_res (send_loop vt msg_to_send ignore_client [0..<length (connectionsQueue s)] False s)
       (\<lambda>(invalidClientExistFlag, s1).
          Inr (if invalidClientExistFlag
               then s1\<lparr>connectionsQueue := removeAll None (connectionsQueue s1)\<rparr> else s1))"

text \<open>One turn of the loop of \<open>update\<close>, and the loop with the number of turns that are left.\<close>

definition process_message :: "server_methods \<Rightarrow> server \<Rightarrow> server res" where
  "process_message vt s =
     bind_res (popFront (inMsgQueue s)) (\<lambda>(om, q). onMessage vt (remote om) (msg om) (s\<lparr>inMsgQueue := q\<rparr>))"

primrec update_loop :: "server_methods \<Rightarrow> nat \<Rightarrow> server \<Rightarrow> server res" where
  "update_loop vt 0 s = Inr s"
| "update_loop vt (Suc n) s =
     (if \<not> isEmpty (inMsgQueue s) then bind_res (process_message vt s) (update_loop vt n) else Inr s)"

text \<open>
  \<open>update\<close>; \<open>None\<close> is a call that blocks in \<open>wait()\<close>. It blocks on an empty queue; and it may
  sleep on with an element there, when the test of \<open>wait\<close> found none and the notification of the
  element came before the sleep (\<open>Ts_Queue_Threads\<close> has the run). \<open>overslept\<close> says that this has happened.
\<close>

definition update :: "server_methods \<Rightarrow> bool \<Rightarrow> u64 \<Rightarrow> bool \<Rightarrow> server \<Rightarrow> server res option" where
  "update vt overslept numMaxMessages enable_waiting s =
     (if enable_waiting \<and> (isEmpty (inMsgQueue s) \<or> overslept) then None
      else Some (update_loop vt (unat numMaxMessages) s))"

end
