(* ===== verification/Net_Server_Run.thy ===== *)
theory Net_Server_Run
  imports Net_Server
begin

text \<open>
  The server at work: its step relation (a new client, a step of one of its connections, one
  turn of \<open>update\<close>), the invariant of its queues, and the contracts of the virtual methods
  under which its operations do not fail. Steps of the I/O thread and of the thread that
  calls \<open>update\<close> are interleaved as wholes; the code shares \<open>connectionsQueue_\<close> between the
  two threads without a lock, so finer interleavings are data races in C++.
\<close>

section \<open>The invariant\<close>

definition link_ok :: "conn_ref \<Rightarrow> link \<Rightarrow> bool" where
  "link_ok r l \<longleftrightarrow> write_inv l \<and> read_inv r l \<and> owner (conn l) = Owner_server"

definition srv_inv :: "server \<Rightarrow> bool" where
  "srv_inv s \<longleftrightarrow>
     (\<forall>r. Some r \<in> set (connectionsQueue s) \<longrightarrow> r < length (links s)) \<and>
     (\<forall>om \<in> set (data_queue (inMsgQueue s)). \<exists>r. remote om = Some r \<and> r < length (links s)) \<and>
     (\<forall>r < length (links s). link_ok r (links s ! r))"

definition no_null :: "server \<Rightarrow> bool" where
  "no_null s \<longleftrightarrow> None \<notin> set (connectionsQueue s)"

lemma link_ok_step: "link_step r l l' \<Longrightarrow> link_ok r l \<Longrightarrow> link_ok r l'"
  using step_fixed [of r l l']
  by (auto simp: link_ok_def fixed_part_def intro: write_inv_step read_inv_step)

lemma link_ok_fresh: "link_ok r (fresh_link (new_connection Owner_server True clock hs_in) ms)"
  by (auto simp: link_ok_def fresh_link_def new_connection_def empty_queue_def write_inv_def write_view_def
      write_ok_view.simps idle_start read_inv_def recv_short intro!: read_phase.stopped)

lemma link_ok_server: "link_ok r (server_link u_id clock hs_in ms)"
  using server_fixed [of u_id clock hs_in ms]
  by (simp add: link_ok_def write_inv_server read_inv_server fixed_part_def)

text \<open>A message posted to a connection.\<close>

definition post :: "message \<Rightarrow> link \<Rightarrow> link" where
  "post m l = apply_effects (snd (SendData m (conn l))) l"

lemma call_SendData_eq: "call_SendData r m s = s\<lparr>links := (links s)[r := post m (links s ! r)]\<rparr>"
  by (simp add: call_SendData_def on_link_def post_def SendData_def)

lemma conn_post [simp]: "conn (post m l) = conn l"
  by (simp add: post_def)

lemma link_ok_post: "link_ok r l \<Longrightarrow> link_ok r (post m l)"
  unfolding post_def by (rule link_ok_step [OF link_step.send])

primrec post_to :: "message \<Rightarrow> conn_ref option list \<Rightarrow> link list \<Rightarrow> link list" where
  "post_to m [] ls = ls"
| "post_to m (p # ps) ls = post_to m ps (ls[the p := post m (ls ! the p)])"

lemma length_post_to [simp]: "length (post_to m ps ls) = length ls"
  by (induction ps arbitrary: ls) auto

lemma post_to_append: "post_to m (ps @ qs) ls = post_to m qs (post_to m ps ls)"
  by (induction ps arbitrary: ls) auto

lemma conn_post_to [simp]: "r < length ls \<Longrightarrow> conn (post_to m ps ls ! r) = conn (ls ! r)"
proof (induction ps arbitrary: ls)
  case (Cons p ps)
  then show ?case by (cases "the p = r") auto
qed simp

lemma post_to_nth:
  "r < length ls \<Longrightarrow> distinct ps \<Longrightarrow> None \<notin> set ps \<Longrightarrow>
     post_to m ps ls ! r = (if Some r \<in> set ps then post m (ls ! r) else ls ! r)"
proof (induction ps arbitrary: ls)
  case (Cons p ps)
  then obtain x where "p = Some x" by (cases p) auto
  with Cons show ?case by (cases "x = r") auto
qed simp

lemma link_ok_post_to:
  "\<forall>r < length ls. link_ok r (ls ! r) \<Longrightarrow> \<forall>r < length ls. link_ok r (post_to m ps ls ! r)"
proof (induction ps arbitrary: ls)
  case (Cons p ps)
  have "\<forall>r < length ls. link_ok r (ls[the p := post m (ls ! the p)] ! r)"
  proof (intro allI impI)
    fix r assume "r < length ls"
    with Cons.prems show "link_ok r (ls[the p := post m (ls ! the p)] ! r)"
      by (cases "the p = r") (auto intro: link_ok_post)
  qed
  with Cons.IH [of "ls[the p := post m (ls ! the p)]"] show ?case by simp
qed simp

definition live_in :: "link list \<Rightarrow> conn_ref option \<Rightarrow> bool" where
  "live_in ls p = (case p of None \<Rightarrow> False | Some r \<Rightarrow> IsConnected (conn (ls ! r)))"

lemma is_live_live_in: "is_live s = live_in (links s)"
  by (simp add: is_live_def live_in_def fun_eq_iff)

lemma conn_update [simp]: "conn (ls[r := post m (ls ! r)] ! i) = conn (ls ! i)"
  by (cases "r < length ls"; cases "r = i") (auto simp: list_update_beyond)

lemma live_in_update [simp]: "live_in (ls[r := post m (ls ! r)]) = live_in ls"
  by (auto simp: live_in_def fun_eq_iff split: option.splits)

section \<open>Contracts of the virtual methods\<close>

text \<open>\<open>onClientDisconnect\<close> is told about a connection that exists, and only reports it.\<close>

locale reporting_logic =
  fixes vt :: server_methods
  assumes disconnect_reports: "r < length (links s) \<Longrightarrow>
     \<exists>lines. onClientDisconnect vt (Some r) s = Inr (s\<lparr>console := console s @ lines\<rparr>)"
begin

lemma send_loop_result:
  assumes "connectionsQueue s = pre @ ps" "None \<notin> set ps" "\<forall>r. Some r \<in> set ps \<longrightarrow> r < length (links s)"
  shows "\<exists>lines. send_loop vt m ig [length pre..<length pre + length ps] flag s =
     Inr (flag \<or> list_ex (\<lambda>p. \<not> live_in (links s) p) ps,
          s\<lparr>connectionsQueue := pre @ map (\<lambda>p. if live_in (links s) p then p else None) ps,
            links := post_to m (filter (\<lambda>p. live_in (links s) p \<and> p \<noteq> ig) ps) (links s),
            console := console s @ lines\<rparr>)"
  using assms
proof (induction ps arbitrary: pre flag s)
  case Nil
  then show ?case by (intro exI [of _ "[]"]) simp
next
  case (Cons p ps)
  then obtain r where p: "p = Some r" "r < length (links s)" by (cases p) auto
  have up: "[length pre..<length pre + length (p # ps)] =
      length pre # [length (pre @ [p])..<length (pre @ [p]) + length ps]"
    by (simp add: upt_rec)
  have qi: "connectionsQueue s ! length pre = p" using Cons.prems by simp
  show ?case
  proof (cases "live_in (links s) p")
    case True
    let ?s = "if p \<noteq> ig then call_SendData r m s else s"
    have 1: "connectionsQueue ?s = (pre @ [p]) @ ps" "None \<notin> set ps"
      "\<forall>r. Some r \<in> set ps \<longrightarrow> r < length (links ?s)"
      and 2: "console ?s = console s" "live_in (links ?s) = live_in (links s)"
      using Cons.prems by (auto simp: call_SendData_eq)
    from Cons.IH [OF 1, of flag] obtain lines where *:
      "send_loop vt m ig [length (pre @ [p])..<length (pre @ [p]) + length ps] flag ?s =
       Inr (flag \<or> list_ex (\<lambda>p. \<not> live_in (links ?s) p) ps,
         ?s\<lparr>connectionsQueue := (pre @ [p]) @ map (\<lambda>p. if live_in (links ?s) p then p else None) ps,
            links := post_to m (filter (\<lambda>p. live_in (links ?s) p \<and> p \<noteq> ig) ps) (links ?s),
            console := console ?s @ lines\<rparr>)" by blast
    have "the p = r" using p by simp
    with * True show ?thesis
      unfolding up send_loop.simps Let_def qi 2 \<open>the p = r\<close>
      by (intro exI [of _ lines]) (cases "p = ig"; simp add: is_live_live_in call_SendData_eq \<open>the p = r\<close>)
  next
    case False
    from disconnect_reports [OF p(2)] obtain out where
      out: "onClientDisconnect vt p s = Inr (s\<lparr>console := console s @ out\<rparr>)" using p by blast
    let ?s = "s\<lparr>console := console s @ out, connectionsQueue := (pre @ [None]) @ ps\<rparr>"
    have 1: "connectionsQueue ?s = (pre @ [None]) @ ps" "None \<notin> set ps"
      "\<forall>r. Some r \<in> set ps \<longrightarrow> r < length (links ?s)" using Cons.prems by auto
    from Cons.IH [OF this, of True] obtain lines where
      "send_loop vt m ig [length (pre @ [None])..<length (pre @ [None]) + length ps] True ?s =
       Inr (True, ?s\<lparr>connectionsQueue := (pre @ [None]) @ map (\<lambda>p. if live_in (links ?s) p then p else None) ps,
            links := post_to m (filter (\<lambda>p. live_in (links ?s) p \<and> p \<noteq> ig) ps) (links ?s),
            console := console ?s @ lines\<rparr>)" by auto
    with False out Cons.prems(1) show ?thesis
      unfolding up send_loop.simps Let_def qi
      by (intro exI [of _ "out @ lines"]) (simp add: is_live_live_in)
  qed
qed

text \<open>
  A message to all: the live connections, the ignored one aside, get it posted in the order
  of the queue; the others are reported and dropped.
\<close>

lemma send_all_result:
  assumes "no_null s" "\<forall>r. Some r \<in> set (connectionsQueue s) \<longrightarrow> r < length (links s)"
  shows "\<exists>lines. sendMessageToAllClients vt m ig s =
     Inr (s\<lparr>connectionsQueue := filter (is_live s) (connectionsQueue s),
            links := post_to m (filter (\<lambda>p. is_live s p \<and> p \<noteq> ig) (connectionsQueue s)) (links s),
            console := console s @ lines\<rparr>)"
proof -
  let ?q = "connectionsQueue s" and ?live = "live_in (links s)"
  have filt: "removeAll None (map (\<lambda>p. if ?live p then p else None) ps) = filter ?live ps"
    if "None \<notin> set ps" for ps using that by (induction ps) auto
  have same: "map (\<lambda>p. if ?live p then p else None) ps = filter ?live ps"
    if "\<not> list_ex (\<lambda>p. \<not> ?live p) ps" for ps using that by (induction ps) auto
  from send_loop_result [of s "[]" ?q m ig False] assms obtain lines where
    "send_loop vt m ig [0..<length ?q] False s = Inr (list_ex (\<lambda>p. \<not> ?live p) ?q,
       s\<lparr>connectionsQueue := map (\<lambda>p. if ?live p then p else None) ?q,
         links := post_to m (filter (\<lambda>p. ?live p \<and> p \<noteq> ig) ?q) (links s), console := console s @ lines\<rparr>)"
    by (auto simp: no_null_def)
  then show ?thesis
    using filt [of ?q] same [of ?q] assms(1)
    by (intro exI [of _ lines]) (auto simp: sendMessageToAllClients_def is_live_live_in no_null_def)
qed

lemma send_one_result:
  assumes "r < length (links s)" "no_null s"
  shows "\<exists>lines. sendMessageToClient vt (Some r) m s =
     Inr (if is_live s (Some r) then call_SendData r m s else s\<lparr>console := console s @ lines\<rparr>)"
proof (cases "is_live s (Some r)")
  case True
  then show ?thesis by (simp add: sendMessageToClient_def)
next
  case False
  from disconnect_reports [OF assms(1)] obtain out where
    "onClientDisconnect vt (Some r) s = Inr (s\<lparr>console := console s @ out\<rparr>)" by blast
  with False assms(2) show ?thesis
    by (intro exI [of _ out]) (simp add: sendMessageToClient_def no_null_def)
qed

end


text \<open>
  What the server expects of the other methods: \<open>onClientConnect\<close> may only send to the new
  client; \<open>onMessage\<close> and \<open>onClientValidated\<close> keep the invariant, leave the incoming queue
  alone, may drop connections, and change connections only by posting to them.
\<close>

definition calls_only_send :: "server \<Rightarrow> server \<Rightarrow> bool" where
  "calls_only_send s s' \<longleftrightarrow>
     inMsgQueue s' = inMsgQueue s \<and> idCounter s' = idCounter s \<and> approved s' = approved s \<and>
     (\<exists>P. connectionsQueue s' = filter P (connectionsQueue s)) \<and>
     length (links s') = length (links s) \<and>
     (\<forall>r < length (links s). conn (links s' ! r) = conn (links s ! r))"

locale server_logic = reporting_logic +
  assumes connect_sends: "r < length (links s) \<Longrightarrow> links s ! r = fresh_link c [] \<Longrightarrow>
     \<exists>b ms lines. onClientConnect vt r s =
       Inr (b, s\<lparr>links := (links s)[r := fresh_link c ms], console := console s @ lines\<rparr>)"
    and message_ok: "srv_inv s \<Longrightarrow> no_null s \<Longrightarrow> r < length (links s) \<Longrightarrow>
     \<exists>s'. onMessage vt (Some r) m s = Inr s' \<and> srv_inv s' \<and> no_null s' \<and> calls_only_send s s'"
    and validated_ok: "srv_inv s \<Longrightarrow> no_null s \<Longrightarrow> r < length (links s) \<Longrightarrow>
     \<exists>s'. onClientValidated vt r s = Inr s' \<and> srv_inv s' \<and> no_null s' \<and> calls_only_send s s'"

lemma filter_exists [simp]: "\<exists>P. xs = filter P xs"
  by (rule exI [of _ "\<lambda>_. True"]) simp

section \<open>Steps\<close>

text \<open>
  A step of connection \<open>r\<close> to \<open>l'\<close>, seen from the server: messages handed over in it go to
  the incoming queue, and a validation is reported.
\<close>

definition absorb :: "server_methods \<Rightarrow> conn_ref \<Rightarrow> link \<Rightarrow> server \<Rightarrow> server res" where
  "absorb vt r l' s =
     (let l = links s ! r;
          arrived = drop (length (delivered l)) (delivered l');
          s1 = s\<lparr>links := (links s)[r := l'], inMsgQueue := push_list pushBack arrived (inMsgQueue s)\<rparr>
      in if validations l < validations l' then onClientValidated vt r s1 else Inr s1)"

inductive srv_step :: "server_methods \<Rightarrow> server \<Rightarrow> server \<Rightarrow> bool" for vt :: server_methods where
  accept: "accepting s = Suc n \<Longrightarrow>
     on_accept vt ec (Some ep) clock hs_in (s\<lparr>accepting := n\<rparr>) = Inr s' \<Longrightarrow> srv_step vt s s'"
| connection: "r < length (links s) \<Longrightarrow> link_step r (links s ! r) l' \<Longrightarrow>
     absorb vt r l' s = Inr s' \<Longrightarrow> srv_step vt s s'"
| process: "\<not> isEmpty (inMsgQueue s) \<Longrightarrow> process_message vt s = Inr s' \<Longrightarrow> srv_step vt s s'"

inductive srv_reach :: "server_methods \<Rightarrow> u32 \<Rightarrow> server \<Rightarrow> bool" for vt :: server_methods and id0 :: u32 where
  init: "Start None (new_server id0) = Inr (b, s) \<Longrightarrow> srv_reach vt id0 s"
| step: "srv_reach vt id0 s \<Longrightarrow> srv_step vt s s' \<Longrightarrow> srv_reach vt id0 s'"

text \<open>What a new connection is, after \<open>ConnectToClient\<close>.\<close>

lemma call_ConnectToClient_fresh:
  "links s ! r = fresh_link (new_connection Owner_server True clock hs_in) ms \<Longrightarrow>
     call_ConnectToClient r u_id s = s\<lparr>links := (links s)[r := server_link u_id clock hs_in ms]\<rparr>"
  by (simp add: call_ConnectToClient_def on_link_def server_link_def fresh_link_def case_prod_beta)

lemma server_link_id: "conn_id (conn (server_link u_id clock hs_in ms)) = u_id"
  by (simp add: run_defs)

lemma handle_id: "handle self ev c = Inr (c', es) \<Longrightarrow> conn_id c' = conn_id c"
  by (cases "(self, ev, c)" rule: handle.cases)
    (auto simp: handler_defs store_defs Let_def bind_res_Inr_iff split: if_splits)

lemma fire_id: "fire self ev l = Inr l' \<Longrightarrow> conn_id (conn l') = conn_id (conn l)"
  by (auto simp: fire_def bind_res_Inr_iff dest: handle_id)

lemma step_id: "link_step self l l' \<Longrightarrow> conn_id (conn l') = conn_id (conn l)"
  by (induction rule: link_step.induct) (auto dest!: fire_id simp: link_state_defs)

section \<open>Identifiers\<close>

definition ids_ok :: "u32 \<Rightarrow> server \<Rightarrow> bool" where
  "ids_ok id0 s \<longleftrightarrow>
     idCounter s = id0 + word_of_nat (length (approved s)) \<and> distinct (approved s) \<and>
     set (connectionsQueue s) \<subseteq> Some ` set (approved s) \<and> distinct (connectionsQueue s) \<and>
     (\<forall>r \<in> set (approved s). r < length (links s)) \<and>
     (\<forall>i < length (approved s). client_id s (approved s ! i) = id0 + word_of_nat i)"

text \<open>The whole invariant, and the steps that only post messages.\<close>

definition srv_ok :: "u32 \<Rightarrow> server \<Rightarrow> bool" where
  "srv_ok id0 s \<longleftrightarrow> srv_inv s \<and> no_null s \<and> ids_ok id0 s"

lemma client_id_links: "client_id s r = conn_id (conn (links s ! r))"
  by (simp add: client_id_def getID_def)

lemma ids_ok_send: "calls_only_send s s' \<Longrightarrow> ids_ok id0 s \<Longrightarrow> ids_ok id0 s'"
  by (auto simp: calls_only_send_def ids_ok_def client_id_links dest: nth_mem)

lemma ids_ok_cong:
  "ids_ok id0 s \<Longrightarrow> idCounter s' = idCounter s \<Longrightarrow> approved s' = approved s \<Longrightarrow>
     connectionsQueue s' = connectionsQueue s \<Longrightarrow> length (links s) \<le> length (links s') \<Longrightarrow>
     (\<forall>r < length (links s). conn_id (conn (links s' ! r)) = conn_id (conn (links s ! r))) \<Longrightarrow> ids_ok id0 s'"
  by (auto simp: ids_ok_def client_id_links dest: nth_mem intro: less_le_trans)

lemma ids_ok_approve:
  assumes "ids_ok id0 s" "r = length (links s)" "idCounter s' = idCounter s + 1"
    and "approved s' = approved s @ [r]" "connectionsQueue s' = connectionsQueue s @ [Some r]"
    and "links s' = links s @ [l]" "conn_id (conn l) = idCounter s"
  shows "ids_ok id0 s'"
proof -
  have "client_id s' (approved s' ! i) = id0 + word_of_nat i" if i: "i < length (approved s')" for i
  proof (cases "i < length (approved s)")
    case True
    then have "approved s ! i < length (links s)" using assms(1) by (auto simp: ids_ok_def)
    with True assms(1,4,6) show ?thesis by (auto simp: ids_ok_def client_id_links nth_append)
  next
    case False
    with i have "i = length (approved s)" using assms(4) by simp
    with assms show ?thesis by (simp add: ids_ok_def client_id_links nth_append)
  qed
  with assms show ?thesis by (auto simp: ids_ok_def)
qed

lemma srv_inv_extend:
  assumes "srv_inv s" "links s' = links s @ [l]" "link_ok (length (links s)) l"
    and "inMsgQueue s' = inMsgQueue s"
    and "set (connectionsQueue s') \<subseteq> insert (Some (length (links s))) (set (connectionsQueue s))"
  shows "srv_inv s'"
proof -
  have "link_ok r (links s' ! r)" if "r < length (links s')" for r
    using assms(1-3) that by (cases "r = length (links s)") (auto simp: srv_inv_def nth_append)
  with assms show ?thesis by (fastforce simp: srv_inv_def less_Suc_eq)
qed

context server_logic
begin

lemma accept_result:
  obtains (refused) ms lines where
    "on_accept vt None (Some ep) clock hs_in s =
       Inr (s\<lparr>links := links s @ [fresh_link (new_connection Owner_server True clock hs_in) ms],
              console := lines, accepting := Suc (accepting s)\<rparr>)"
  | (granted) ms lines where
    "on_accept vt None (Some ep) clock hs_in s =
       Inr (s\<lparr>links := links s @ [server_link (idCounter s) clock hs_in ms],
              connectionsQueue := connectionsQueue s @ [Some (length (links s))],
              idCounter := idCounter s + 1, approved := approved s @ [length (links s)],
              console := lines, accepting := Suc (accepting s)\<rparr>)"
proof -
  let ?c = "new_connection Owner_server True clock hs_in" and ?r = "length (links s)"
  define s2 where "s2 = (say (''[SERVER]: A new connection was established: '' @ ep) s)
      \<lparr>links := links s @ [fresh_link ?c []]\<rparr>"
  have "?r < length (links s2)" "links s2 ! ?r = fresh_link ?c []" by (simp_all add: s2_def)
  from connect_sends [OF this] obtain b ms lines where call:
    "onClientConnect vt ?r s2 =
       Inr (b, s2\<lparr>links := (links s2)[?r := fresh_link ?c ms], console := console s2 @ lines\<rparr>)" by blast
  define out where
    "out = (case on_accept vt None (Some ep) clock hs_in s of Inl e \<Rightarrow> [] | Inr s' \<Rightarrow> console s')"
  show thesis
  proof (cases b)
    case True
    let ?s4 = "(say ''[SERVER]: Connection is valid - connection is active now!''
        (s2\<lparr>links := (links s2)[?r := fresh_link ?c ms], console := console s2 @ lines\<rparr>))"
    have "call_ConnectToClient ?r (idCounter s) (?s4\<lparr>connectionsQueue := connectionsQueue s @ [Some ?r]\<rparr>) =
       ?s4\<lparr>connectionsQueue := connectionsQueue s @ [Some ?r],
          links := links s @ [server_link (idCounter s) clock hs_in ms]\<rparr>"
      by (subst call_ConnectToClient_fresh [of _ _ clock hs_in ms]) (simp_all add: say_def s2_def)
    then have "on_accept vt None (Some ep) clock hs_in s =
       Inr (s\<lparr>links := links s @ [server_link (idCounter s) clock hs_in ms],
              connectionsQueue := connectionsQueue s @ [Some ?r],
              idCounter := idCounter s + 1, approved := approved s @ [?r],
              console := out, accepting := Suc (accepting s)\<rparr>)"
      using True call by (simp add: out_def on_accept_def Let_def s2_def say_def waitForClientConnection_def)
    then show thesis using granted by blast
  next
    case False
    with call have "on_accept vt None (Some ep) clock hs_in s =
       Inr (s\<lparr>links := links s @ [fresh_link ?c ms],
              console := out, accepting := Suc (accepting s)\<rparr>)"
      by (simp add: out_def on_accept_def Let_def s2_def say_def waitForClientConnection_def)
    then show thesis using refused by blast
  qed
qed

lemma accept_ok:
  assumes "srv_ok id0 s"
  shows "\<exists>s'. on_accept vt ec (Some ep) clock hs_in s = Inr s' \<and> srv_ok id0 s'"
proof (cases ec)
  case (Some message)
  let ?s = "waitForClientConnection (say (''[SERVER]: ERROR with establishing a new connection: '' @ message) s)"
  have "srv_ok id0 ?s"
    using assms by (simp add: srv_ok_def srv_inv_def no_null_def ids_ok_def client_id_links
        waitForClientConnection_def say_def)
  with Some show ?thesis by (simp add: on_accept_def)
next
  case None
  have inv: "srv_inv s" "no_null s" "ids_ok id0 s" using assms by (simp_all add: srv_ok_def)
  show ?thesis
  proof (rule accept_result [of ep clock hs_in s])
    fix ms lines
    let ?s = "s\<lparr>links := links s @ [fresh_link (new_connection Owner_server True clock hs_in) ms],
              console := lines, accepting := Suc (accepting s)\<rparr>"
    assume "on_accept vt None (Some ep) clock hs_in s = Inr ?s"
    moreover have "srv_inv ?s" by (rule srv_inv_extend [OF inv(1) _ link_ok_fresh]) auto
    moreover have "ids_ok id0 ?s" by (rule ids_ok_cong [OF inv(3)]) (auto simp: nth_append)
    ultimately show ?thesis using None inv(2) by (simp add: srv_ok_def no_null_def)
  next
    fix ms lines
    let ?s = "s\<lparr>links := links s @ [server_link (idCounter s) clock hs_in ms],
              connectionsQueue := connectionsQueue s @ [Some (length (links s))],
              idCounter := idCounter s + 1, approved := approved s @ [length (links s)],
              console := lines, accepting := Suc (accepting s)\<rparr>"
    assume "on_accept vt None (Some ep) clock hs_in s = Inr ?s"
    moreover have "srv_inv ?s" by (rule srv_inv_extend [OF inv(1) _ link_ok_server]) auto
    moreover have "ids_ok id0 ?s"
      by (rule ids_ok_approve [OF inv(3) refl, where l = "server_link (idCounter s) clock hs_in ms"])
        (simp_all add: server_link_id)
    ultimately show ?thesis using None inv(2) by (simp add: srv_ok_def no_null_def)
  qed
qed

lemma absorb_ok:
  assumes ok: "srv_ok id0 s" and r: "r < length (links s)" and st: "link_step r (links s ! r) l'"
  shows "\<exists>s'. absorb vt r l' s = Inr s' \<and> srv_ok id0 s'"
proof -
  let ?arrived = "drop (length (delivered (links s ! r))) (delivered l')"
  let ?s = "s\<lparr>links := (links s)[r := l'], inMsgQueue := push_list pushBack ?arrived (inMsgQueue s)\<rparr>"
  have inv: "srv_inv s" "no_null s" "ids_ok id0 s" using ok by (simp_all add: srv_ok_def)
  have l': "link_ok r l'" using link_ok_step [OF st] inv(1) r by (simp add: srv_inv_def)
  then have mine: "remote om = Some r" if "om \<in> set ?arrived" for om
    using that by (auto simp: link_ok_def read_inv_def dest: in_set_dropD)
  have "link_ok i (links ?s ! i)" if "i < length (links ?s)" for i
    using l' inv(1) that by (cases "i = r") (auto simp: srv_inv_def)
  moreover have "\<exists>i. remote om = Some i \<and> i < length (links ?s)"
    if om: "om \<in> set (data_queue (inMsgQueue ?s))" for om
  proof (cases "om \<in> set ?arrived")
    case True
    with mine r show ?thesis by auto
  next
    case False
    with om inv(1) show ?thesis by (auto simp: tsq.contents_push_list srv_inv_def)
  qed
  ultimately have "srv_inv ?s" using inv(1) by (simp add: srv_inv_def)
  moreover have "no_null ?s" using inv(2) by (simp add: no_null_def)
  moreover have ids: "ids_ok id0 ?s"
    using step_id [OF st] by (intro ids_ok_cong [OF inv(3)]) (auto simp: nth_list_update r)
  ultimately show ?thesis
    using validated_ok [of ?s r] r ids_ok_send [of ?s _ id0] by (auto simp: absorb_def Let_def srv_ok_def)
qed

lemma process_ok:
  assumes ok: "srv_ok id0 s" and ne: "data_queue (inMsgQueue s) = om # oms"
  shows "\<exists>s'. process_message vt s = Inr s' \<and> srv_ok id0 s' \<and> data_queue (inMsgQueue s') = oms"
proof -
  let ?s = "s\<lparr>inMsgQueue := (inMsgQueue s)\<lparr>data_queue := oms\<rparr>\<rparr>"
  have inv: "srv_inv ?s" "no_null ?s" "ids_ok id0 ?s"
    using ok ne by (auto simp: srv_ok_def srv_inv_def no_null_def ids_ok_def client_id_links)
  obtain r where r: "remote om = Some r" "r < length (links ?s)"
    using ok ne by (auto simp: srv_ok_def srv_inv_def)
  from message_ok [OF inv(1,2) r(2), of "msg om"] obtain s' where
    "onMessage vt (Some r) (msg om) ?s = Inr s'" "srv_inv s'" "no_null s'" "calls_only_send ?s s'" by blast
  moreover from this(4) have "ids_ok id0 s'" using inv(3) by (rule ids_ok_send)
  ultimately show ?thesis
    using ne r by (auto simp: process_message_def srv_ok_def calls_only_send_def)
qed

lemma update_loop_ok:
  "srv_ok id0 s \<Longrightarrow> \<exists>s'. update_loop vt n s = Inr s' \<and> srv_ok id0 s' \<and>
     data_queue (inMsgQueue s') = drop n (data_queue (inMsgQueue s))"
proof (induction n arbitrary: s)
  case (Suc n)
  show ?case
  proof (cases "data_queue (inMsgQueue s)")
    case Nil
    with Suc.prems show ?thesis by (simp add: isEmpty_def)
  next
    case (Cons om oms)
    from process_ok [OF Suc.prems Cons] obtain s1 where
      "process_message vt s = Inr s1" "srv_ok id0 s1" "data_queue (inMsgQueue s1) = oms" by blast
    with Suc.IH [of s1] Cons show ?thesis by (auto simp: isEmpty_def)
  qed
qed simp

lemma start_ok: "Start None (new_server id0) = Inr (b, s) \<Longrightarrow> srv_ok id0 s"
  by (auto simp: Start_def Let_def new_server_def waitForClientConnection_def say_def srv_ok_def
      srv_inv_def no_null_def ids_ok_def empty_queue_def)

lemma step_ok: "srv_step vt s s' \<Longrightarrow> srv_ok id0 s \<Longrightarrow> srv_ok id0 s'"
proof (induction rule: srv_step.induct)
  case (accept s n ec ep clock hs_in s')
  then have "srv_ok id0 (s\<lparr>accepting := n\<rparr>)"
    by (simp add: srv_ok_def srv_inv_def no_null_def ids_ok_def client_id_links)
  from accept_ok [OF this, of ec ep clock hs_in] accept show ?case by auto
next
  case (connection r s l' s')
  with absorb_ok show ?case by fastforce
next
  case (process s s')
  then obtain om oms where "data_queue (inMsgQueue s) = om # oms"
    by (cases "data_queue (inMsgQueue s)") (auto simp: isEmpty_def)
  from process_ok [OF process(3) this] process(2) show ?case by auto
qed

lemma reach_ok: "srv_reach vt id0 s \<Longrightarrow> srv_ok id0 s"
  by (induction rule: srv_reach.induct) (auto intro: start_ok step_ok)

lemma reach_update:
  assumes "srv_reach vt id0 s"
  shows "\<exists>s'. update_loop vt n s = Inr s' \<and> srv_ok id0 s' \<and>
     data_queue (inMsgQueue s') = drop n (data_queue (inMsgQueue s))"
  using reach_ok [OF assms] by (rule update_loop_ok)

text \<open>Identifiers are handed out in order, so they differ until the counter comes round.\<close>

lemma reach_ids_distinct:
  assumes "srv_reach vt id0 s" "length (approved s) \<le> 2 ^ 32"
  shows "distinct (map (client_id s) (approved s))"
proof -
  have ids: "ids_ok id0 s" using reach_ok [OF assms(1)] by (simp add: srv_ok_def)
  have "word_of_nat i \<noteq> (word_of_nat j :: u32)" if "i < j" "j < length (approved s)" for i j
    using that assms(2) by (simp add: word_of_nat_eq_iff take_bit_nat_eq_self)
  then have "client_id s (approved s ! i) \<noteq> client_id s (approved s ! j)"
    if "i < j" "j < length (approved s)" for i j
    using ids that by (auto simp: ids_ok_def)
  then show ?thesis
    by (simp add: distinct_conv_nth) (metis nat_neq_iff)
qed

end

end
