(* ===== verification/Custom_Server.thy ===== *)
theory Custom_Server
  imports Net_Server_Run
begin

text \<open>
  \<open>CustomServerLogic\<close> of \<open>src/custom_server.cpp\<close>: the message types, the virtual methods it
  overrides, and the main loop, which calls \<open>update(-1, true)\<close> for ever.
\<close>

section \<open>Message types\<close>

datatype CustomMsgTypes = ServerAccept | ServerDeny | ServerPing | MessageAll | ServerMessage

fun type_id :: "CustomMsgTypes \<Rightarrow> u32" where
  "type_id ServerAccept = 0"
| "type_id ServerDeny = 1"
| "type_id ServerPing = 2"
| "type_id MessageAll = 3"
| "type_id ServerMessage = 4"

lemma type_id_inj [simp]: "type_id t = type_id t' \<longleftrightarrow> t = t'"
  by (cases t; cases t') simp_all

text \<open>The relational operators of a scoped enumeration compare the underlying values.\<close>

instantiation CustomMsgTypes :: linorder
begin

definition less_eq_CustomMsgTypes :: "CustomMsgTypes \<Rightarrow> CustomMsgTypes \<Rightarrow> bool" where
  "t \<le> t' \<longleftrightarrow> type_id t \<le> type_id t'"

definition less_CustomMsgTypes :: "CustomMsgTypes \<Rightarrow> CustomMsgTypes \<Rightarrow> bool" where
  "t < t' \<longleftrightarrow> type_id t < type_id t'"

instance
  by standard (auto simp: less_eq_CustomMsgTypes_def less_CustomMsgTypes_def less_le)

end

section \<open>The overridden methods\<close>

definition accept_message :: message where
  "accept_message = set_id (type_id ServerAccept) empty_message"

definition custom_onClientConnect :: "conn_ref \<Rightarrow> server \<Rightarrow> (bool \<times> server) res" where
  "custom_onClientConnect client_ptr s = Inr (True, call_SendData client_ptr accept_message s)"

definition custom_onClientDisconnect :: "conn_ref option \<Rightarrow> server \<Rightarrow> server res" where
  "custom_onClientDisconnect client_ptr s =
     (case client_ptr of
        None \<Rightarrow> Inl UB_NullDeref
      | Some r \<Rightarrow> Inr (say (''Removing client ['' @ dec_nat (unat (client_id s r)) @ '']'') s))"

text \<open>The methods that \<open>sendMessageToAllClients\<close>, called from \<open>onMessage\<close>, may call back.\<close>

definition custom_reporting :: server_methods where
  "custom_reporting = base_methods
     \<lparr>onClientConnect := custom_onClientConnect, onClientDisconnect := custom_onClientDisconnect\<rparr>"

definition all_message :: "u32 \<Rightarrow> message" where
  "all_message i = push_data (set_id (type_id MessageAll) empty_message) (le_bytes 4 i)"

definition custom_onMessage :: "conn_ref option \<Rightarrow> message \<Rightarrow> server \<Rightarrow> server res" where
  "custom_onMessage client msg_input s =
     (if hdr_id (header msg_input) = type_id ServerPing then
        (case client of
           None \<Rightarrow> Inl UB_NullDeref
         | Some r \<Rightarrow>
             Inr (call_SendData r msg_input
               (say (''['' @ dec_nat (unat (client_id s r)) @ '']: Server ping'') s)))
      else if hdr_id (header msg_input) = type_id MessageAll then
        (case client of
           None \<Rightarrow> Inl UB_NullDeref
         | Some r \<Rightarrow>
             let s1 = say (''['' @ dec_nat (unat (client_id s r)) @ '']: Message all'') s
             in sendMessageToAllClients custom_reporting (all_message (client_id s1 r)) client s1)
      else Inr s)"

definition custom_methods :: server_methods where
  "custom_methods = custom_reporting\<lparr>onMessage := custom_onMessage\<rparr>"

text \<open>One turn of the loop in \<open>main\<close>; \<open>-1\<close> is the largest \<open>size_t\<close>.\<close>

definition main_turn :: "bool \<Rightarrow> server \<Rightarrow> server res option" where
  "main_turn overslept = update custom_methods overslept (-1) True"

section \<open>The contracts\<close>

lemma fresh_post: "post m (fresh_link c ms) = fresh_link c (ms @ [m])"
  by (simp add: post_def SendData_def fresh_link_def)

lemma say_links [simp]:
  "links (say x s) = links s" "connectionsQueue (say x s) = connectionsQueue s"
  "client_id (say x s) = client_id s" "is_live (say x s) = is_live s" "no_null (say x s) = no_null s"
  "srv_inv (say x s) = srv_inv s"
  by (simp_all add: say_def client_id_def is_live_def no_null_def srv_inv_def fun_eq_iff split: option.split)

lemma reports_custom:
  "\<exists>lines. custom_onClientDisconnect (Some r) s = Inr (s\<lparr>console := console s @ lines\<rparr>)"
  by (auto simp: custom_onClientDisconnect_def say_def)

interpretation custom_rep: reporting_logic custom_reporting
  by unfold_locales (simp add: custom_reporting_def reports_custom)

lemma connect_custom:
  "r < length (links s) \<Longrightarrow> links s ! r = fresh_link c [] \<Longrightarrow>
     \<exists>b ms lines. custom_onClientConnect r s =
       Inr (b, s\<lparr>links := (links s)[r := fresh_link c ms], console := console s @ lines\<rparr>)"
  by (intro exI [of _ True] exI [of _ "[accept_message]"] exI [of _ "[]"])
    (simp add: custom_onClientConnect_def call_SendData_eq fresh_post)

lemma validated_base:
  "srv_inv s \<Longrightarrow> no_null s \<Longrightarrow>
     \<exists>s'. onClientValidated base_methods r s = Inr s' \<and> srv_inv s' \<and> no_null s' \<and> calls_only_send s s'"
  by (simp add: base_methods_def calls_only_send_def) (simp add: say_def)

lemma srv_inv_post_to:
  assumes "srv_inv s" "set q \<subseteq> set (connectionsQueue s)"
  shows "srv_inv (s\<lparr>connectionsQueue := q, links := post_to m ps (links s), console := out\<rparr>)"
  using assms link_ok_post_to [of "links s" m ps] by (auto simp: srv_inv_def)

text \<open>A message to all clients, as \<open>onMessage\<close> sends it.\<close>

lemma message_all_result:
  assumes "srv_inv s" "no_null s" "hdr_id (header m) = type_id MessageAll"
  obtains out where "custom_onMessage (Some r) m s =
     Inr (s\<lparr>connectionsQueue := filter (is_live s) (connectionsQueue s),
            links := post_to (all_message (client_id s r))
              (filter (\<lambda>p. is_live s p \<and> p \<noteq> Some r) (connectionsQueue s)) (links s),
            console := out\<rparr>)"
proof -
  let ?s = "say (''['' @ dec_nat (unat (client_id s r)) @ '']: Message all'') s"
  have "no_null ?s" "\<forall>r. Some r \<in> set (connectionsQueue ?s) \<longrightarrow> r < length (links ?s)"
    using assms(1,2) by (simp_all add: srv_inv_def)
  from custom_rep.send_all_result [OF this, of "all_message (client_id s r)" "Some r"] obtain lines where
    "sendMessageToAllClients custom_reporting (all_message (client_id s r)) (Some r) ?s =
     Inr (?s\<lparr>connectionsQueue := filter (is_live s) (connectionsQueue s),
            links := post_to (all_message (client_id s r))
              (filter (\<lambda>p. is_live s p \<and> p \<noteq> Some r) (connectionsQueue s)) (links s),
            console := console ?s @ lines\<rparr>)" by auto
  with assms(3) that show thesis
    by (simp add: custom_onMessage_def Let_def) (simp add: say_def)
qed

lemma message_custom:
  assumes "srv_inv s" "no_null s" "r < length (links s)"
  shows "\<exists>s'. custom_onMessage (Some r) m s = Inr s' \<and> srv_inv s' \<and> no_null s' \<and> calls_only_send s s'"
proof (cases "hdr_id (header m) = type_id MessageAll")
  case True
  from message_all_result [OF assms(1,2) this, of r] obtain out where
    "custom_onMessage (Some r) m s =
     Inr (s\<lparr>connectionsQueue := filter (is_live s) (connectionsQueue s),
            links := post_to (all_message (client_id s r))
              (filter (\<lambda>p. is_live s p \<and> p \<noteq> Some r) (connectionsQueue s)) (links s),
            console := out\<rparr>)" .
  then show ?thesis
    using assms by (auto simp: srv_inv_post_to calls_only_send_def no_null_def)
next
  case False
  show ?thesis
  proof (cases "hdr_id (header m) = type_id ServerPing")
    case True
    let ?s = "call_SendData r m (say (''['' @ dec_nat (unat (client_id s r)) @ '']: Server ping'') s)"
    have *: "?s = s\<lparr>connectionsQueue := connectionsQueue s, links := post_to m [Some r] (links s),
        console := console s @ [''['' @ dec_nat (unat (client_id s r)) @ '']: Server ping'']\<rparr>"
      by (simp add: call_SendData_eq say_def)
    have "srv_inv ?s" unfolding * by (rule srv_inv_post_to [OF assms(1)]) simp
    moreover have "no_null ?s \<and> calls_only_send s ?s"
      using assms(2) by (simp add: call_SendData_eq no_null_def calls_only_send_def) (simp add: say_def)
    ultimately show ?thesis using True by (simp add: custom_onMessage_def)
  next
    case False
    with \<open>hdr_id (header m) \<noteq> type_id MessageAll\<close> assms show ?thesis
      by (simp add: custom_onMessage_def calls_only_send_def)
  qed
qed

interpretation base: server_logic base_methods
proof unfold_locales
  show "\<exists>lines. onClientDisconnect base_methods (Some r) s = Inr (s\<lparr>console := console s @ lines\<rparr>)" for r s
    by (intro exI [of _ "[]"]) (simp add: base_methods_def)
  show "\<exists>b ms lines. onClientConnect base_methods r s =
       Inr (b, s\<lparr>links := (links s)[r := fresh_link c ms], console := console s @ lines\<rparr>)"
    if "r < length (links s)" "links s ! r = fresh_link c []" for r s c
  proof -
    have "(links s)[r := fresh_link c []] = links s" using that(2) by (metis list_update_id)
    then show ?thesis by (intro exI [of _ False] exI [of _ "[]"]) (simp add: base_methods_def)
  qed
qed (simp_all add: base_methods_def calls_only_send_def say_def srv_inv_def no_null_def)

interpretation custom: server_logic custom_methods
  by unfold_locales
    (use reports_custom connect_custom message_custom validated_base in
      \<open>simp_all add: custom_methods_def custom_reporting_def base_methods_def\<close>)

section \<open>Properties\<close>

text \<open>
  C13: the custom server does not fail in its own code. In every state it can reach, with any
  clients and any traffic, \<open>update\<close> blocks exactly if it is told to wait and no message is
  there or the wake-up was lost; otherwise it runs without an error (no null pointer, no element of an
  empty queue) and takes off the queue as many messages as it is allowed to, the oldest first; and so
  does one turn of \<open>main\<close>. The handler of an accept runs without an error unless the accept succeeded
  and the endpoint of the peer cannot be read any more; then, and only then, it ends the program.
\<close>

theorem custom_server_never_fails:
  assumes "srv_reach custom_methods id0 s"
  shows "(update custom_methods overslept n w s = None \<longleftrightarrow> w \<and> (isEmpty (inMsgQueue s) \<or> overslept)) \<and>
    (\<forall>r. update custom_methods overslept n w s = Some r \<longrightarrow>
       (\<exists>s'. r = Inr s' \<and> data_queue (inMsgQueue s') = drop (unat n) (data_queue (inMsgQueue s)))) \<and>
    (\<forall>e. on_accept custom_methods ec ep clock hs_in s = Inl e \<longleftrightarrow> ec = None \<and> ep = None \<and> e = Std_terminate)"
proof -
  have "on_accept custom_methods ec ep clock hs_in s = Inl e \<longleftrightarrow> ec = None \<and> ep = None \<and> e = Std_terminate" for e
  proof (cases "ec = None \<and> ep = None")
    case True
    then show ?thesis by (auto simp: on_accept_def)
  next
    case False
    then have "\<exists>s'. on_accept custom_methods ec ep clock hs_in s = Inr s'"
      using custom.accept_ok [OF custom.reach_ok [OF assms], of ec _ clock hs_in]
      by (cases ec; cases ep) (auto simp: on_accept_def)
    with False show ?thesis by auto
  qed
  with custom.reach_update [OF assms, of "unat n"] show ?thesis by (auto simp: update_def)
qed

lemma started: "\<exists>s. Start None (new_server id0) = Inr (True, s) \<and> links s = [] \<and>
    connectionsQueue s = [] \<and> idCounter s = id0 \<and> accepting s = 1 \<and> inMsgQueue s = empty_queue"
  by (simp add: Start_def Let_def new_server_def waitForClientConnection_def say_def)

theorem custom_server_never_fails_witness:
  "\<exists>s. srv_reach custom_methods 10000 s \<and> main_turn False s = None \<and>
     on_accept custom_methods None None 42 0 s = Inl Std_terminate"
proof -
  from started [of 10000] obtain s where
    s: "Start None (new_server 10000) = Inr (True, s)" "inMsgQueue s = empty_queue" by blast
  then have r: "srv_reach custom_methods 10000 s" by (blast intro: srv_reach.init)
  from custom_server_never_fails [OF r, of False "-1" True None None 42 0] s(2)
  have "main_turn False s = None \<and> on_accept custom_methods None None 42 0 s = Inl Std_terminate"
    by (simp add: main_turn_def isEmpty_def)
  with r show ?thesis by blast
qed

text \<open>
  C20: identifiers. The connections a server approves get consecutive identifiers, starting
  with the value the uninitialised counter had; so up to the 2^32-th approval no two of
  them are equal.
\<close>

theorem client_ids_unique:
  assumes "srv_reach custom_methods id0 s" "length (approved s) \<le> 2 ^ 32"
  shows "map (client_id s) (approved s) = map (\<lambda>i. id0 + word_of_nat i) [0..<length (approved s)] \<and>
    distinct (map (client_id s) (approved s))"
proof
  have "ids_ok id0 s" using custom.reach_ok [OF assms(1)] by (simp add: srv_ok_def)
  then show "map (client_id s) (approved s) = map (\<lambda>i. id0 + word_of_nat i) [0..<length (approved s)]"
    by (intro nth_equalityI) (simp_all add: ids_ok_def)
qed (rule custom.reach_ids_distinct [OF assms])

lemma one_client:
  "\<exists>s l. srv_reach custom_methods id0 s \<and> links s = [l] \<and> approved s = [0] \<and> connectionsQueue s = [Some 0] \<and>
     l = server_link id0 clock hs_in [accept_message] \<and> inMsgQueue s = empty_queue \<and> accepting s = 1"
proof -
  from started [of id0] obtain s where s: "Start None (new_server id0) = Inr (True, s)" "links s = []"
    "connectionsQueue s = []" "idCounter s = id0" "accepting s = 1" "inMsgQueue s = empty_queue" by blast
  then have r: "srv_reach custom_methods id0 s" and ap: "approved s = []"
    by (auto intro: srv_reach.init simp: Start_def Let_def new_server_def waitForClientConnection_def say_def)
  have cl: "call_ConnectToClient 0 id0 (t\<lparr>links := [fresh_link (new_connection Owner_server True clock hs_in) [accept_message]]\<rparr>) =
      t\<lparr>links := [server_link id0 clock hs_in [accept_message]]\<rparr>" for t :: server
    by (subst call_ConnectToClient_fresh [where clock = clock and hs_in = hs_in and ms = "[accept_message]"]) simp_all
  let ?s = "s\<lparr>accepting := 0\<rparr>"
  obtain s' where s': "on_accept custom_methods None (Some ''peer'') clock hs_in ?s = Inr s'"
    "links s' = [server_link id0 clock hs_in [accept_message]]" "approved s' = [0]"
    "connectionsQueue s' = [Some 0]" "inMsgQueue s' = empty_queue" "accepting s' = 1"
    using s ap fresh_post [of accept_message _ "[]"] cl
    by (simp add: on_accept_def custom_methods_def custom_reporting_def custom_onClientConnect_def Let_def
        call_SendData_eq call_ConnectToClient_def on_link_def server_link_def fresh_link_def
        waitForClientConnection_def say_def case_prod_beta post_def SendData_def)
  have "srv_step custom_methods s s'" using s(5) s'(1) by (intro srv_step.accept [of s 0]) simp_all
  with r have "srv_reach custom_methods id0 s'" by (rule srv_reach.step)
  with s' show ?thesis by blast
qed

theorem client_ids_unique_witness:
  "\<exists>s. srv_reach custom_methods 10000 s \<and> map (client_id s) (approved s) = [10000]"
proof -
  from one_client [of 10000 42 0] obtain s where
    "srv_reach custom_methods 10000 s" "approved s = [0]" by blast
  then show ?thesis using client_ids_unique [of 10000 s] by (intro exI [of _ s]) simp
qed

text \<open>
  C12: a message to all clients. When a message of this type is processed, each other client
  that is still connected gets one message posted, which carries the sender's
  identifier; the sender and the disconnected clients get none, and the disconnected
  ones are taken out of the queue, the order of the others kept. The identifier survives
  the transfer, whatever the receiver's buffer held.
\<close>

theorem message_all_effect:
  assumes "srv_reach custom_methods id0 s" "hdr_id (header m) = type_id MessageAll"
  shows "\<exists>s'. onMessage custom_methods (Some r) m s = Inr s' \<and>
     connectionsQueue s' = filter (is_live s) (connectionsQueue s) \<and>
     (\<forall>i < length (links s). links s' ! i =
        (if Some i \<in> set (connectionsQueue s) \<and> is_live s (Some i) \<and> i \<noteq> r
         then post (all_message (client_id s r)) (links s ! i) else links s ! i)) \<and>
     (\<forall>tmp. \<exists>m'. pop_data 4 (received tmp (all_message (client_id s r))) = Inr (m', le_bytes 4 (client_id s r)))"
proof -
  have ok: "srv_inv s" "no_null s" and "distinct (connectionsQueue s)"
    using custom.reach_ok [OF assms(1)] by (simp_all add: srv_ok_def ids_ok_def)
  let ?to = "filter (\<lambda>p. is_live s p \<and> p \<noteq> Some r) (connectionsQueue s)"
  have "distinct ?to" "None \<notin> set ?to" using \<open>distinct (connectionsQueue s)\<close> by (auto simp: is_live_def)
  note posted = post_to_nth [OF _ this, of _ "links s" "all_message (client_id s r)"]
  have carried: "\<exists>m'. pop_data 4 (received tmp (all_message (client_id s r))) = Inr (m', le_bytes 4 (client_id s r))" for tmp
    using value_survives [of "le_bytes 4 (client_id s r)" tmp "type_id MessageAll"]
    by (simp add: all_message_def)
  show ?thesis
    by (rule message_all_result [OF ok assms(2), of r])
      (use posted carried in \<open>auto simp: custom_methods_def\<close>)
qed

theorem message_all_effect_witness:
  "\<exists>s s'. srv_reach custom_methods 10000 s \<and>
     onMessage custom_methods (Some 0) (set_id 3 empty_message) s = Inr s' \<and>
     connectionsQueue s' = [Some 0] \<and> links s' ! 0 = links s ! 0"
proof -
  from one_client [of 10000 42 0] obtain s l where
    s: "srv_reach custom_methods 10000 s" "links s = [l]" "connectionsQueue s = [Some 0]"
      "l = server_link 10000 42 0 [accept_message]" by blast
  have "is_live s (Some 0)" using s(2,4) by (simp add: is_live_def IsConnected_def run_defs)
  moreover have "hdr_id (header (set_id 3 empty_message)) = type_id MessageAll" by (simp add: set_id_def)
  ultimately show ?thesis
    using message_all_effect [OF s(1), of "set_id 3 empty_message" 0] s by fastforce
qed

text \<open>
  \<open>sendMessageToClient\<close> does not do what its comments say with a client that is gone:
  the pointer is reset before the queue is searched for it, so what is removed are null
  pointers and the dead connection stays in the queue, for ever unless there is a message
  to all. And a null pointer, which the guard lets through to \<open>onClientDisconnect\<close>, is
  dereferenced there by the custom server.
\<close>

theorem dead_client_stays:
  assumes "srv_reach custom_methods id0 s" "\<not> is_live s (Some r)" "r < length (links s)"
  shows "(\<exists>s'. sendMessageToClient custom_methods (Some r) m s = Inr s' \<and>
      connectionsQueue s' = connectionsQueue s \<and> links s' = links s) \<and>
    sendMessageToClient custom_methods None m s = Inl UB_NullDeref"
proof -
  have "no_null s" using custom.reach_ok [OF assms(1)] by (simp add: srv_ok_def)
  from custom.send_one_result [OF assms(3) this, of m] assms(2) have
    "\<exists>s'. sendMessageToClient custom_methods (Some r) m s = Inr s' \<and>
      connectionsQueue s' = connectionsQueue s \<and> links s' = links s" by auto
  moreover have "sendMessageToClient custom_methods None m s = Inl UB_NullDeref"
    by (simp add: sendMessageToClient_def is_live_def custom_methods_def custom_reporting_def
        custom_onClientDisconnect_def)
  ultimately show ?thesis by blast
qed

text \<open>Runs of one connection are runs of the server.\<close>

lemma delivered_apply: "\<exists>new. delivered (apply_effects es l) = delivered l @ new"
proof (induction es arbitrary: l)
  case (Cons e es)
  from Cons [of "apply_effect e l"] show ?case by (cases e) auto
qed simp

lemma fire_delivered: "fire self ev l = Inr l' \<Longrightarrow> \<exists>new. delivered l' = delivered l @ new"
  using delivered_apply [of _ "l\<lparr>conn := _\<rparr>"] by (auto simp: fire_def bind_res_Inr_iff)

lemma step_delivered: "link_step self l l' \<Longrightarrow> \<exists>new. delivered l' = delivered l @ new"
  by (induction rule: link_step.induct) (auto dest!: fire_delivered simp: link_state_defs SendData_def Disconnect_def)

lemma absorb_custom:
  "\<exists>s'. absorb custom_methods r l' s = Inr s' \<and> links s' = (links s)[r := l'] \<and>
     connectionsQueue s' = connectionsQueue s \<and> approved s' = approved s \<and>
     data_queue (inMsgQueue s') = data_queue (inMsgQueue s) @ drop (length (delivered (links s ! r))) (delivered l')"
  by (simp add: absorb_def Let_def custom_methods_def custom_reporting_def base_methods_def
      tsq.contents_push_list) (simp add: say_def tsq.contents_push_list)

lemma lift_run:
  assumes "link_reach r (links s0 ! r) l" "srv_reach custom_methods id0 s0" "r < length (links s0)"
  shows "\<exists>s. srv_reach custom_methods id0 s \<and> links s = (links s0)[r := l] \<and>
     connectionsQueue s = connectionsQueue s0 \<and> approved s = approved s0 \<and>
     (\<exists>new. delivered l = delivered (links s0 ! r) @ new \<and>
        data_queue (inMsgQueue s) = data_queue (inMsgQueue s0) @ new)"
  using assms(1)
proof (induction rule: link_reach.induct)
  case init
  show ?case using assms(2) by (intro exI [of _ s0] conjI exI [of _ "[]"]) simp_all
next
  case (step l l')
  then obtain s new where s: "srv_reach custom_methods id0 s" "links s = (links s0)[r := l]"
    "connectionsQueue s = connectionsQueue s0" "approved s = approved s0"
    "delivered l = delivered (links s0 ! r) @ new"
    "data_queue (inMsgQueue s) = data_queue (inMsgQueue s0) @ new" by blast
  from step_delivered [OF step.hyps(2)] obtain more where more: "delivered l' = delivered l @ more" ..
  have r: "r < length (links s)" "links s ! r = l" using s(2) assms(3) by simp_all
  from absorb_custom [of r l' s] obtain s' where s': "absorb custom_methods r l' s = Inr s'"
    "links s' = (links s)[r := l']" "connectionsQueue s' = connectionsQueue s" "approved s' = approved s"
    "data_queue (inMsgQueue s') = data_queue (inMsgQueue s) @ drop (length (delivered l)) (delivered l')"
    using r by auto
  have "srv_step custom_methods s s'"
    using r s'(1) step.hyps(2) by (intro srv_step.connection [of r s l']) simp_all
  with s(1) have "srv_reach custom_methods id0 s'" by (rule srv_reach.step)
  with s s' more show ?case by (intro exI [of _ s'] conjI exI [of _ "new @ more"]) simp_all
qed

theorem dead_client_stays_witness:
  "\<exists>s s'. srv_reach custom_methods 10000 s \<and>
     sendMessageToClient custom_methods (Some 0) empty_message s = Inr s' \<and> connectionsQueue s' = [Some 0]"
proof -
  from one_client [of 10000 42 0] obtain s0 l0 where
    s0: "srv_reach custom_methods 10000 s0" "links s0 = [l0]" "connectionsQueue s0 = [Some 0]"
      "l0 = server_link 10000 42 0 [accept_message]" by blast
  have "case run_actions 0 [Fail 1] l0 of None \<Rightarrow> False | Some l \<Rightarrow> \<not> socket_open (conn l)"
    using s0(4) by (simp add: run_defs)
  then obtain l where l: "link_reach 0 l0 l" "\<not> socket_open (conn l)" using run_actions_find by blast
  with lift_run [of 0 s0 l 10000] s0 obtain s where
    s: "srv_reach custom_methods 10000 s" "links s = [l]" "connectionsQueue s = [Some 0]" by auto
  have "\<not> is_live s (Some 0)" using s(2) l(2) by (simp add: is_live_def IsConnected_def)
  from dead_client_stays [OF s(1) this, of empty_message] s show ?thesis by fastforce
qed

text \<open>Is there a \<open>shared_ptr\<close> to a connection left, in the queues of the server?\<close>

definition referenced :: "server \<Rightarrow> conn_ref \<Rightarrow> bool" where
  "referenced s r \<longleftrightarrow> Some r \<in> set (connectionsQueue s) \<or> (\<exists>om \<in> set (data_queue (inMsgQueue s)). remote om = Some r)"

text \<open>
  A connection can lose its last \<open>shared_ptr\<close> while one of its operations is pending. Its
  handlers capture \<open>this\<close> only, so the handler of that operation runs on a destroyed
  object. A client that asks for a message to all and then goes away is enough: its
  connection is dropped while the write of the server's greeting is pending.
\<close>

theorem dropped_while_pending:
  "\<exists>s. srv_reach custom_methods id0 s \<and> 0 < length (links s) \<and> \<not> referenced s 0 \<and>
     (\<exists>bs h. Async_write bs h \<in> set (pending (links s ! 0)))"
proof -
  from one_client [of id0 42 0] obtain s0 l0 where
    s0: "srv_reach custom_methods id0 s0" "links s0 = [l0]" "connectionsQueue s0 = [Some 0]"
      "l0 = server_link id0 42 0 [accept_message]" "inMsgQueue s0 = empty_queue" by blast
  let ?m = "set_id 3 empty_message" and ?g = "le_bytes 8 (encrypt_handshake_data 42)"
  have size: "hdr_size (header ?m) = 0" and same: "tmp\<lparr>header := header ?m\<rparr> = ?m"
    if "payload tmp = []" for tmp :: message
    using that by (simp_all add: set_id_def empty_message_def)
  have "case run_actions 0 [Arrive (?g @ header_bytes (header ?m)), Complete 1, Complete 0, Complete 0, Complete 1, Fail 1] l0 of
      None \<Rightarrow> False
    | Some l \<Rightarrow> \<not> socket_open (conn l) \<and> delivered l = [\<lparr>remote = Some 0, msg = ?m\<rparr>] \<and>
        pending l = [Async_write (header_bytes (header accept_message)) H_WriteHeader]"
    using s0(4) size [of empty_message] same [of empty_message]
    by (simp add: run_defs store_handshake_all front_elem_def empty_queue_def pushBack_def)
  then obtain l where l: "link_reach 0 l0 l" "\<not> socket_open (conn l)" "delivered l = [\<lparr>remote = Some 0, msg = ?m\<rparr>]"
    "pending l = [Async_write (header_bytes (header accept_message)) H_WriteHeader]"
    using run_actions_find by blast
  have "delivered l0 = []" using s0(4) by (simp add: run_defs)
  with lift_run [of 0 s0 l id0] s0 l(1,3) obtain s where
    s: "srv_reach custom_methods id0 s" "links s = [l]" "connectionsQueue s = [Some 0]"
      "data_queue (inMsgQueue s) = [\<lparr>remote = Some 0, msg = ?m\<rparr>]" by (auto simp: empty_queue_def)
  let ?s = "s\<lparr>inMsgQueue := (inMsgQueue s)\<lparr>data_queue := []\<rparr>\<rparr>"
  have ok: "srv_inv ?s" "no_null ?s"
    using custom.reach_ok [OF s(1)] by (simp_all add: srv_ok_def srv_inv_def no_null_def)
  have "\<not> is_live ?s (Some 0)" using s(2) l(2) by (simp add: is_live_def IsConnected_def)
  then have none: "filter (is_live ?s) (connectionsQueue ?s) = []"
    "filter (\<lambda>p. is_live ?s p \<and> p \<noteq> Some 0) (connectionsQueue ?s) = []" using s(3) by simp_all
  have id: "hdr_id (header ?m) = type_id MessageAll" by (simp add: set_id_def)
  obtain s' where s': "custom_onMessage (Some 0) ?m ?s = Inr s'" "connectionsQueue s' = []"
    "links s' = [l]" "data_queue (inMsgQueue s') = []"
  proof (rule message_all_result [OF ok id, of 0])
    fix out
    assume "custom_onMessage (Some 0) ?m ?s = Inr (?s\<lparr>connectionsQueue := filter (is_live ?s) (connectionsQueue ?s),
       links := post_to (all_message (client_id ?s 0))
         (filter (\<lambda>p. is_live ?s p \<and> p \<noteq> Some 0) (connectionsQueue ?s)) (links ?s), console := out\<rparr>)"
    then show thesis unfolding none by (rule that) (simp_all add: s(2))
  qed
  have "srv_step custom_methods s s'"
    using s(4) s'(1) by (intro srv_step.process) (simp_all add: isEmpty_def process_message_def custom_methods_def)
  with s(1) have "srv_reach custom_methods id0 s'" by (rule srv_reach.step)
  with s' l(4) show ?thesis by (auto simp: referenced_def)
qed

end
