(* ===== verification/Net_Client.thy ===== *)
theory Net_Client
  imports End_To_End
begin

text \<open>
  \<open>ClientBaseInterface\<close> of \<open>include/custom_net_lib/net_client.hpp\<close>. The connection objects
  it creates are \<open>objects\<close>, and the \<open>std::unique_ptr\<close> to the current one is its index or
  null; an object that is released is not destroyed. The I/O context runs handlers while
  the thread of \<open>Connect\<close> is in \<open>ioserv_.run()\<close>; \<open>run()\<close> returns at once when the context
  has been stopped, as nobody calls \<open>restart()\<close>. The members \<open>connection_sock_\<close> and
  \<open>end_pt_to_connect_\<close> are not used by any method.
\<close>

section \<open>State and operations\<close>

record client =
  input_message_queue :: "owned_message ts_queue"
  ioserv_stopped :: bool
  thr_joinable :: bool
  thr_running :: bool
  objects :: "link list"
  connection_module :: "conn_ref option"
  console :: "string list"

definition print :: "string \<Rightarrow> client \<Rightarrow> client" where
  "print line c = c\<lparr>console := console c @ [line]\<rparr>"

definition new_client :: client where
  "new_client =
     \<lparr>input_message_queue = empty_queue, ioserv_stopped = False, thr_joinable = False, thr_running = False,
      objects = [], connection_module = None, console = [''The client I/O context is now active.'']\<rparr>"

text \<open>
  \<open>resolved\<close> is the text of the exception when the name cannot be resolved. Assigning a new
  thread to one that is joinable ends the program.
\<close>

definition Connect :: "string option \<Rightarrow> u64 \<Rightarrow> u64 \<Rightarrow> client \<Rightarrow> (bool \<times> client) res" where
  "Connect resolved clock hs_in c =
     (case resolved of
        Some what \<Rightarrow> Inr (False, print (''Client error: '' @ what) c)
      | None \<Rightarrow>
          let r = length (objects c);
              (m, es) = ConnectToServer (new_connection Owner_client False clock hs_in);
              c1 = c\<lparr>objects := objects c @ [apply_effects es (fresh_link m [])], connection_module := Some r\<rparr>;
              c2 = print ''[CLIENT]: Connect to server.'' c1
          in if thr_joinable c2 then Inl Std_terminate
             else Inr (True, c2\<lparr>thr_joinable := True, thr_running := \<not> ioserv_stopped c2\<rparr>))"

definition isConnected :: "client \<Rightarrow> bool" where
  "isConnected c = (case connection_module c of None \<Rightarrow> False | Some r \<Rightarrow> IsConnected (conn (objects c ! r)))"

definition on_object :: "conn_ref \<Rightarrow> (connection \<Rightarrow> connection act) \<Rightarrow> client \<Rightarrow> client" where
  "on_object r f c =
     (let l = objects c ! r; (m, es) = f (conn l)
      in c\<lparr>objects := (objects c)[r := apply_effects es (l\<lparr>conn := m\<rparr>)]\<rparr>)"

definition Send :: "message \<Rightarrow> client \<Rightarrow> client" where
  "Send m c = (if isConnected c then on_object (the (connection_module c)) (SendData m) c else c)"

text \<open>
  \<open>Disconnect\<close> asks the connection to close, stops the context and joins the thread, and
  releases the pointer. The I/O thread may run handlers between the first and the second part.
\<close>

definition Disconnect_request :: "client \<Rightarrow> client" where
  "Disconnect_request c =
     (if isConnected c then on_object (the (connection_module c)) Connection.Disconnect c else c)"

definition Disconnect_stop :: "client \<Rightarrow> client" where
  "Disconnect_stop c =
     print ''Connection stoped!''
       (c\<lparr>ioserv_stopped := True, thr_running := False, thr_joinable := False, connection_module := None\<rparr>)"

definition Disconnect :: "client \<Rightarrow> client" where
  "Disconnect c = Disconnect_stop (Disconnect_request c)"

definition Incoming :: "client \<Rightarrow> owned_message ts_queue" where
  "Incoming c = input_message_queue c"

section \<open>Steps of the I/O thread\<close>

text \<open>A step of a connection object needs the thread; messages it hands over are queued.\<close>

definition take_over :: "conn_ref \<Rightarrow> link \<Rightarrow> client \<Rightarrow> client" where
  "take_over r l' c =
     c\<lparr>objects := (objects c)[r := l'],
       input_message_queue := push_list pushBack
         (drop (length (delivered (objects c ! r))) (delivered l')) (input_message_queue c)\<rparr>"

inductive io_step :: "client \<Rightarrow> client \<Rightarrow> bool" where
  "thr_running c \<Longrightarrow> r < length (objects c) \<Longrightarrow> link_step r (objects c ! r) l' \<Longrightarrow> io_step c (take_over r l' c)"

text \<open>What the program and the I/O thread can do with a client object.\<close>

inductive client_step :: "client \<Rightarrow> client \<Rightarrow> bool" where
  io: "io_step c c' \<Longrightarrow> client_step c c'"
| connect: "Connect resolved clock hs_in c = Inr (b, c') \<Longrightarrow> client_step c c'"
| send: "client_step c (Send m c)"
| disconnect_request: "client_step c (Disconnect_request c)"
| disconnect_stop: "client_step c (Disconnect_stop c)"
| pop: "popFront (Incoming c) = Inr (om, q) \<Longrightarrow> client_step c (c\<lparr>input_message_queue := q\<rparr>)"

inductive client_reach :: "client \<Rightarrow> client \<Rightarrow> bool" for c0 :: client where
  init: "client_reach c0 c0"
| step: "client_reach c0 c \<Longrightarrow> client_step c c' \<Longrightarrow> client_reach c0 c'"

lemma client_reach_invariant:
  "client_reach c0 c \<Longrightarrow> P c0 \<Longrightarrow> (\<And>c c'. client_step c c' \<Longrightarrow> P c \<Longrightarrow> P c') \<Longrightarrow> P c"
  by (induction rule: client_reach.induct) blast+

section \<open>A stopped client stays dead\<close>

lemma on_object_simps [simp]:
  "ioserv_stopped (on_object r f c) = ioserv_stopped c" "thr_running (on_object r f c) = thr_running c"
  "thr_joinable (on_object r f c) = thr_joinable c" "connection_module (on_object r f c) = connection_module c"
  "input_message_queue (on_object r f c) = input_message_queue c"
  "length (objects (on_object r f c)) = length (objects c)"
  by (simp_all add: on_object_def Let_def case_prod_beta)

definition dead :: "nat \<Rightarrow> client \<Rightarrow> bool" where
  "dead n c \<longleftrightarrow> ioserv_stopped c \<and> \<not> thr_running c \<and> length (data_queue (input_message_queue c)) \<le> n"

lemma dead_step: "client_step c c' \<Longrightarrow> dead n c \<Longrightarrow> dead n c'"
proof (induction rule: client_step.induct)
  case (io c c')
  then show ?case by (auto simp: dead_def elim: io_step.cases)
next
  case (connect resolved clock hs_in c b c')
  then show ?case
    by (auto simp: dead_def Connect_def Let_def print_def case_prod_beta split: option.splits if_splits)
next
  case (pop c om q)
  then show ?case by (cases "data_queue (input_message_queue c)") (auto simp: dead_def Incoming_def popFront_def)
qed (auto simp: dead_def Send_def Disconnect_request_def Disconnect_stop_def print_def)

lemma stopped_client:
  assumes "client_reach (Disconnect c) c'"
  shows "\<not> thr_running c' \<and> (\<nexists>c''. io_step c' c'') \<and>
     count (Incoming c') \<le> count (Incoming c)"
proof -
  have "dead (length (data_queue (input_message_queue c))) (Disconnect c)"
    by (simp add: dead_def Disconnect_def Disconnect_stop_def Disconnect_request_def print_def)
  with assms have "dead (length (data_queue (input_message_queue c))) c'"
    by (rule client_reach_invariant) (rule dead_step)
  then show ?thesis by (auto simp: dead_def Incoming_def count_def elim: io_step.cases)
qed

text \<open>
  A client object cannot be used again after \<open>Disconnect\<close>. From then on, whatever the
  program does with it, also a new \<open>Connect\<close> (which reports success), no handler runs: the
  incoming queue never gets another message, and no bytes arrive or leave.
\<close>

theorem no_reconnect:
  assumes "client_reach (Disconnect c) c'"
  shows "\<not> thr_running c' \<and> (\<nexists>c''. io_step c' c'') \<and>
     count (Incoming c') \<le> count (Incoming c)"
  using assms by (rule stopped_client)

text \<open>\<open>Connect\<close> on a new object, and once more.\<close>

definition connected_client :: "u64 \<Rightarrow> u64 \<Rightarrow> client" where
  "connected_client clock hs_in = (case Connect None clock hs_in new_client of Inr (b, c) \<Rightarrow> c | Inl e \<Rightarrow> new_client)"

lemma connected_client_eq:
  "Connect None clock hs_in new_client = Inr (True, connected_client clock hs_in)"
  "objects (connected_client clock hs_in) = [client_link clock hs_in]"
  "connection_module (connected_client clock hs_in) = Some 0"
  "thr_running (connected_client clock hs_in)" "thr_joinable (connected_client clock hs_in)"
  by (simp_all add: connected_client_def Connect_def Let_def case_prod_beta new_client_def print_def client_link_def)

theorem no_reconnect_witness:
  "\<exists>c'. Connect None 0 0 (Disconnect (connected_client 42 0)) = Inr (True, c') \<and>
     isConnected c' \<and> \<not> thr_running c'"
proof -
  let ?c = "Disconnect (connected_client 42 0)"
  have "\<exists>c'. Connect None 0 0 ?c = Inr (True, c') \<and> isConnected c'"
    by (simp add: Connect_def Let_def case_prod_beta Disconnect_def Disconnect_stop_def print_def isConnected_def
        ConnectToServer_def new_connection_def fresh_link_def IsConnected_def)
  then obtain c' where c': "Connect None 0 0 ?c = Inr (True, c')" "isConnected c'" by blast
  then have "client_reach ?c c'" by (blast intro: client_reach.intros client_step.connect)
  from no_reconnect [OF this] c' show ?thesis by blast
qed

text \<open>
  What \<open>Connect\<close> reports. When the name is resolved it returns true, and \<open>isConnected()\<close>
  is true from then on (the socket is open), although the connection is not established:
  \<open>async_connect\<close> is pending and may still fail. A second \<open>Connect\<close> without a \<open>Disconnect\<close>
  in between ends the program, by assigning to a joinable \<open>std::thread\<close>; and when
  \<open>async_connect\<close> fails, nothing closes the socket or tells the program.
\<close>

theorem connect_reports:
  "Connect None clock hs_in new_client = Inr (True, connected_client clock hs_in) \<and>
   isConnected (connected_client clock hs_in) \<and>
   Async_connect \<in> set (pending (objects (connected_client clock hs_in) ! 0)) \<and>
   Connect None clock' hs' (connected_client clock hs_in) = Inl Std_terminate \<and>
   (\<exists>c. io_step (connected_client clock hs_in) c \<and> isConnected c \<and> pending (objects c ! 0) = [])"
proof -
  let ?c = "connected_client clock hs_in" and ?l = "client_link clock hs_in"
  have "\<exists>l'. do_action 0 (Fail 0) ?l = Some l' \<and> socket_open (conn l') \<and> pending l' = []"
    by (simp add: run_defs)
  then obtain l' where l': "link_step 0 ?l l'" "socket_open (conn l')" "pending l' = []"
    using do_action_step by blast
  have "io_step ?c (take_over 0 l' ?c)"
    using l'(1) by (intro io_step.intros) (simp_all add: connected_client_eq)
  moreover have "isConnected (take_over 0 l' ?c) \<and> pending (objects (take_over 0 l' ?c) ! 0) = []"
    using l' by (simp add: take_over_def isConnected_def connected_client_eq IsConnected_def)
  moreover have "Async_connect \<in> set (pending ?l)" "isConnected ?c"
    by (simp_all add: isConnected_def connected_client_eq IsConnected_def run_defs)
  moreover have "Connect None clock' hs' ?c = Inl Std_terminate"
    by (simp add: Connect_def Let_def case_prod_beta print_def connected_client_eq(5))
  ultimately show ?thesis using connected_client_eq(1,2) by auto
qed

text \<open>
  \<open>Disconnect\<close> need not close anything. If the I/O thread runs no handler between the two
  parts of \<open>Disconnect\<close>, the request to close the socket stays pending for ever: the
  object is never destroyed (\<open>release()\<close> gives the pointer away), its socket stays open,
  and no handler runs again, so the peer sees no end of the connection.
\<close>

theorem disconnect_leaks:
  assumes "connection_module c = Some r" "r < length (objects c)" "isConnected c"
  shows "connection_module (Disconnect c) = None \<and>
    socket_open (conn (objects (Disconnect c) ! r)) \<and>
    Post Do_Disconnect \<in> set (pending (objects (Disconnect c) ! r)) \<and>
    (\<forall>c'. client_reach (Disconnect c) c' \<longrightarrow> \<not> thr_running c')"
proof -
  have "\<not> thr_running c'" if "client_reach (Disconnect c) c'" for c'
    using stopped_client [OF that] by simp
  then show ?thesis
    using assms by (auto simp: Disconnect_def Disconnect_stop_def Disconnect_request_def print_def
        isConnected_def IsConnected_def on_object_def Connection.Disconnect_def Let_def)
qed

theorem disconnect_leaks_witness:
  "socket_open (conn (objects (Disconnect (connected_client 42 0)) ! 0))"
proof -
  have "isConnected (connected_client 42 0)"
    by (simp add: isConnected_def connected_client_eq IsConnected_def run_defs)
  from disconnect_leaks [OF connected_client_eq(3) _ this] show ?thesis by (simp add: connected_client_eq)
qed

section \<open>The messages a program sees\<close>

text \<open>The objects keep the invariants of connections, and \<open>Send\<close> and \<open>Disconnect\<close> are steps of them.\<close>

definition object_ok :: "conn_ref \<Rightarrow> link \<Rightarrow> bool" where
  "object_ok r l \<longleftrightarrow> (\<exists>clock hs_in. link_reach r (client_link clock hs_in) l)"

lemma on_object_step:
  "connection_module c = Some r \<Longrightarrow> objects (on_object r (SendData m) c) =
     (objects c)[r := apply_effects (snd (SendData m (conn (objects c ! r)))) (objects c ! r)]"
  "connection_module c = Some r \<Longrightarrow> objects (on_object r Connection.Disconnect c) =
     (objects c)[r := apply_effects (snd (Connection.Disconnect (conn (objects c ! r)))) (objects c ! r)]"
  by (simp_all add: on_object_def Let_def SendData_def Connection.Disconnect_def)

definition client_inv :: "client \<Rightarrow> bool" where
  "client_inv c \<longleftrightarrow> (\<forall>r < length (objects c). object_ok r (objects c ! r)) \<and>
     (\<forall>r. connection_module c = Some r \<longrightarrow> r < length (objects c)) \<and>
     (\<forall>om \<in> set (data_queue (input_message_queue c)). remote om = None)"

lemma object_ok_step: "link_step r l l' \<Longrightarrow> object_ok r l \<Longrightarrow> object_ok r l'"
  by (auto simp: object_ok_def intro: link_reach.step)

lemma object_ok_new: "object_ok r (client_link clock hs_in)"
  by (auto simp: object_ok_def intro: link_reach.init)

lemma object_ok_remote:
  assumes "object_ok r l" "om \<in> set (delivered l)"
  shows "remote om = None"
proof -
  from assms(1) obtain clock hs_in where l: "link_reach r (client_link clock hs_in) l" by (auto simp: object_ok_def)
  then have "read_inv r l" by (intro reached_read_inv by_client)
  moreover have "owner (conn l) = Owner_client"
  proof -
    have "fixed_part l = (Owner_client, 0)" using reach_fixed [OF l] client_fixed by simp
    then show ?thesis by (simp add: fixed_part_def)
  qed
  ultimately show ?thesis using assms(2) by (auto simp: read_inv_def)
qed

lemma client_inv_send:
  assumes "client_inv c"
  shows "client_inv (Send m c)" "client_inv (Disconnect_request c)"
proof -
  have "client_inv (on_object r f c)"
    if "connection_module c = Some r" "f = SendData m \<or> f = Connection.Disconnect" for r f
  proof -
    have r: "r < length (objects c)" using that assms by (simp add: client_inv_def)
    have "object_ok r (objects (on_object r f c) ! r)"
    proof -
      have "object_ok r (objects c ! r)" using assms r by (simp add: client_inv_def)
      note steps = object_ok_step [OF link_step.send this, of m] object_ok_step [OF link_step.disconnect this]
      from that(2) show ?thesis using r steps on_object_step [OF that(1)] by (elim disjE) simp_all
    qed
    moreover have "objects (on_object r f c) ! i = objects c ! i" if "i \<noteq> r" for i
      using that by (simp add: on_object_def Let_def case_prod_beta)
    ultimately show ?thesis using assms by (metis client_inv_def on_object_simps(4,5,6))
  qed
  note on = this
  show "client_inv (Send m c)" "client_inv (Disconnect_request c)"
    using on assms
    by (auto simp: Send_def Disconnect_request_def isConnected_def split: option.splits)
qed

lemma client_inv_step: "client_step c c' \<Longrightarrow> client_inv c \<Longrightarrow> client_inv c'"
proof (induction rule: client_step.induct)
  case (io c c')
  from io(1) obtain r l' where st: "r < length (objects c)" "link_step r (objects c ! r) l'" "c' = take_over r l' c"
    by (auto elim: io_step.cases)
  have ok: "object_ok r l'" using io(2) st by (auto simp: client_inv_def intro: object_ok_step)
  then have "\<forall>om \<in> set (drop n (delivered l')). remote om = None" for n
    using object_ok_remote by (blast dest: in_set_dropD)
  with io(2) ok st show ?case
    by (auto simp: client_inv_def take_over_def tsq.contents_push_list nth_list_update)
next
  case (connect resolved clock hs_in c b c')
  then show ?case
    using object_ok_new [of "length (objects c)" clock hs_in]
    by (auto simp: Connect_def Let_def client_inv_def print_def case_prod_beta nth_append client_link_def
        less_Suc_eq split: option.splits if_splits)
next
  case (pop c om q)
  then show ?case
    by (cases "data_queue (input_message_queue c)") (auto simp: client_inv_def Incoming_def popFront_def)
qed (auto simp: client_inv_send, auto simp: client_inv_def Disconnect_stop_def print_def)

end
