(* ===== verification/Custom_Client.thy ===== *)
theory Custom_Client
  imports Net_Client Custom_Server
begin

text \<open>
  \<open>CustomClient\<close> and the program around it, \<open>src/custom_client.cpp\<close>: the keyboard thread, the
  messages the client sends, what it prints for the messages it gets, one turn of \<open>main\<close>.
\<close>

section \<open>Keyboard\<close>

definition possable_inputs :: "char set" where
  "possable_inputs = {CHR ''a'', CHR ''d'', CHR ''p'', CHR ''m'', CHR ''s'', CHR ''q'', CHR 0x03}"

text \<open>
  The loop over the characters that are typed; the result is the character for the promise,
  the lines printed and the characters left. \<open>None\<close>: the loop does not end (at the end of
  the input \<open>getchar\<close> keeps returning a value outside the set).
\<close>

fun get_keyboard_input :: "string \<Rightarrow> (char \<times> string list \<times> string) option" where
  "get_keyboard_input [] = None"
| "get_keyboard_input (input # rest) =
     (if input \<in> possable_inputs then
        if input = CHR 0x03 then Some (input, [], rest)
        else Some (input, ['' was your input''], rest)
      else map_option (\<lambda>(c, out, left). (c, '' was your input - no action triggered.'' # out, left))
             (get_keyboard_input rest))"

section \<open>Messages\<close>

definition ping_message :: "u64 \<Rightarrow> message" where
  "ping_message now_pc_clock = push_data (set_id (type_id ServerPing) empty_message) (le_bytes 8 now_pc_clock)"

definition PingServer :: "u64 \<Rightarrow> client \<Rightarrow> client" where
  "PingServer now_pc_clock c = Send (ping_message now_pc_clock) c"

definition send_MessageAll :: "client \<Rightarrow> client" where
  "send_MessageAll c = Send (set_id (type_id MessageAll) empty_message) c"

text \<open>
  The line printed for a message from the server. \<open>fmt\<close> prints a difference of two clock
  readings in seconds (the standard library's formatting of a \<open>double\<close>).
\<close>

definition on_server_message :: "(u64 \<Rightarrow> string) \<Rightarrow> u64 \<Rightarrow> message \<Rightarrow> string res" where
  "on_server_message fmt response_time m =
     (if hdr_id (header m) = type_id ServerPing then
        bind_res (pop_data 8 m) (\<lambda>(_, d). Inr (''Ping: '' @ fmt (response_time - of_le_bytes d)))
      else if hdr_id (header m) = type_id MessageAll then
        bind_res (pop_data 4 m) (\<lambda>(_, d). Inr (''Hello from ['' @ dec_nat (unat (of_le_bytes d :: u32)) @ '']''))
      else if hdr_id (header m) = type_id ServerAccept then Inr ''Server accepted connection.''
      else Inr ''Default case!'')"

text \<open>
  One turn of the loop in \<open>main\<close>: \<open>ready\<close> is the character of the future, if it is ready.
  The flag says whether the loop goes on; on return the client object is destroyed.
\<close>

definition main_loop_turn ::
  "(u64 \<Rightarrow> string) \<Rightarrow> u64 \<Rightarrow> char option \<Rightarrow> client \<Rightarrow> (bool \<times> client) res" where
  "main_loop_turn fmt now ready c =
     (case ready of
        Some input_character \<Rightarrow>
          if input_character = CHR ''q'' then Inr (False, Disconnect (print ''quit commend accepted!'' c))
          else if input_character = CHR ''a'' then Inr (True, print ''server accept'' c)
          else if input_character = CHR ''d'' then Inr (True, print ''server deny'' c)
          else if input_character = CHR ''p'' then Inr (True, PingServer now (print ''server ping'' c))
          else if input_character = CHR ''m'' then Inr (True, send_MessageAll (print ''message all'' c))
          else if input_character = CHR ''s'' then Inr (True, print ''server message'' c)
          else if input_character = CHR 0x03 then Inr (False, Disconnect c)
          else Inr (True, print (input_character # '' is not a valid input. Please try again with a, d, p, m or s to interact with the server or quit the program by pressing q.'') c)
      | None \<Rightarrow>
          if isConnected c then
            if \<not> isEmpty (Incoming c) then
              bind_res (popFront (Incoming c)) (\<lambda>(om, q).
                bind_res (on_server_message fmt now (msg om)) (\<lambda>line.
                  Inr (True, print line (c\<lparr>input_message_queue := q\<rparr>))))
            else Inr (True, c)
          else Inr (True, c))"

section \<open>Properties\<close>

text \<open>
  The keyboard thread returns the first character of the input that is one of the seven
  known ones, tells the user about each other character before it, and takes no more
  characters than that; without such a character it never returns.
\<close>

theorem keyboard_first_known:
  "get_keyboard_input cs =
     (case dropWhile (\<lambda>c. c \<notin> possable_inputs) cs of
        [] \<Rightarrow> None
      | c # rest \<Rightarrow>
          Some (c, replicate (length (takeWhile (\<lambda>c. c \<notin> possable_inputs) cs)) '' was your input - no action triggered.'' @
                   (if c = CHR 0x03 then [] else ['' was your input'']), rest))"
proof (induction cs)
  case (Cons c cs)
  then show ?case
    by (cases "c \<in> possable_inputs"; cases "dropWhile (\<lambda>c. c \<notin> possable_inputs) cs")
      (simp_all del: dropWhile_eq_Nil_conv)
qed simp

lemma carries_ping: "carries (ping_message t) (le_bytes 8 t)"
  unfolding ping_message_def by (rule carries_pushed) (simp_all add: numeral_eq_Suc)

lemma carries_all: "carries (all_message i) (le_bytes 4 i)"
  unfolding all_message_def by (rule carries_pushed) (simp_all add: numeral_eq_Suc)

lemma id_ping [simp]: "hdr_id (header (ping_message t)) = type_id ServerPing"
  by (simp add: ping_message_def set_id_def)

lemma id_all [simp]: "hdr_id (header (all_message i)) = type_id MessageAll"
  by (simp add: all_message_def set_id_def)

text \<open>
  The ping makes the round trip. The server, given what its buffer makes of a ping,
  posts the very same message back to the sender; and the client, given what its own buffer
  makes of that, prints the difference between its clock and the reading it had sent.
\<close>

theorem ping_round_trip:
  fixes s :: server
  assumes "r < length (links s)"
  shows "(\<exists>s'. onMessage custom_methods (Some r) (received tmp (ping_message t)) s = Inr s' \<and>
      links s' = (links s)[r := post (received tmp (ping_message t)) (links s ! r)]) \<and>
    on_server_message fmt now (received tmp' (received tmp (ping_message t))) = Inr (''Ping: '' @ fmt (now - t))"
proof
  show "\<exists>s'. onMessage custom_methods (Some r) (received tmp (ping_message t)) s = Inr s' \<and>
      links s' = (links s)[r := post (received tmp (ping_message t)) (links s ! r)]"
    by (simp add: custom_methods_def custom_onMessage_def call_SendData_eq)
next
  have "carries (received tmp' (received tmp (ping_message t))) (le_bytes 8 t)"
    by (intro carries_received carries_ping)
  from carries_pop [OF this] obtain m' where
    "pop_data 8 (received tmp' (received tmp (ping_message t))) = Inr (m', le_bytes 8 t)" by auto
  then show "on_server_message fmt now (received tmp' (received tmp (ping_message t))) = Inr (''Ping: '' @ fmt (now - t))"
    by (simp add: on_server_message_def)
qed

theorem ping_round_trip_witness:
  "on_server_message (\<lambda>d. if d = 8 then [CHR 0x38] else []) 50 (received empty_message (received hello (ping_message 42))) =
     Inr ''Ping: 8''"
proof -
  from one_client [of 10000 42 0] obtain s :: server and l where "links s = [l]" by blast
  then have "0 < length (links s)" by simp
  from ping_round_trip [OF this, of hello 42 "\<lambda>d. if d = 8 then [CHR 0x38] else []" 50 empty_message]
  show ?thesis by simp
qed

text \<open>
  The client prints the identifier that the server put into a message to all, and
  accepts the greeting, whatever its buffer held before.
\<close>

theorem client_reads_server:
  "on_server_message fmt now (received tmp (all_message i)) = Inr (''Hello from ['' @ dec_nat (unat i) @ '']'') \<and>
   on_server_message fmt now (received tmp accept_message) = Inr ''Server accepted connection.''"
proof
  have "carries (received tmp (all_message i)) (le_bytes 4 i)"
    by (intro carries_received carries_all)
  from carries_pop [OF this] obtain m' where
    "pop_data 4 (received tmp (all_message i)) = Inr (m', le_bytes 4 i)" by auto
  then show "on_server_message fmt now (received tmp (all_message i)) = Inr (''Hello from ['' @ dec_nat (unat i) @ '']'')"
    by (simp add: on_server_message_def)
next
  show "on_server_message fmt now (received tmp accept_message) = Inr ''Server accepted connection.''"
    by (simp add: on_server_message_def accept_message_def set_id_def)
qed

text \<open>Too short for the value that is read out of it.\<close>

definition bad_message :: "message \<Rightarrow> bool" where
  "bad_message m \<longleftrightarrow>
     hdr_id (header m) = type_id ServerPing \<and> msg_size m < 8 \<or>
     hdr_id (header m) = type_id MessageAll \<and> msg_size m < 4"

lemma on_server_message_fails:
  "(\<exists>e. on_server_message fmt now m = Inl e) \<longleftrightarrow> bad_message m"
  by (auto simp: on_server_message_def bad_message_def msg_size_def pop_data_def Let_def)

text \<open>
  C36: a turn of the client's main loop goes wrong exactly if no key was pressed, the client
  is connected, and the oldest message claims to be a ping or a message to all but is too
  short for the value in it; nothing in the client checks that. The loop ends on \<open>q\<close>
  and on ctrl-c only.
\<close>

theorem client_turn_fails_iff:
  "((\<exists>e. main_loop_turn fmt now ready c = Inl e) \<longleftrightarrow>
     ready = None \<and> isConnected c \<and>
     (\<exists>om q. popFront (Incoming c) = Inr (om, q) \<and> bad_message (msg om))) \<and>
   ((\<exists>c'. main_loop_turn fmt now ready c = Inr (False, c')) \<longleftrightarrow> ready = Some (CHR ''q'') \<or> ready = Some (CHR 0x03))"
proof -
  have bind: "(\<exists>e. bind_res r f = Inl e) \<longleftrightarrow> (\<exists>e. r = Inl e) \<or> (\<exists>x e. r = Inr x \<and> f x = Inl e)"
    for r :: "'a res" and f :: "'a \<Rightarrow> 'b res"
    by (cases r) auto
  show ?thesis
  proof (cases ready)
    case None
    show ?thesis
    proof (cases "data_queue (Incoming c)")
      case Nil
      with None show ?thesis by (simp add: main_loop_turn_def isEmpty_def popFront_def)
    next
      case (Cons om oms)
      have "(\<exists>e. bind_res (on_server_message fmt now (msg om)) (\<lambda>line. Inr (True, g line)) = Inl e) \<longleftrightarrow> bad_message (msg om)"
        and "bind_res (on_server_message fmt now (msg om)) (\<lambda>line. Inr (True, g line)) \<noteq> Inr (False, c')"
        for g :: "string \<Rightarrow> client" and c'
        using on_server_message_fails [of fmt now "msg om"] by (auto simp: bind bind_res_Inr_iff)
      with None Cons show ?thesis by (simp add: main_loop_turn_def isEmpty_def)
    qed
  next
    case (Some ch)
    then show ?thesis by (simp add: main_loop_turn_def)
  qed
qed

end
