(* ===== verification/Message_Origin.thy ===== *)
theory Message_Origin
  imports Custom_Client
begin

text \<open>
  Where the messages come from that the custom server and the custom client send: of each
  message that one of their connections has accepted for sending, which operation of the
  program made it. Both programs are taken by themselves here; \<open>Network\<close> joins them.
\<close>

section \<open>Accepted messages\<close>

text \<open>The messages a connection has been given to send, written or not.\<close>

definition outgoing :: "link \<Rightarrow> message set" where
  "outgoing l = {m. Msg m \<in> set (items l) \<or> Post (Do_SendData m) \<in> set (pending l)}"

lemma outgoing_apply:
  assumes "\<And>m. Io (Post (Do_SendData m)) \<notin> set es"
  shows "outgoing (apply_effects es l) = outgoing l"
  using assms
proof (induction es arbitrary: l)
  case (Cons e es)
  have "outgoing (apply_effect e l) = outgoing l"
    using Cons.prems by (cases e) (auto simp: outgoing_def split: io_call.splits write_handler.splits)
  with Cons show ?case by auto
qed simp

lemma handle_posts:
  "handle self ev c = Inr (c', es) \<Longrightarrow> Io (Post t) \<notin> set es"
  by (cases "(self, ev, c)" rule: handle.cases)
    (auto simp: handler_defs Let_def bind_res_Inr_iff split: if_splits)

lemma fire_outgoing: "fire self ev l = Inr l' \<Longrightarrow> outgoing l' = outgoing l"
  using handle_posts outgoing_apply [of _ "l\<lparr>conn := _\<rparr>"]
  by (fastforce simp: fire_def bind_res_Inr_iff outgoing_def)

lemma outgoing_post: "outgoing (post m l) = insert m (outgoing l)"
  by (auto simp: post_def SendData_def outgoing_def)

text \<open>
  Only a call of \<open>SendData\<close> gives a connection a new message: each other step leaves the
  accepted messages as they are, and such a step is called quiet.
\<close>

definition quiet :: "link \<Rightarrow> link \<Rightarrow> bool" where
  "quiet l l' \<longleftrightarrow> outgoing l' \<subseteq> outgoing l"

lemma step_quiet_or_send: "link_step self l l' \<Longrightarrow> quiet l l' \<or> (\<exists>m. l' = post m l)"
proof (induction rule: link_step.induct)
  case (send l)
  then show ?case by (auto simp: post_def)
next
  case (disconnect l)
  have "outgoing (apply_effects (snd (Connection.Disconnect (conn l))) l) = outgoing l"
    by (intro outgoing_apply) (simp add: Connection.Disconnect_def)
  then show ?case by (simp add: quiet_def)
next
  case (task l xs t ys l')
  then have "outgoing l' = outgoing (task_state (xs @ ys) t l)" by (blast dest: fire_outgoing)
  with task(1) show ?case by (cases t) (auto simp: quiet_def outgoing_def task_state_def)
qed (auto dest!: fire_outgoing simp: quiet_def outgoing_def link_state_defs)

lemma step_consumed: "link_step self l l' \<Longrightarrow> \<exists>new. consumed l' = consumed l @ new"
proof -
  have effs: "consumed (apply_effects es l) = consumed l" for es l
  proof (induction es arbitrary: l)
    case (Cons e es)
    then show ?case by (cases e) simp_all
  qed simp
  have fire: "fire self ev l = Inr l' \<Longrightarrow> consumed l' = consumed l" for ev l l'
    by (auto simp: fire_def bind_res_Inr_iff effs)
  assume "link_step self l l'"
  then show ?thesis
    by (induction rule: link_step.induct) (auto dest!: fire simp: link_state_defs effs)
qed

section \<open>The server\<close>

text \<open>Steps of the server in which no other code calls \<open>SendData\<close> on its connections.\<close>

inductive quiet_step :: "server \<Rightarrow> server \<Rightarrow> bool" where
  accept: "accepting s = Suc n \<Longrightarrow>
     on_accept custom_methods ec (Some ep) clock hs_in (s\<lparr>accepting := n\<rparr>) = Inr s' \<Longrightarrow> quiet_step s s'"
| connection: "r < length (links s) \<Longrightarrow> link_step r (links s ! r) l' \<Longrightarrow> quiet (links s ! r) l' \<Longrightarrow>
     absorb custom_methods r l' s = Inr s' \<Longrightarrow> quiet_step s s'"
| process: "\<not> isEmpty (inMsgQueue s) \<Longrightarrow> process_message custom_methods s = Inr s' \<Longrightarrow> quiet_step s s'"

lemma quiet_srv_step: "quiet_step s s' \<Longrightarrow> srv_step custom_methods s s'"
  by (induction rule: quiet_step.induct) (auto intro: srv_step.intros)

text \<open>
  A message for connection \<open>r\<close> is the greeting, one to all, for which another connection has handed over the
  request, or a ping that this connection has handed over.
\<close>

definition asked_for_all :: "server \<Rightarrow> conn_ref \<Rightarrow> bool" where
  "asked_for_all s j \<longleftrightarrow> (\<exists>m \<in> msg ` set (delivered (links s ! j)). hdr_id (header m) = type_id MessageAll)"

definition origin :: "server \<Rightarrow> conn_ref \<Rightarrow> message \<Rightarrow> bool" where
  "origin s r m \<longleftrightarrow> m = accept_message \<or>
     (\<exists>j < length (links s). j \<noteq> r \<and> asked_for_all s j \<and> m = all_message (client_id s j)) \<or>
     (m \<in> msg ` set (delivered (links s ! r)) \<and> hdr_id (header m) = type_id ServerPing)"

definition from_link :: "server \<Rightarrow> owned_message \<Rightarrow> bool" where
  "from_link s om \<longleftrightarrow> (\<exists>r < length (links s). remote om = Some r \<and> msg om \<in> msg ` set (delivered (links s ! r)))"

definition origin_ok :: "server \<Rightarrow> bool" where
  "origin_ok s \<longleftrightarrow>
     (\<forall>r < length (links s). (\<forall>m \<in> outgoing (links s ! r). origin s r m) \<and>
        (\<exists>u clock hs_in ms. link_reach r (server_link u clock hs_in ms) (links s ! r))) \<and>
     (\<forall>om \<in> set (data_queue (inMsgQueue s)). from_link s om)"

text \<open>Origins stay valid when connections go on, post, or are added.\<close>

definition extends :: "server \<Rightarrow> server \<Rightarrow> bool" where
  "extends s s' \<longleftrightarrow> length (links s) \<le> length (links s') \<and>
     (\<forall>r < length (links s). set (delivered (links s ! r)) \<subseteq> set (delivered (links s' ! r)) \<and>
        client_id s' r = client_id s r)"

lemma asked_extends: "extends s s' \<Longrightarrow> j < length (links s) \<Longrightarrow> asked_for_all s j \<Longrightarrow> asked_for_all s' j"
  unfolding asked_for_all_def extends_def by (metis image_mono subsetD)

lemma origin_extends: "extends s s' \<Longrightarrow> r < length (links s) \<Longrightarrow> origin s r m \<Longrightarrow> origin s' r m"
  using asked_extends [of s s'] unfolding origin_def extends_def by (metis image_mono less_le_trans subsetD)

lemma from_link_extends: "extends s s' \<Longrightarrow> from_link s om \<Longrightarrow> from_link s' om"
  unfolding from_link_def extends_def by (metis image_mono less_le_trans subsetD)

lemma delivered_post [simp]: "delivered (post m l) = delivered l"
  by (simp add: post_def SendData_def)

lemma client_id_cong: "conn_id (conn (links s' ! r)) = conn_id (conn (links s ! r)) \<Longrightarrow> client_id s' r = client_id s r"
  by (simp add: client_id_links)

text \<open>Messages posted to some connections, each with an origin there.\<close>

lemma origin_ok_posted:
  assumes ok: "origin_ok s" and len: "length (links s') = length (links s)"
    and queue: "set (data_queue (inMsgQueue s')) \<subseteq> set (data_queue (inMsgQueue s))"
    and each: "\<And>r. r < length (links s) \<Longrightarrow> links s' ! r = links s ! r \<or>
      (\<exists>m. links s' ! r = post m (links s ! r) \<and> origin s r m)"
  shows "origin_ok s'"
proof -
  have same: "delivered (links s' ! r) = delivered (links s ! r)" "client_id s' r = client_id s r"
    if "r < length (links s)" for r
    using each [OF that] by (auto intro!: client_id_cong)
  then have ext: "extends s s'" using len by (simp add: extends_def)
  have "origin s' r m" if r: "r < length (links s)" and m: "m \<in> outgoing (links s' ! r)" for r m
  proof -
    from each [OF r] m have "m \<in> outgoing (links s ! r) \<or> origin s r m" by (auto simp: outgoing_post)
    with ok r have "origin s r m" by (auto simp: origin_ok_def)
    with ext r show ?thesis by (rule origin_extends)
  qed
  moreover have "\<exists>u clock hs_in ms. link_reach r (server_link u clock hs_in ms) (links s' ! r)"
    if r: "r < length (links s)" for r
  proof -
    from ok r obtain u clock hs_in ms where "link_reach r (server_link u clock hs_in ms) (links s ! r)"
      by (auto simp: origin_ok_def)
    moreover have "links s' ! r = links s ! r \<or> link_step r (links s ! r) (links s' ! r)"
      using each [OF r] by (auto simp: post_def intro: link_step.send)
    ultimately show ?thesis by (metis link_reach.step)
  qed
  moreover have "from_link s' om" if "om \<in> set (data_queue (inMsgQueue s'))" for om
    using ok queue that from_link_extends [OF ext] by (auto simp: origin_ok_def)
  ultimately show ?thesis using len by (simp add: origin_ok_def)
qed

lemma outgoing_server_link: "outgoing (server_link u_id clock hs_in ms) = set ms"
  by (auto simp: outgoing_def run_defs)

lemma accept_custom:
  assumes "on_accept custom_methods None (Some ep) clock hs_in s = Inr s'"
  shows "links s' = links s @ [server_link (idCounter s) clock hs_in [accept_message]] \<and>
    inMsgQueue s' = inMsgQueue s \<and> accepting s' = Suc (accepting s) \<and>
    connectionsQueue s' = connectionsQueue s @ [Some (length (links s))]"
proof -
  let ?c = "new_connection Owner_server True clock hs_in" and ?r = "length (links s)"
  have 1: "call_SendData ?r accept_message (t\<lparr>links := links s @ [fresh_link ?c []]\<rparr>) =
      t\<lparr>links := links s @ [fresh_link ?c [accept_message]]\<rparr>" for t
    by (simp add: call_SendData_eq fresh_post)
  let ?t = "say (''[SERVER]: A new connection was established: '' @ ep) s"
  let ?u = "(say ''[SERVER]: Connection is valid - connection is active now!''
      (?t\<lparr>links := links s @ [fresh_link ?c [accept_message]]\<rparr>))\<lparr>connectionsQueue := connectionsQueue s @ [Some ?r]\<rparr>"
  have "call_ConnectToClient ?r (idCounter s) ?u = ?u\<lparr>links := links s @ [server_link (idCounter s) clock hs_in [accept_message]]\<rparr>"
    by (subst call_ConnectToClient_fresh [where clock = clock and hs_in = hs_in and ms = "[accept_message]"])
      (simp_all add: say_def)
  moreover have "custom_onClientConnect ?r (?t\<lparr>links := links s @ [fresh_link ?c []]\<rparr>) =
      Inr (True, ?t\<lparr>links := links s @ [fresh_link ?c [accept_message]]\<rparr>)"
    using 1 [of ?t] by (simp add: custom_onClientConnect_def)
  ultimately show ?thesis
    using assms by (simp add: on_accept_def Let_def custom_methods_def custom_reporting_def)
      (auto simp: say_def waitForClientConnection_def)
qed

lemma origin_ok_cong:
  "origin_ok s \<Longrightarrow> links s' = links s \<Longrightarrow> inMsgQueue s' = inMsgQueue s \<Longrightarrow> origin_ok s'"
  by (simp add: origin_ok_def origin_def asked_for_all_def from_link_def client_id_links)

lemma origin_ok_accept:
  assumes ok: "origin_ok s" and acc: "on_accept custom_methods ec (Some ep) clock hs_in s = Inr s'"
  shows "origin_ok s'"
proof (cases ec)
  case (Some message)
  with acc ok show ?thesis by (auto simp: on_accept_def waitForClientConnection_def say_def intro: origin_ok_cong)
next
  case None
  let ?new = "server_link (idCounter s) clock hs_in [accept_message]"
  from accept_custom acc None have s': "links s' = links s @ [?new]" "inMsgQueue s' = inMsgQueue s" by blast+
  have ext: "extends s s'" by (simp add: extends_def s' nth_append client_id_links)
  have "(\<forall>m \<in> outgoing (links s' ! r). origin s' r m) \<and>
      (\<exists>u clock hs_in ms. link_reach r (server_link u clock hs_in ms) (links s' ! r))" if "r < length (links s')" for r
  proof (cases "r < length (links s)")
    case True
    with ok have "\<forall>m \<in> outgoing (links s ! r). origin s r m"
      "\<exists>u clock hs_in ms. link_reach r (server_link u clock hs_in ms) (links s ! r)" by (simp_all add: origin_ok_def)
    with True origin_extends [OF ext True] show ?thesis by (simp add: s' nth_append)
  next
    case False
    with that have r: "links s' ! r = ?new" by (simp add: s' nth_append)
    have "\<forall>m \<in> outgoing ?new. origin s' r m" unfolding outgoing_server_link by (simp add: origin_def)
    with r link_reach.init show ?thesis by metis
  qed
  moreover have "from_link s' om" if "om \<in> set (data_queue (inMsgQueue s'))" for om
    using ok that from_link_extends [OF ext] by (simp add: origin_ok_def s')
  ultimately show ?thesis by (simp add: origin_ok_def)
qed

lemma origin_ok_connection:
  assumes ok: "origin_ok s" "srv_ok id0 s" and r: "r < length (links s)"
    and st: "link_step r (links s ! r) l'" "quiet (links s ! r) l'" and ab: "absorb custom_methods r l' s = Inr s'"
  shows "origin_ok s'"
proof -
  from absorb_custom [of r l' s] ab have s': "links s' = (links s)[r := l']"
    "data_queue (inMsgQueue s') = data_queue (inMsgQueue s) @ drop (length (delivered (links s ! r))) (delivered l')"
    by auto
  from step_delivered [OF st(1)] obtain new where new: "delivered l' = delivered (links s ! r) @ new" ..
  have ext: "extends s s'"
  proof -
    have "set (delivered (links s ! i)) \<subseteq> set (delivered (links s' ! i)) \<and>
        conn_id (conn (links s' ! i)) = conn_id (conn (links s ! i))" if "i < length (links s)" for i
      using new step_id [OF st(1)] that by (cases "i = r") (simp_all add: s')
    then show ?thesis by (simp add: extends_def s'(1) client_id_links)
  qed
  have "(\<forall>m \<in> outgoing (links s' ! i). origin s' i m) \<and>
      (\<exists>u clock hs_in ms. link_reach i (server_link u clock hs_in ms) (links s' ! i))" if i: "i < length (links s)" for i
  proof -
    from ok(1) i have o: "\<forall>m \<in> outgoing (links s ! i). origin s i m"
      "\<exists>u clock hs_in ms. link_reach i (server_link u clock hs_in ms) (links s ! i)" by (simp_all add: origin_ok_def)
    have "outgoing (links s' ! i) \<subseteq> outgoing (links s ! i)"
      using st(2) r by (auto simp: s' nth_list_update quiet_def)
    moreover have "links s' ! i = links s ! i \<or> link_step i (links s ! i) (links s' ! i)"
      using st(1) r by (auto simp: s' nth_list_update)
    ultimately show ?thesis using o origin_extends [OF ext i] by (metis link_reach.step subsetD)
  qed
  moreover have "from_link s' om" if om: "om \<in> set (data_queue (inMsgQueue s'))" for om
  proof (cases "om \<in> set new")
    case True
    have "link_ok r l'" using link_ok_step [OF st(1)] ok(2) r by (simp add: srv_ok_def srv_inv_def)
    then have "remote om = Some r" using True new by (auto simp: link_ok_def read_inv_def)
    with True r new show ?thesis by (auto simp: from_link_def s')
  next
    case False
    with om new have "om \<in> set (data_queue (inMsgQueue s))" by (simp add: s')
    with ok(1) from_link_extends [OF ext] show ?thesis by (simp add: origin_ok_def)
  qed
  ultimately show ?thesis by (simp add: origin_ok_def s')
qed

lemma origin_ok_message:
  assumes ok: "origin_ok s" "srv_inv s" "no_null s" "distinct (connectionsQueue s)"
    and om: "from_link s om" and call: "custom_onMessage (remote om) (msg om) s = Inr s'"
  shows "origin_ok s'"
proof -
  from om obtain r where r: "r < length (links s)" "remote om = Some r" "msg om \<in> msg ` set (delivered (links s ! r))"
    by (auto simp: from_link_def)
  consider (ping) "hdr_id (header (msg om)) = type_id ServerPing"
    | (all) "hdr_id (header (msg om)) = type_id MessageAll"
    | (other) "hdr_id (header (msg om)) \<notin> {type_id ServerPing, type_id MessageAll}" by blast
  then show ?thesis
  proof cases
    case ping
    with call r have s': "links s' = (links s)[r := post (msg om) (links s ! r)]" "inMsgQueue s' = inMsgQueue s"
      by (auto simp: custom_onMessage_def call_SendData_eq say_def)
    have "origin s r (msg om)" using ping r(3) by (simp add: origin_def)
    then show ?thesis using r(1) by (intro origin_ok_posted [OF ok(1)]) (auto simp: s' nth_list_update)
  next
    case all
    let ?to = "filter (\<lambda>p. is_live s p \<and> p \<noteq> Some r) (connectionsQueue s)" and ?m = "all_message (client_id s r)"
    from message_all_result [OF ok(2,3) all, of r] obtain out where
      "custom_onMessage (Some r) (msg om) s = Inr (s\<lparr>connectionsQueue := filter (is_live s) (connectionsQueue s),
         links := post_to ?m ?to (links s), console := out\<rparr>)" .
    with call r(2) have s': "links s' = post_to ?m ?to (links s)" "inMsgQueue s' = inMsgQueue s" by auto
    have to: "distinct ?to" "None \<notin> set ?to" using ok(4) by (auto simp: is_live_def)
    have asked: "asked_for_all s r" using r(3) all by (auto simp: asked_for_all_def)
    have "links s' ! i = links s ! i \<or> (\<exists>m. links s' ! i = post m (links s ! i) \<and> origin s i m)"
      if i: "i < length (links s)" for i
    proof (cases "Some i \<in> set ?to")
      case True
      then have "i \<noteq> r" by auto
      with r(1) asked have "origin s i ?m" by (auto simp: origin_def)
      then show ?thesis unfolding s'(1) post_to_nth [OF i to] using True
        by (intro disjI2 exI [of _ ?m]) simp
    next
      case False
      then have "links s' ! i = links s ! i" unfolding s'(1) post_to_nth [OF i to] by (rule if_not_P)
      then show ?thesis ..
    qed
    then show ?thesis by (intro origin_ok_posted [OF ok(1)]) (simp_all add: s')
  next
    case other
    with call have "s' = s" by (simp add: custom_onMessage_def)
    with ok(1) show ?thesis by simp
  qed
qed

lemma origin_ok_process:
  assumes ok: "origin_ok s" "srv_ok id0 s" and call: "process_message custom_methods s = Inr s'"
  shows "origin_ok s'"
proof (cases "data_queue (inMsgQueue s)")
  case Nil
  with call show ?thesis by (simp add: process_message_def popFront_def)
next
  case (Cons om oms)
  let ?s = "s\<lparr>inMsgQueue := (inMsgQueue s)\<lparr>data_queue := oms\<rparr>\<rparr>"
  have "origin_ok ?s"
    using ok(1) Cons by (intro origin_ok_posted [OF ok(1)]) auto
  moreover have "srv_inv ?s" "no_null ?s" "distinct (connectionsQueue ?s)"
    using ok(2) Cons by (auto simp: srv_ok_def srv_inv_def no_null_def ids_ok_def)
  moreover have "from_link ?s om" using ok(1) Cons by (simp add: origin_ok_def from_link_def)
  moreover have "custom_onMessage (remote om) (msg om) ?s = Inr s'"
    using call Cons by (simp add: process_message_def custom_methods_def)
  ultimately show ?thesis by (rule origin_ok_message)
qed

lemma quiet_step_ok: "quiet_step s s' \<Longrightarrow> origin_ok s \<Longrightarrow> srv_ok id0 s \<Longrightarrow> origin_ok s' \<and> srv_ok id0 s'"
proof (induction rule: quiet_step.induct)
  case (accept s n ec ep clock hs_in s')
  have "origin_ok (s\<lparr>accepting := n\<rparr>)" using accept(3) by (rule origin_ok_cong) simp_all
  from origin_ok_accept [OF this accept(2)] custom.step_ok [OF srv_step.accept [OF accept(1,2)] accept(4)] show ?case ..
next
  case (connection r s l' s')
  from origin_ok_connection [OF connection(5,6,1-4)]
    custom.step_ok [OF srv_step.connection [OF connection(1,2,4)] connection(6)] show ?case ..
next
  case (process s s')
  from origin_ok_process [OF process(3,4,2)] custom.step_ok [OF srv_step.process [OF process(1,2)] process(4)]
  show ?case ..
qed

lemma origin_ok_start: "Start None (new_server id0) = Inr (b, s) \<Longrightarrow> origin_ok s"
  by (auto simp: Start_def Let_def new_server_def waitForClientConnection_def say_def origin_ok_def empty_queue_def)

section \<open>The client\<close>

text \<open>What the custom client and its I/O thread do with the client object.\<close>

inductive prog_step :: "(u64 \<Rightarrow> string) \<Rightarrow> client \<Rightarrow> client \<Rightarrow> bool" for fmt :: "u64 \<Rightarrow> string" where
  io: "thr_running c \<Longrightarrow> r < length (objects c) \<Longrightarrow> link_step r (objects c ! r) l' \<Longrightarrow> quiet (objects c ! r) l' \<Longrightarrow>
     prog_step fmt c (take_over r l' c)"
| connect: "Connect resolved clock hs_in c = Inr (b, c') \<Longrightarrow> prog_step fmt c c'"
| turn: "main_loop_turn fmt now ready c = Inr (b, c') \<Longrightarrow> prog_step fmt c c'"

definition own_message :: "message \<Rightarrow> bool" where
  "own_message m \<longleftrightarrow> (\<exists>t. m = ping_message t) \<or> m = set_id (type_id MessageAll) empty_message"

definition client_own :: "client \<Rightarrow> bool" where
  "client_own c \<longleftrightarrow> client_inv c \<and>
     (\<forall>i < length (objects c). \<forall>m \<in> outgoing (objects c ! i). own_message m) \<and>
     (\<forall>om \<in> set (data_queue (input_message_queue c)). \<exists>i < length (objects c). om \<in> set (delivered (objects c ! i)))"

lemma client_own_new: "client_own new_client"
  by (simp add: client_own_def client_inv_def new_client_def empty_queue_def)

lemma client_inv_print [simp]: "client_inv (print line c) = client_inv c"
  by (simp add: client_inv_def print_def)

lemma client_own_print [simp]: "client_own (print line c) = client_own c"
  by (simp add: client_own_def) (simp add: print_def)

lemma objects_Send:
  "objects (Send m c) = (if isConnected c then (objects c)[the (connection_module c) :=
     post m (objects c ! the (connection_module c))] else objects c)"
  by (cases "connection_module c") (auto simp: Send_def isConnected_def on_object_step post_def)

lemma queue_Send [simp]: "input_message_queue (Send m c) = input_message_queue c"
  by (simp add: Send_def)

lemma client_own_send:
  assumes "client_own c" "own_message m"
  shows "client_own (Send m c)"
proof -
  have len: "length (objects (Send m c)) = length (objects c)" by (simp add: objects_Send)
  have each: "objects (Send m c) ! i = objects c ! i \<or> objects (Send m c) ! i = post m (objects c ! i)"
    if "i < length (objects c)" for i
    using that by (cases "i = the (connection_module c)") (simp_all add: objects_Send)
  then have "\<forall>i < length (objects c). \<forall>m \<in> outgoing (objects (Send m c) ! i). own_message m"
    using assms outgoing_post by (fastforce simp: client_own_def)
  moreover have "delivered (objects (Send m c) ! i) = delivered (objects c ! i)" if "i < length (objects c)" for i
    using each [OF that] by auto
  moreover from this have "\<exists>i < length (objects c). om \<in> set (delivered (objects (Send m c) ! i))"
    if "om \<in> set (data_queue (input_message_queue c))" for om
    using assms(1) that by (metis client_own_def)
  ultimately show ?thesis
    using assms client_inv_send(1) [of c m] by (simp add: client_own_def len)
qed

lemma client_own_disconnect:
  assumes "client_own c" shows "client_own (Net_Client.Disconnect c)"
proof -
  let ?c = "Disconnect_request c"
  have each: "objects ?c ! i = objects c ! i \<or>
      objects ?c ! i = apply_effects (snd (Connection.Disconnect (conn (objects c ! i)))) (objects c ! i)"
    and len: "length (objects ?c) = length (objects c)" for i
  proof -
    show "length (objects ?c) = length (objects c)" by (simp add: Disconnect_request_def)
    show "objects ?c ! i = objects c ! i \<or>
        objects ?c ! i = apply_effects (snd (Connection.Disconnect (conn (objects c ! i)))) (objects c ! i)"
      by (cases "connection_module c"; cases "i < length (objects c)"; cases "i = the (connection_module c)")
        (auto simp: Disconnect_request_def isConnected_def on_object_step list_update_beyond)
  qed
  have "outgoing (objects ?c ! i) = outgoing (objects c ! i)" "delivered (objects ?c ! i) = delivered (objects c ! i)" for i
  proof -
    let ?es = "snd (Connection.Disconnect (conn (objects c ! i)))"
    have "outgoing (apply_effects ?es (objects c ! i)) = outgoing (objects c ! i)"
      by (intro outgoing_apply) (simp add: Connection.Disconnect_def)
    with each [of i] show "outgoing (objects ?c ! i) = outgoing (objects c ! i)" by metis
    have "delivered (apply_effects ?es (objects c ! i)) = delivered (objects c ! i)"
      by (simp add: Connection.Disconnect_def)
    with each [of i] show "delivered (objects ?c ! i) = delivered (objects c ! i)" by metis
  qed
  moreover have "input_message_queue ?c = input_message_queue c" by (simp add: Disconnect_request_def)
  ultimately have "client_own ?c"
    using assms client_inv_send(2) [of c] len by (simp add: client_own_def)
  then show ?thesis
    by (simp add: Net_Client.Disconnect_def Disconnect_stop_def) (simp add: client_own_def client_inv_def)
qed

lemma client_own_pop:
  assumes "client_own c" "popFront (input_message_queue c) = Inr (om, q)"
  shows "client_own (c\<lparr>input_message_queue := q\<rparr>)"
  using assms by (cases "data_queue (input_message_queue c)")
    (auto simp: client_own_def client_inv_def popFront_def)

lemma own_messages [simp]: "own_message (ping_message t)" "own_message (set_id 3 empty_message)"
  by (auto simp: own_message_def)

lemma client_own_turn:
  assumes "main_loop_turn fmt now ready c = Inr (b, c')" "client_own c"
  shows "client_own c'"
proof (cases ready)
  case None
  then show ?thesis
  proof (cases "isConnected c \<and> \<not> isEmpty (Incoming c)")
    case True
    with None assms(1) obtain om q line where
      "popFront (input_message_queue c) = Inr (om, q)" "c' = print line (c\<lparr>input_message_queue := q\<rparr>)"
      by (auto simp: main_loop_turn_def bind_res_Inr_iff Incoming_def)
    with client_own_pop [OF assms(2)] show ?thesis by simp
  qed (use None assms in \<open>auto simp: main_loop_turn_def split: if_splits\<close>)
next
  case (Some ch)
  with assms show ?thesis
    by (auto simp: main_loop_turn_def PingServer_def send_MessageAll_def
        intro!: client_own_send client_own_disconnect split: if_splits)
qed

lemma client_own_step: "prog_step fmt c c' \<Longrightarrow> client_own c \<Longrightarrow> client_own c'"
proof (induction rule: prog_step.induct)
  case (io c r l')
  have "client_inv (take_over r l' c)"
    using io client_inv_step [OF client_step.io [OF io_step.intros [OF io(1,2,3)]]] by (simp add: client_own_def)
  moreover from step_delivered [OF io(3)] obtain new where new: "delivered l' = delivered (objects c ! r) @ new" ..
  moreover have "\<forall>i < length (objects c). \<forall>m \<in> outgoing (objects (take_over r l' c) ! i). own_message m"
    using io(2,4,5) by (auto simp: client_own_def take_over_def nth_list_update quiet_def)
  moreover have "\<exists>i < length (objects c). om \<in> set (delivered (objects (take_over r l' c) ! i))"
    if "om \<in> set (data_queue (input_message_queue (take_over r l' c)))" for om
  proof (cases "om \<in> set new")
    case True
    with new io(2) show ?thesis by (auto simp: take_over_def)
  next
    case False
    with that new io(5) obtain i where "i < length (objects c)" "om \<in> set (delivered (objects c ! i))"
      by (auto simp: take_over_def client_own_def tsq.contents_push_list)
    with new io(2) show ?thesis by (intro exI [of _ i]) (auto simp: take_over_def nth_list_update)
  qed
  ultimately show ?case by (simp add: client_own_def) (simp add: take_over_def)
next
  case (connect resolved clock hs_in c b c')
  have inv: "client_inv c'" using connect client_inv_step [OF client_step.connect] by (simp add: client_own_def)
  have "outgoing (client_link clock hs_in) = {}" by (simp add: outgoing_def run_defs)
  then consider "resolved \<noteq> None" | "resolved = None"
    "objects c' = objects c @ [client_link clock hs_in]" "input_message_queue c' = input_message_queue c"
    using connect(1) by (auto simp: Connect_def Let_def print_def case_prod_beta client_link_def split: option.splits if_splits)
  then show ?case
  proof cases
    case 1
    with connect show ?thesis by (auto simp: Connect_def)
  next
    case 2
    then show ?thesis
      using connect(2) inv \<open>outgoing (client_link clock hs_in) = {}\<close>
      by (fastforce simp: client_own_def nth_append less_Suc_eq)
  qed
next
  case (turn now ready c b c')
  then show ?case by (rule client_own_turn)
qed

end
