(* ===== verification/Network.thy ===== *)
theory Network
  imports Message_Origin
begin

text \<open>
  One custom server and any number of custom clients, joined by the streams of their
  sockets. A step is a step of the server or of one client, each with its own threads;
  the streams join them: what a connection has read is the beginning of what its peer has
  written. The server's connection \<open>r\<close> is plugged to an object of a client, the \<open>r\<close>-th of
  \<open>plugged\<close>, when the server accepts it.
\<close>

section \<open>States and steps\<close>

record network =
  net_server :: server
  net_clients :: "client list"
  plugged :: "(nat \<times> nat) list"

definition peer :: "network \<Rightarrow> nat \<times> nat \<Rightarrow> link" where
  "peer n p = objects (net_clients n ! fst p) ! snd p"

definition is_object :: "network \<Rightarrow> nat \<times> nat \<Rightarrow> bool" where
  "is_object n p \<longleftrightarrow> fst p < length (net_clients n) \<and> snd p < length (objects (net_clients n ! fst p))"

text \<open>
  The streams. After overlapping writes of one end nothing is assumed of what the other end
  reads; a client's socket that the server has not accepted has nothing to read.
\<close>

definition streamed :: "link \<Rightarrow> link \<Rightarrow> bool" where
  "streamed l l' \<longleftrightarrow> overlapped l \<or> (\<exists>k. consumed l' = take k (tx l))"

definition cabled :: "network \<Rightarrow> bool" where
  "cabled n \<longleftrightarrow> length (plugged n) = length (links (net_server n)) \<and> distinct (plugged n) \<and>
     (\<forall>p \<in> set (plugged n). is_object n p) \<and>
     (\<forall>r < length (plugged n). streamed (links (net_server n) ! r) (peer n (plugged n ! r)) \<and>
        streamed (peer n (plugged n ! r)) (links (net_server n) ! r)) \<and>
     (\<forall>p. is_object n p \<and> p \<notin> set (plugged n) \<longrightarrow> consumed (peer n p) = [])"

inductive net_step :: "(u64 \<Rightarrow> string) \<Rightarrow> network \<Rightarrow> network \<Rightarrow> bool" for fmt :: "u64 \<Rightarrow> string" where
  server: "quiet_step (net_server n) s' \<Longrightarrow>
     n' = n\<lparr>net_server := s', plugged := plugged n @ ps\<rparr> \<Longrightarrow> cabled n' \<Longrightarrow> net_step fmt n n'"
| client: "i < length (net_clients n) \<Longrightarrow> prog_step fmt (net_clients n ! i) c' \<Longrightarrow>
     n' = n\<lparr>net_clients := (net_clients n)[i := c']\<rparr> \<Longrightarrow> cabled n' \<Longrightarrow> net_step fmt n n'"

inductive net_reach :: "(u64 \<Rightarrow> string) \<Rightarrow> u32 \<Rightarrow> network \<Rightarrow> bool" for fmt :: "u64 \<Rightarrow> string" and id0 :: u32 where
  init: "Start None (new_server id0) = Inr (b, s) \<Longrightarrow>
     net_reach fmt id0 \<lparr>net_server = s, net_clients = replicate k new_client, plugged = []\<rparr>"
| step: "net_reach fmt id0 n \<Longrightarrow> net_step fmt n n' \<Longrightarrow> net_reach fmt id0 n'"

text \<open>
  No connection has overlapped writes, and each client has answered the handshake before it
  sent anything else. (The code guarantees neither.)
\<close>

definition answered_first :: "link \<Rightarrow> bool" where
  "answered_first l \<longleftrightarrow> items l = [] \<or> (\<exists>g ms. items l = Hs g # map Msg ms \<and> length g = 8)"

definition calm :: "network \<Rightarrow> bool" where
  "calm n \<longleftrightarrow> (\<forall>r < length (links (net_server n)). \<not> overlapped (links (net_server n) ! r)) \<and>
     (\<forall>p. is_object n p \<longrightarrow> \<not> overlapped (peer n p) \<and> answered_first (peer n p))"

section \<open>The invariant\<close>

definition net_ok :: "u32 \<Rightarrow> network \<Rightarrow> bool" where
  "net_ok id0 n \<longleftrightarrow> srv_ok id0 (net_server n) \<and> origin_ok (net_server n) \<and>
     (\<forall>c \<in> set (net_clients n). client_own c) \<and> cabled n"

lemma net_ok_reach: "net_reach fmt id0 n \<Longrightarrow> net_ok id0 n"
proof (induction rule: net_reach.induct)
  case (init b s k)
  then have "links s = []" using started [of id0] by auto
  with init show ?case
    by (auto simp: net_ok_def cabled_def is_object_def new_client_def client_own_new [unfolded new_client_def]
        intro: custom.start_ok origin_ok_start)
next
  case (step n n')
  from step(2,3) show ?case
  proof (induction rule: net_step.induct)
    case (server n s' n' ps)
    then show ?case using quiet_step_ok by (auto simp: net_ok_def)
  next
    case (client i n c' n')
    then show ?case using client_own_step
      by (auto simp: net_ok_def dest!: set_update_subset_insert [THEN subsetD])
  qed
qed

lemma net_okD:
  "net_ok id0 n \<Longrightarrow> r < length (links (net_server n)) \<Longrightarrow> is_object n (plugged n ! r) \<and>
     streamed (links (net_server n) ! r) (peer n (plugged n ! r)) \<and>
     streamed (peer n (plugged n ! r)) (links (net_server n) ! r)"
  "net_ok id0 n \<Longrightarrow> is_object n p \<Longrightarrow> client_own (net_clients n ! fst p)"
  "net_ok id0 n \<Longrightarrow> is_object n p \<Longrightarrow> p \<notin> set (plugged n) \<Longrightarrow> consumed (peer n p) = []"
  unfolding net_ok_def cabled_def by (metis nth_mem, metis is_object_def nth_mem, blast)

lemma calmD: "calm n \<Longrightarrow> is_object n p \<Longrightarrow> \<not> overlapped (peer n p) \<and> answered_first (peer n p)"
  unfolding calm_def by blast

section \<open>What arrives\<close>

lemma received_all_source:
  "m \<in> set (received_all tmp ms) \<Longrightarrow> \<exists>m0 \<in> set ms. \<exists>tmp'. m = received tmp' m0"
  by (induction ms arbitrary: tmp) auto

lemma payload_ping [simp]: "length (payload (ping_message t)) = 8"
  using carries_ping [of t] by (simp add: carries_def)

lemma payload_all [simp]: "length (payload (all_message i)) = 4"
  using carries_all [of i] by (simp add: carries_def)

lemma sendable_messages:
  "sendable accept_message" "sendable (all_message i)" "sendable (ping_message t)" "sendable (set_id i' empty_message)"
proof -
  show "sendable (set_id i' empty_message)" for i' by (simp add: sendable_def)
  then show "sendable accept_message" by (simp add: accept_message_def)
  show "sendable (all_message i)" using payload_all [of i] by (simp add: sendable_def all_message_def wf_push_data)
  show "sendable (ping_message t)" using payload_ping [of t] by (simp add: sendable_def ping_message_def wf_push_data)
qed

lemma sendable_received:
  assumes "sendable m" "payload m \<noteq> []" shows "sendable (received tmp m)"
  using assms length_received [OF assms(2), of tmp] by (simp add: sendable_def wf_msg_def)

text \<open>What the server is handed on a connection was sent by the client at its other end.\<close>

lemma messages_of_items [simp]: "m \<in> set (messages_of its) \<longleftrightarrow> Msg m \<in> set its"
  by (induction its rule: messages_of.induct) auto

lemma client_end:
  assumes "net_ok id0 n" "is_object n p"
  obtains clock hs where "link_reach (snd p) (client_link clock hs) (peer n p)"
    "\<And>m. Msg m \<in> set (items (peer n p)) \<Longrightarrow> own_message m"
proof -
  have own: "client_own (net_clients n ! fst p)" using assms by (rule net_okD(2))
  then obtain clock hs where "link_reach (snd p) (client_link clock hs) (peer n p)"
    using assms(2) by (auto simp: client_own_def client_inv_def object_ok_def is_object_def peer_def)
  moreover have "own_message m" if "Msg m \<in> set (items (peer n p))" for m
  proof -
    from that have "m \<in> outgoing (peer n p)" by (simp add: outgoing_def)
    with own assms(2) show ?thesis by (auto simp: client_own_def is_object_def peer_def)
  qed
  ultimately show ?thesis by (rule that)
qed

lemma server_handed:
  assumes ok: "net_ok id0 n" "calm n" and r: "r < length (links (net_server n))"
  shows "\<exists>j. map msg (delivered (links (net_server n) ! r)) =
    take j (received_all empty_message (messages_of (items (peer n (plugged n ! r)))))"
proof -
  let ?l = "links (net_server n) ! r" and ?p = "plugged n ! r"
  let ?c = "peer n ?p"
  have p: "is_object n ?p" and st: "streamed ?c ?l" using net_okD(1) [OF ok(1) r] by simp_all
  have calm: "\<not> overlapped ?c" "answered_first ?c" using calmD [OF ok(2) p] by simp_all
  obtain clock hs where c: "link_reach (snd ?p) (client_link clock hs) ?c"
    "\<And>m. Msg m \<in> set (items ?c) \<Longrightarrow> own_message m" using client_end [OF ok(1) p] by blast
  obtain u clock' hs_in qs where l: "link_reach r (server_link u clock' hs_in qs) ?l"
    using ok(1) r by (auto simp: net_ok_def origin_ok_def)
  obtain k where k: "consumed ?l = take k (tx ?c)" using st calm(1) by (auto simp: streamed_def)
  show ?thesis
  proof (cases "items ?c = []")
    case True
    have "reached (snd ?p) ?c" using c(1) by (rule by_client)
    from link_framing [OF this calm(1)] True have "tx ?c = []" by (simp add: stream_of_def)
    with k have "consumed ?l = []" by simp
    moreover have "map msg (delivered ?l) = recv_frames empty_message (drop 8 (consumed ?l))"
      using link_frames [OF by_server [OF l]] by simp
    ultimately have "delivered ?l = []" by (simp add: recv_short)
    then show ?thesis by simp
  next
    case False
    with calm(2) obtain g ms where it: "items ?c = Hs g # map Msg ms" "length g = 8"
      by (auto simp: answered_first_def)
    have "list_all sendable ms" using c(2) it(1) sendable_messages by (auto simp: list_all_iff own_message_def)
    from transfer_from_client [OF c(1) calm(1) it this l k] it(1) show ?thesis by simp
  qed
qed

lemma delivered_to_server:
  assumes ok: "net_ok id0 n" "calm n" and r: "r < length (links (net_server n))"
    and m: "m \<in> msg ` set (delivered (links (net_server n) ! r))"
  shows "\<exists>m0 tmp. Msg m0 \<in> set (items (peer n (plugged n ! r))) \<and> own_message m0 \<and> m = received tmp m0"
proof -
  from server_handed [OF ok r] m have "m \<in> set (received_all empty_message (messages_of (items (peer n (plugged n ! r)))))"
    by (metis image_set in_set_takeD)
  from received_all_source [OF this] client_end [OF ok(1) net_okD(1) [OF ok(1) r, THEN conjunct1]] show ?thesis
    by (metis messages_of_items)
qed

text \<open>
  What is sent to a client, and why: the server's connection to it has taken the message for sending, and the
  message is the greeting, or the one to all, for which the client at the end of another connection has sent the
  request, or a ping that this client has sent.
\<close>

definition all_request :: message where
  "all_request = set_id (type_id MessageAll) empty_message"

definition server_sent :: "network \<Rightarrow> nat \<times> nat \<Rightarrow> message \<Rightarrow> bool" where
  "server_sent n p m \<longleftrightarrow> (\<exists>r < length (links (net_server n)). plugged n ! r = p \<and> Msg m \<in> set (items (links (net_server n) ! r)))"

definition client_sent :: "network \<Rightarrow> nat \<times> nat \<Rightarrow> message \<Rightarrow> bool" where
  "client_sent n p m \<longleftrightarrow> Msg m \<in> set (items (peer n p))"

definition for_client :: "network \<Rightarrow> nat \<times> nat \<Rightarrow> message \<Rightarrow> bool" where
  "for_client n p m \<longleftrightarrow> server_sent n p m \<and> (m = accept_message \<or>
     (\<exists>j < length (links (net_server n)). plugged n ! j \<noteq> p \<and> client_sent n (plugged n ! j) all_request \<and>
        m = all_message (client_id (net_server n) j)) \<or>
     (\<exists>t tmp. client_sent n p (ping_message t) \<and> m = received tmp (ping_message t)))"

lemma id_set_id [simp]: "hdr_id (header (set_id i m)) = i"
  by (simp add: set_id_def)

lemma server_sends:
  assumes ok: "net_ok id0 n" "calm n" and r: "r < length (links (net_server n))"
    and m: "Msg m \<in> set (items (links (net_server n) ! r))"
  shows "for_client n (plugged n ! r) m \<and> sendable m"
proof -
  have plug: "distinct (plugged n)" "length (plugged n) = length (links (net_server n))"
    using ok(1) by (auto simp: net_ok_def cabled_def)
  have sent: "server_sent n (plugged n ! r) m" using r m by (auto simp: server_sent_def)
  have "m \<in> outgoing (links (net_server n) ! r)" using m by (simp add: outgoing_def)
  then have "origin (net_server n) r m" using ok(1) r by (auto simp: net_ok_def origin_ok_def)
  then consider "m = accept_message"
    | j where "j < length (links (net_server n))" "j \<noteq> r" "asked_for_all (net_server n) j"
        "m = all_message (client_id (net_server n) j)"
    | "m \<in> msg ` set (delivered (links (net_server n) ! r))" "hdr_id (header m) = type_id ServerPing"
    by (auto simp: origin_def)
  then show ?thesis
  proof cases
    case 1
    with sent show ?thesis by (simp add: for_client_def sendable_messages)
  next
    case 2
    with plug r have other: "plugged n ! j \<noteq> plugged n ! r" by (simp add: nth_eq_iff_index_eq)
    from 2(3) obtain m' where m': "m' \<in> msg ` set (delivered (links (net_server n) ! j))"
      "hdr_id (header m') = type_id MessageAll" by (auto simp: asked_for_all_def)
    from delivered_to_server [OF ok 2(1) m'(1)] obtain m0 tmp where
      m0: "Msg m0 \<in> set (items (peer n (plugged n ! j)))" "own_message m0" "m' = received tmp m0" by blast
    with m'(2) have "m0 = all_request" by (auto simp: own_message_def all_request_def)
    with m0(1) have "client_sent n (plugged n ! j) all_request" by (simp add: client_sent_def)
    with 2 other sent show ?thesis by (auto simp: for_client_def sendable_messages)
  next
    case 3
    from delivered_to_server [OF ok r 3(1)] obtain m0 tmp where
      m0: "Msg m0 \<in> set (items (peer n (plugged n ! r)))" "own_message m0" "m = received tmp m0" by blast
    with 3(2) obtain t where t: "m0 = ping_message t" by (auto simp: own_message_def)
    have "sendable m" unfolding m0(3) t using payload_ping [of t]
      by (intro sendable_received sendable_messages) (metis list.size(3) zero_neq_numeral)
    with m0 t sent show ?thesis by (auto simp: for_client_def client_sent_def)
  qed
qed

lemma client_handed:
  assumes ok: "net_ok id0 n" "calm n" and r: "r < length (links (net_server n))"
  shows "\<exists>j. map msg (delivered (peer n (plugged n ! r))) =
    take j (received_all empty_message (messages_of (items (links (net_server n) ! r))))"
proof -
  let ?l = "links (net_server n) ! r" and ?p = "plugged n ! r"
  have p: "is_object n ?p" and st: "streamed ?l (peer n ?p)" using net_okD(1) [OF ok(1) r] by simp_all
  obtain clock hs where c: "link_reach (snd ?p) (client_link clock hs) (peer n ?p)" using client_end [OF ok(1) p] by blast
  obtain u clock' hs_in qs where l: "link_reach r (server_link u clock' hs_in qs) ?l"
    using ok(1) r by (auto simp: net_ok_def origin_ok_def)
  have ov: "\<not> overlapped ?l" using ok(2) r by (simp add: calm_def)
  with st obtain k where k: "consumed (peer n ?p) = take k (tx ?l)" by (auto simp: streamed_def)
  have "list_all sendable (messages_of (items ?l))" using server_sends [OF ok r] by (simp add: list_all_iff)
  from transfer_from_server [OF l ov this c k] show ?thesis by blast
qed

lemma delivered_to_client:
  assumes ok: "net_ok id0 n" "calm n" and p: "is_object n p" and m: "m \<in> msg ` set (delivered (peer n p))"
  shows "\<exists>m0 tmp. for_client n p m0 \<and> m = received tmp m0"
proof (cases "p \<in> set (plugged n)")
  case False
  have "consumed (peer n p) = []" by (rule net_okD(3) [OF ok(1) p False])
  moreover obtain clock hs where c: "link_reach (snd p) (client_link clock hs) (peer n p)" using client_end [OF ok(1) p] by blast
  ultimately have "delivered (peer n p) = []" using link_frames [OF by_client [OF c]] by (simp add: recv_short)
  with m show ?thesis by simp
next
  case True
  then obtain r where r: "r < length (links (net_server n))" "plugged n ! r = p"
    using ok(1) by (auto simp: in_set_conv_nth net_ok_def cabled_def)
  from client_handed [OF ok r(1)] m have "m \<in> set (received_all empty_message (messages_of (items (links (net_server n) ! r))))"
    unfolding r(2) by (metis image_set in_set_takeD)
  from received_all_source [OF this] server_sends [OF ok r(1)] r(2) show ?thesis by (metis messages_of_items)
qed

lemma queue_source:
  assumes "net_ok id0 n" "calm n" "i < length (net_clients n)"
    and "om \<in> set (data_queue (Incoming (net_clients n ! i)))"
  shows "\<exists>k m tmp. for_client n (i, k) m \<and> msg om = received tmp m"
proof -
  from assms(1,3) have "client_own (net_clients n ! i)" by (simp add: net_ok_def)
  with assms(4) obtain k where k: "k < length (objects (net_clients n ! i))" "om \<in> set (delivered (peer n (i, k)))"
    by (auto simp: client_own_def Incoming_def peer_def)
  have "is_object n (i, k)" using assms(3) k(1) by (simp add: is_object_def)
  from delivered_to_client [OF assms(1,2) this, of "msg om"] k(2) show ?thesis by blast
qed

text \<open>
  What the client prints for such a message, with what has happened before: the server has sent the greeting on
  this connection; or the client of another connection has sent a request for a message to all, and the server
  has sent the identifier of that connection on this one; or this client has sent a ping at the time from which the line counts.
\<close>

definition justified :: "network \<Rightarrow> nat \<times> nat \<Rightarrow> (u64 \<Rightarrow> string) \<Rightarrow> u64 \<Rightarrow> string \<Rightarrow> bool" where
  "justified n p fmt now line \<longleftrightarrow>
     (server_sent n p accept_message \<and> line = ''Server accepted connection.'') \<or>
     (\<exists>j < length (links (net_server n)). plugged n ! j \<noteq> p \<and> client_sent n (plugged n ! j) all_request \<and>
        server_sent n p (all_message (client_id (net_server n) j)) \<and>
        line = ''Hello from ['' @ dec_nat (unat (client_id (net_server n) j)) @ '']'') \<or>
     (\<exists>t. client_sent n p (ping_message t) \<and> line = ''Ping: '' @ fmt (now - t))"

lemma line_for_client:
  assumes "for_client n p m"
  shows "\<exists>line. on_server_message fmt now (received tmp m) = Inr line \<and> justified n p fmt now line"
proof -
  from assms consider "m = accept_message" "server_sent n p accept_message"
    | j where "j < length (links (net_server n))" "plugged n ! j \<noteq> p" "client_sent n (plugged n ! j) all_request"
        "m = all_message (client_id (net_server n) j)" "server_sent n p (all_message (client_id (net_server n) j))"
    | t tmp' where "client_sent n p (ping_message t)" "m = received tmp' (ping_message t)"
    by (auto simp: for_client_def)
  then show ?thesis
  proof cases
    case 1
    then show ?thesis using client_reads_server [of fmt now tmp] by (auto simp: justified_def)
  next
    case 2
    then show ?thesis using client_reads_server [of fmt now tmp] by (auto simp: justified_def)
  next
    case 3
    have "carries (received tmp m) (le_bytes 8 t)" unfolding 3(2) by (intro carries_received carries_ping)
    from carries_pop [OF this] 3(2) have "on_server_message fmt now (received tmp m) = Inr (''Ping: '' @ fmt (now - t))"
      by (auto simp: on_server_message_def)
    with 3(1) show ?thesis by (auto simp: justified_def)
  qed
qed

section \<open>A run\<close>

text \<open>A network of the server and one client, of which the server has accepted the connection.\<close>

definition solo :: "server \<Rightarrow> client \<Rightarrow> network" where
  "solo s c = \<lparr>net_server = s, net_clients = [c], plugged = [(0, 0)]\<rparr>"

lemma solo_cabled:
  "links s = [ls] \<Longrightarrow> objects c = [lc] \<Longrightarrow> streamed ls lc \<Longrightarrow> streamed lc ls \<Longrightarrow> cabled (solo s c)"
  by (auto simp: cabled_def solo_def is_object_def peer_def)

text \<open>Actions that are no calls of \<open>SendData\<close>.\<close>

definition calls_nothing :: "action list \<Rightarrow> bool" where
  "calls_nothing as \<longleftrightarrow> list_all (\<lambda>a. case a of Call_SendData m \<Rightarrow> False | _ \<Rightarrow> True) as"

lemma complete_quiet:
  "pending l = xs @ op # ys \<Longrightarrow> complete self op (xs @ ys) l = Some l' \<Longrightarrow> quiet l l'"
  "pending l = xs @ op # ys \<Longrightarrow> fail self op (xs @ ys) l = Some l' \<Longrightarrow> quiet l l'"
  by (cases op; auto dest!: fire_outgoing simp: quiet_def outgoing_def link_state_defs split: if_splits task.splits)+

lemma do_action_quiet:
  assumes "do_action self a l = Some l'" "calls_nothing [a]" shows "quiet l l'"
proof (cases a)
  case Call_Disconnect
  have "outgoing (apply_effects (snd (Connection.Disconnect (conn l))) l) = outgoing l"
    by (intro outgoing_apply) (simp add: Connection.Disconnect_def)
  with Call_Disconnect assms(1) show ?thesis by (auto simp: quiet_def)
next
  case (Complete i)
  with assms(1) complete_quiet(1) [OF without_split] show ?thesis by (auto simp: without_def split: if_splits)
next
  case (Fail i)
  with assms(1) complete_quiet(2) [OF without_split] show ?thesis by (auto simp: without_def split: if_splits)
qed (use assms in \<open>auto simp: calls_nothing_def quiet_def outgoing_def\<close>)

lemma run_consumed: "run_actions self as l = Some l' \<Longrightarrow> \<exists>new. consumed l' = consumed l @ new"
proof (induction as arbitrary: l)
  case (Cons a as)
  then obtain l1 where l1: "do_action self a l = Some l1" "run_actions self as l1 = Some l'"
    by (auto simp: bind_eq_Some_conv)
  from step_consumed [OF do_action_step [OF l1(1)]] Cons.IH [OF l1(2)] show ?case by auto
qed simp

lemma solo_server_run:
  assumes "net_reach fmt id0 (solo s c)" "links s = [ls]" "objects c = [lc]" "run_actions 0 as ls = Some l'"
    and "calls_nothing as" "consumed lc = []" "consumed l' = []"
  shows "\<exists>s'. net_reach fmt id0 (solo s' c) \<and> links s' = [l']"
  using assms
proof (induction as arbitrary: s ls)
  case Nil
  then show ?case by auto
next
  case (Cons a as)
  then obtain l1 where l1: "do_action 0 a ls = Some l1" "run_actions 0 as l1 = Some l'"
    by (auto simp: bind_eq_Some_conv)
  have calls: "calls_nothing [a]" "calls_nothing as" using Cons.prems(5) by (simp_all add: calls_nothing_def)
  have "consumed l1 = []" using run_consumed [OF l1(2)] Cons.prems(7) by auto
  from absorb_custom [of 0 l1 s] Cons.prems(2) obtain s1 where
    s1: "absorb custom_methods 0 l1 s = Inr s1" "links s1 = [l1]" by auto
  have "quiet_step s s1"
    using Cons.prems(2) do_action_step [OF l1(1)] do_action_quiet [OF l1(1) calls(1)] s1(1)
    by (intro quiet_step.connection [of 0 s l1]) simp_all
  moreover have "cabled (solo s1 c)"
    using s1(2) Cons.prems(3,6) \<open>consumed l1 = []\<close> by (intro solo_cabled) (auto simp: streamed_def intro: exI [of _ 0])
  ultimately have "net_step fmt (solo s c) (solo s1 c)"
    by (intro net_step.server [where ps = "[]"]) (simp_all add: solo_def)
  with Cons.prems(1) have "net_reach fmt id0 (solo s1 c)" by (rule net_reach.step)
  from Cons.IH [OF this s1(2) Cons.prems(3) l1(2) calls(2) Cons.prems(6,7)] show ?case .
qed

lemma solo_client_run:
  assumes "net_reach fmt id0 (solo s c)" "links s = [ls]" "objects c = [lc]" "run_actions 0 as lc = Some l'"
    and "calls_nothing as" "thr_running c" "consumed ls = []" "consumed l' = take k (tx ls)"
  shows "\<exists>c'. net_reach fmt id0 (solo s c') \<and> objects c' = [l'] \<and> thr_running c' \<and>
     connection_module c' = connection_module c \<and> (\<exists>new. delivered l' = delivered lc @ new \<and>
     data_queue (Incoming c') = data_queue (Incoming c) @ new)"
  using assms
proof (induction as arbitrary: c lc)
  case Nil
  then show ?case by auto
next
  case (Cons a as)
  then obtain l1 where l1: "do_action 0 a lc = Some l1" "run_actions 0 as l1 = Some l'"
    by (auto simp: bind_eq_Some_conv)
  have calls: "calls_nothing [a]" "calls_nothing as" using Cons.prems(5) by (simp_all add: calls_nothing_def)
  from run_consumed [OF l1(2)] Cons.prems(8) obtain new where "take k (tx ls) = consumed l1 @ new" by auto
  then have "consumed l1 = take (min (length (consumed l1)) k) (tx ls)" by (metis append_eq_conv_conj take_take)
  let ?c = "take_over 0 l1 c"
  have c1: "objects ?c = [l1]" "thr_running ?c" using Cons.prems(3,6) by (simp_all add: take_over_def)
  have "prog_step fmt c ?c"
    using Cons.prems(3,6) do_action_step [OF l1(1)] do_action_quiet [OF l1(1) calls(1)]
    by (intro prog_step.io) simp_all
  moreover have "cabled (solo s ?c)"
    using c1(1) Cons.prems(2,7) \<open>consumed l1 = _\<close>
    by (intro solo_cabled) (auto simp: streamed_def intro: exI [of _ 0])
  ultimately have "net_step fmt (solo s c) (solo s ?c)"
    by (intro net_step.client [where i = 0 and c' = ?c]) (simp_all add: solo_def)
  with Cons.prems(1) have "net_reach fmt id0 (solo s ?c)" by (rule net_reach.step)
  from Cons.IH [OF this Cons.prems(2) c1(1) l1(2) calls(2) c1(2) Cons.prems(7,8)] obtain c' more where
    c': "net_reach fmt id0 (solo s c')" "objects c' = [l']" "thr_running c'"
      "connection_module c' = connection_module ?c" "delivered l' = delivered l1 @ more"
      "data_queue (Incoming c') = data_queue (Incoming ?c) @ more" by blast
  from step_delivered [OF do_action_step [OF l1(1)]] obtain new' where "delivered l1 = delivered lc @ new'" ..
  with c' Cons.prems(3) show ?case
    by (intro exI [of _ c'] conjI exI [of _ "new' @ more"])
      (simp_all add: take_over_def Incoming_def tsq.contents_push_list)
qed

lemma server_greets:
  "case run_actions 0 [Complete 1, Complete 0, Complete 1] (server_link u_id clock hs_in [accept_message]) of
     None \<Rightarrow> False
   | Some l \<Rightarrow> \<not> overlapped l \<and> consumed l = [] \<and> tx l = le_bytes 8 clock @ header_bytes (header accept_message) \<and>
       socket_open (conn l) \<and> messages_of (items l) = [accept_message]"
  by (simp add: run_defs front_elem_def empty_queue_def pushBack_def popFront_def accept_message_def)

lemma accept_header [simp]: "hdr_size (header accept_message) = 0" "header_of_bytes (header_bytes h) = h"
  by (simp_all add: accept_message_def set_id_def empty_message_def)

lemma client_greeted:
  "case run_actions 0 [Arrive (le_bytes 8 clock @ header_bytes (header accept_message)), Complete 0, Complete 0, Complete 0, Complete 0]
       (client_link c_clock hs) of
     None \<Rightarrow> False
   | Some l \<Rightarrow> consumed l = le_bytes 8 clock @ header_bytes (header accept_message) \<and> \<not> overlapped l \<and>
       length (delivered l) = 1 \<and> items l = [Hs (le_bytes 8 (encrypt_handshake_data clock))]"
  by (simp add: run_defs store_handshake_all)

text \<open>A client connects, is accepted, and the server sends its greeting.\<close>

lemma accepted_network:
  "\<exists>s ls. net_reach fmt id0 (solo s (connected_client 0 0)) \<and> links s = [ls] \<and> \<not> overlapped ls \<and> consumed ls = [] \<and>
     tx ls = le_bytes 8 (42 :: u64) @ header_bytes (header accept_message) \<and>
     socket_open (conn ls) \<and> messages_of (items ls) = [accept_message]"
proof -
  from started [of id0] obtain s0 where s0: "Start None (new_server id0) = Inr (True, s0)" "links s0 = []" "accepting s0 = 1"
    by blast
  let ?c = "connected_client 0 0"
  from net_reach.init [OF s0(1), of fmt 1]
  have r0: "net_reach fmt id0 \<lparr>net_server = s0, net_clients = [new_client], plugged = []\<rparr>" by simp
  have "prog_step fmt new_client ?c" by (rule prog_step.connect [OF connected_client_eq(1)])
  moreover have "consumed (client_link 0 0) = []" by (simp add: run_defs)
  ultimately have "net_step fmt \<lparr>net_server = s0, net_clients = [new_client], plugged = []\<rparr>
      \<lparr>net_server = s0, net_clients = [?c], plugged = []\<rparr>"
    using s0(2) by (intro net_step.client [where i = 0 and c' = ?c])
      (auto simp: cabled_def is_object_def peer_def connected_client_eq)
  with r0 have r1: "net_reach fmt id0 \<lparr>net_server = s0, net_clients = [?c], plugged = []\<rparr>" by (rule net_reach.step)
  let ?s = "s0\<lparr>accepting := 0\<rparr>"
  have "srv_ok id0 s0" using s0(1) by (rule custom.start_ok)
  then have "srv_ok id0 ?s" by (simp add: srv_ok_def srv_inv_def no_null_def ids_ok_def client_id_links)
  from custom.accept_ok [OF this, of None "''peer''" 42 0] obtain s1 where
    s1: "on_accept custom_methods None (Some ''peer'') 42 0 ?s = Inr s1" by blast
  from accept_custom [OF this] s0(2) have links: "links s1 = [server_link (idCounter s0) 42 0 [accept_message]]" by simp
  have "cabled (solo s1 ?c)"
    using links by (intro solo_cabled [OF _ connected_client_eq(2)])
      (auto simp: streamed_def run_defs intro: exI [of _ 0])
  moreover have "quiet_step s0 s1" using s0(3) s1 by (intro quiet_step.accept [of s0 0]) simp_all
  ultimately have "net_step fmt \<lparr>net_server = s0, net_clients = [?c], plugged = []\<rparr> (solo s1 ?c)"
    by (intro net_step.server [where ps = "[(0, 0)]"]) (simp_all add: solo_def)
  with r1 have r2: "net_reach fmt id0 (solo s1 ?c)" by (rule net_reach.step)
  have none: "consumed (client_link 0 0) = []" by (simp add: run_defs)
  obtain ls where ls: "run_actions 0 [Complete 1, Complete 0, Complete 1]
      (server_link (idCounter s0) 42 0 [accept_message]) = Some ls" "\<not> overlapped ls" "consumed ls = []"
      "tx ls = le_bytes 8 (42 :: u64) @ header_bytes (header accept_message)"
      "socket_open (conn ls)" "messages_of (items ls) = [accept_message]"
    using server_greets [where u_id = "idCounter s0" and clock = 42 and hs_in = 0] by (auto split: option.splits)
  from solo_server_run [OF r2 links connected_client_eq(2) ls(1) _ none ls(3)] obtain s2 where
    r3: "net_reach fmt id0 (solo s2 ?c)" "links s2 = [ls]" by (auto simp: calls_nothing_def)
  show ?thesis using r3 ls by blast
qed

text \<open>Then the client is handed the greeting.\<close>

lemma greeted_network:
  "\<exists>n. net_reach fmt id0 n \<and> calm n \<and> length (net_clients n) = 1 \<and>
     length (data_queue (Incoming (net_clients n ! 0))) = 1"
proof -
  let ?c = "connected_client 0 0"
  from accepted_network [of fmt id0] obtain s2 ls where r3: "net_reach fmt id0 (solo s2 ?c)" "links s2 = [ls]"
    and ls: "\<not> overlapped ls" "consumed ls = []" "tx ls = le_bytes 8 (42 :: u64) @ header_bytes (header accept_message)"
    by blast
  obtain lc where lc: "run_actions 0 [Arrive (le_bytes 8 (42 :: u64) @ header_bytes (header accept_message)),
      Complete 0, Complete 0, Complete 0, Complete 0] (client_link 0 0) = Some lc"
      "consumed lc = le_bytes 8 (42 :: u64) @ header_bytes (header accept_message)" "\<not> overlapped lc"
      "length (delivered lc) = 1" "items lc = [Hs (le_bytes 8 (encrypt_handshake_data 42))]"
    using client_greeted [where clock = 42 and c_clock = 0 and hs = 0] by (auto split: option.splits)
  have "consumed lc = take 16 (tx ls)" using lc(2) ls(3) by simp
  from solo_client_run [OF r3 connected_client_eq(2) lc(1) _ connected_client_eq(4) ls(2) this] obtain c' new where
    r4: "net_reach fmt id0 (solo s2 c')" "objects c' = [lc]" "delivered lc = delivered (client_link 0 0) @ new"
      "data_queue (Incoming c') = data_queue (Incoming ?c) @ new" by (auto simp: calls_nothing_def)
  have "delivered (client_link 0 0) = []" by (simp add: run_defs)
  moreover have "data_queue (Incoming ?c) = []"
    by (simp add: connected_client_def Connect_def Let_def case_prod_beta new_client_def print_def Incoming_def empty_queue_def)
  ultimately have "length (data_queue (Incoming c')) = 1" using r4(3,4) lc(4) by simp
  moreover have "calm (solo s2 c')"
    using r3(2) r4(2) ls(1) lc(3,5)
    by (auto simp: calm_def solo_def is_object_def peer_def answered_first_def)
  ultimately show ?thesis using r4(1) by (intro exI [of _ "solo s2 c'"]) (simp add: solo_def)
qed

section \<open>Properties\<close>

text \<open>
  C6: every line has its reason, as long as the writes keep their order. In a network of one custom server and any
  number of custom clients, in a state in which no connection has overlapped writes and each client has answered the
  handshake before it sent anything else (\<open>calm\<close>; the code does not guarantee it), each message in the
  queue of a client makes it print, without an error, either that the server accepted it, and then the server has sent
  the greeting on its connection; or the identifier of another connection, and then the client of that connection
  has sent a request for a message to all, and the server has sent the identifier on; or the time since a
  ping that this client has sent itself.
\<close>
theorem network_lines:
  assumes "net_reach fmt id0 n" "calm n" "i < length (net_clients n)"
    and "om \<in> set (data_queue (Incoming (net_clients n ! i)))"
  shows "\<exists>line k. on_server_message fmt now (msg om) = Inr line \<and> justified n (i, k) fmt now line"
proof -
  from queue_source [OF net_ok_reach [OF assms(1)] assms(2-4)] obtain k m tmp where
    "for_client n (i, k) m" "msg om = received tmp m" by blast
  with line_for_client [of n "(i, k)" m fmt now tmp] show ?thesis by auto
qed

text \<open>
  Clients of the custom server do not fail. Under the same conditions each turn of a
  client's main loop runs without an error, whatever key was pressed; the unchecked reads of
  values out of messages are harmless with this server.
\<close>
theorem network_turn:
  assumes "net_reach fmt id0 n" "calm n" "i < length (net_clients n)"
  shows "\<exists>b c'. main_loop_turn fmt now ready (net_clients n ! i) = Inr (b, c')"
proof (cases ready)
  case None
  show ?thesis
  proof (cases "data_queue (Incoming (net_clients n ! i))")
    case Nil
    with None show ?thesis by (auto simp: main_loop_turn_def isEmpty_def)
  next
    case (Cons om oms)
    with queue_source [OF net_ok_reach [OF assms(1)] assms(2,3), of om] obtain k m tmp where
      "for_client n (i, k) m" "msg om = received tmp m" by auto
    with line_for_client [of n "(i, k)" m fmt now tmp] obtain line where
      "on_server_message fmt now (msg om) = Inr line" by auto
    with None Cons show ?thesis by (auto simp: main_loop_turn_def isEmpty_def)
  qed
next
  case (Some ch)
  then show ?thesis by (auto simp: main_loop_turn_def)
qed

theorem network_lines_witness:
  "\<exists>n om line k. net_reach (\<lambda>d. []) 10000 n \<and> om \<in> set (data_queue (Incoming (net_clients n ! 0))) \<and>
     on_server_message (\<lambda>d. []) 50 (msg om) = Inr line \<and> justified n (0, k) (\<lambda>d. []) 50 line"
proof -
  from greeted_network [of "\<lambda>d. []" 10000] obtain n where
    n: "net_reach (\<lambda>d. []) 10000 n" "calm n" "length (net_clients n) = 1"
      "length (data_queue (Incoming (net_clients n ! 0))) = 1" by blast
  from n(4) obtain om where om: "om \<in> set (data_queue (Incoming (net_clients n ! 0)))"
    by (cases "data_queue (Incoming (net_clients n ! 0))") auto
  from network_lines [OF n(1,2) _ om, of 50] n(1,3) om show ?thesis by auto
qed

theorem network_turn_witness:
  "\<exists>n b c'. net_reach (\<lambda>d. []) 10000 n \<and> main_loop_turn (\<lambda>d. []) 50 None (net_clients n ! 0) = Inr (b, c')"
proof -
  from greeted_network [of "\<lambda>d. []" 10000] obtain n where
    n: "net_reach (\<lambda>d. []) 10000 n" "calm n" "length (net_clients n) = 1" by blast
  from network_turn [OF n(1,2), of 0 50 None] n(1,3) show ?thesis by auto
qed

end
