(* ===== verification/Network_Progress.thy ===== *)
theory Network_Progress
  imports Network Connection_Progress
begin

text \<open>
  Progress in the closed system: what the server has accepted for a client is printed by that
  client, if the two are left to go on. The runs of one connection that empty its queue or
  its stream become runs of the network, which keep the streams of the sockets joined.
\<close>

section \<open>Runs of one connection\<close>

text \<open>Steps that give the connection no new message and lead through good states.\<close>

inductive quiet_run :: "(link \<Rightarrow> bool) \<Rightarrow> conn_ref \<Rightarrow> link \<Rightarrow> link \<Rightarrow> bool"
  for good :: "link \<Rightarrow> bool" and self :: conn_ref where
  none: "quiet_run good self l l"
| more: "link_step self l l1 \<Longrightarrow> quiet l l1 \<Longrightarrow> good l1 \<Longrightarrow> quiet_run good self l1 l' \<Longrightarrow> quiet_run good self l l'"

lemma quiet_run_mono:
  "quiet_run good self l l' \<Longrightarrow> (\<And>m. good m \<Longrightarrow> good' m) \<Longrightarrow> quiet_run good' self l l'"
  by (induction rule: quiet_run.induct) (auto intro: quiet_run.intros)

lemma quiet_run_reach: "quiet_run good self l l' \<Longrightarrow> link_reach self l l'"
proof (induction rule: quiet_run.induct)
  case (more l l1 l')
  have "link_reach self l l1" using link_reach.init more.hyps(1) by (rule link_reach.step)
  with more.IH show ?case by (rule link_reach_trans)
qed (rule link_reach.init)

lemma quiet_run_last: "quiet_run good self l l' \<Longrightarrow> good l \<Longrightarrow> good l'"
  by (induction rule: quiet_run.induct) simp_all

lemma post_keeps: "rx (post m l) = rx l" "filter is_write (pending (post m l)) = filter is_write (pending l)"
  "conn (post m l) = conn l"
  by (simp_all add: post_def SendData_def)

lemma writes_left_post: "writes_left (post m l) = writes_left l"
  unfolding writes_left_def post_keeps by (rule refl)

lemma quiet_arrive: "quiet l (l\<lparr>rx := rx l @ bs\<rparr>)"
  by (simp add: quiet_def outgoing_def)

text \<open>A state on the way when a connection writes.\<close>

definition writes_on :: "link \<Rightarrow> link \<Rightarrow> bool" where
  "writes_on l m \<longleftrightarrow> \<not> overlapped m \<and> consumed m = consumed l \<and> (\<exists>bs. tx m = tx l @ bs) \<and>
     (greeting_done l \<longrightarrow> greeting_done m \<and> reading_part m = reading_part l)"

lemma writes_on_trans: "writes_on l l1 \<Longrightarrow> writes_on l1 m \<Longrightarrow> writes_on l m"
  by (auto simp: writes_on_def)

lemma drain_quietly:
  "write_ready l \<Longrightarrow> \<exists>l'. quiet_run (writes_on l) self l l' \<and> write_ready l' \<and> writes_on l l' \<and> items l' = items l \<and>
     tx l' = stream_of (items l)"
proof (induction "writes_left l" arbitrary: l rule: less_induct)
  case less
  show ?case
  proof (cases "filter is_write (pending l) = []")
    case True
    with no_write_pending [OF less.prems] less.prems show ?thesis
      by (auto simp: writes_on_def write_ready_def intro: quiet_run.none)
  next
    case False
    then obtain op where op: "op \<in> set (pending l)" "is_write op" by (auto simp: filter_empty_conv)
    from op(2) obtain bs h where "op = Async_write bs h" by (cases op) auto
    with op obtain xs ys where "pending l = xs @ Async_write bs h # ys" by (blast dest: split_list)
    from drain_step [OF less.prems this, of self] obtain l1 where l1: "link_step self l l1" "write_ready l1"
      "items l1 = items l" "writes_left l1 < writes_left l" "consumed l1 = consumed l" "tx l1 = tx l @ bs"
      "greeting_done l \<longrightarrow> greeting_done l1 \<and> reading_part l1 = reading_part l" by blast
    have q: "quiet l l1" using step_quiet_or_send [OF l1(1)] l1(4) by (auto simp: writes_left_post)
    have on: "writes_on l l1" using l1(2,5-7) by (auto simp: writes_on_def write_ready_def)
    from less.hyps [OF l1(4,2)] obtain l' where l': "quiet_run (writes_on l1) self l1 l'" "write_ready l'" "writes_on l1 l'"
      "items l' = items l1" "tx l' = stream_of (items l1)" by blast
    have "quiet_run (writes_on l) self l1 l'" by (rule quiet_run_mono [OF l'(1)]) (rule writes_on_trans [OF on])
    from quiet_run.more [OF l1(1) q on this] l' l1(3) writes_on_trans [OF on l'(3)] show ?thesis by auto
  qed
qed

text \<open>What stays the same while a connection reads the bytes \<open>all\<close>.\<close>

definition reads_on :: "byte list \<Rightarrow> link \<Rightarrow> link \<Rightarrow> bool" where
  "reads_on all l m \<longleftrightarrow> (\<exists>rest. consumed m @ rest = all) \<and> sending_part m = sending_part l \<and> socket_open (conn m)"

lemma read_quietly:
  "read_inv self l \<Longrightarrow> reading n l \<Longrightarrow> \<exists>l' k. quiet_run (reads_on (consumed l @ rx l) l) self l l' \<and> reading k l' \<and>
     consumed l' @ rx l' = consumed l @ rx l \<and> map msg (delivered l') = recv_frames empty_message (drop 8 (consumed l @ rx l))"
proof (induction "length (rx l)" arbitrary: l n rule: less_induct)
  case less
  note inv = less.prems(1) and r = less.prems(2)
  show ?case
  proof (cases "n \<le> length (rx l)")
    case False
    with reading_phase [OF inv r] r show ?thesis by (auto intro: quiet_run.none)
  next
    case True
    from read_one [OF inv r this] obtain l1 k where l1: "link_step self l l1" "reading k l1"
      "consumed l1 @ rx l1 = consumed l @ rx l" "length (rx l1) < length (rx l)" "sending_part l1 = sending_part l" by blast
    have q: "quiet l l1" using step_quiet_or_send [OF l1(1)] l1(4) by (auto simp: post_keeps)
    have good: "reads_on (consumed l @ rx l) l l1" using l1(2,3,5) by (auto simp: reads_on_def reading_def)
    from less.hyps [OF l1(4) read_inv_step [OF l1(1) inv] l1(2)] obtain l' k' where l':
      "quiet_run (reads_on (consumed l1 @ rx l1) l1) self l1 l'" "reading k' l'" "consumed l' @ rx l' = consumed l1 @ rx l1"
      "map msg (delivered l') = recv_frames empty_message (drop 8 (consumed l1 @ rx l1))" by blast
    have "quiet_run (reads_on (consumed l @ rx l) l) self l1 l'"
      by (rule quiet_run_mono [OF l'(1)]) (simp add: reads_on_def l1(3,5))
    from quiet_run.more [OF l1(1) q good this] l' l1(3) show ?thesis by auto
  qed
qed

section \<open>Runs of the network\<close>

lemma net_reach_steps: "(net_step fmt)\<^sup>*\<^sup>* n n' \<Longrightarrow> net_reach fmt id0 n \<Longrightarrow> net_reach fmt id0 n'"
  by (induction rule: rtranclp_induct) (auto intro: net_reach.step)

lemma quiet_run_delivered: "quiet_run good self l l' \<Longrightarrow> \<exists>new. delivered l' = delivered l @ new"
proof (induction rule: quiet_run.induct)
  case (more l l1 l')
  with step_delivered [OF more.hyps(1)] show ?case by auto
qed simp

text \<open>The server after a run of its connection \<open>r\<close>.\<close>

definition after_served :: "conn_ref \<Rightarrow> link \<Rightarrow> server \<Rightarrow> server \<Rightarrow> bool" where
  "after_served r m s s' \<longleftrightarrow> links s' = (links s)[r := m] \<and> connectionsQueue s' = connectionsQueue s \<and>
     accepting s' = accepting s \<and>
     data_queue (inMsgQueue s') = data_queue (inMsgQueue s) @ drop (length (delivered (links s ! r))) (delivered m)"

lemma absorb_served:
  obtains s' where "absorb custom_methods r m s = Inr s'" "after_served r m s s'"
proof -
  from absorb_custom [of r m s] obtain s' where s': "absorb custom_methods r m s = Inr s'" "links s' = (links s)[r := m]"
    "connectionsQueue s' = connectionsQueue s"
    "data_queue (inMsgQueue s') = data_queue (inMsgQueue s) @ drop (length (delivered (links s ! r))) (delivered m)" by blast
  moreover have "accepting s' = accepting s"
    using s'(1) by (auto simp: absorb_def Let_def custom_methods_def custom_reporting_def base_methods_def say_def split: if_splits)
  ultimately show ?thesis by (intro that) (simp_all add: after_served_def)
qed

lemma lift_server_run:
  assumes "quiet_run good r l l'" "r < length (links (net_server n))" "links (net_server n) ! r = l"
    and "\<And>m s. good m \<Longrightarrow> links s = (links (net_server n))[r := m] \<Longrightarrow> cabled (n\<lparr>net_server := s\<rparr>)"
  shows "\<exists>s. (net_step fmt)\<^sup>*\<^sup>* n (n\<lparr>net_server := s\<rparr>) \<and> after_served r l' (net_server n) s"
  using assms
proof (induction arbitrary: n rule: quiet_run.induct)
  case (none l)
  then show ?case by (intro exI [of _ "net_server n"]) (auto simp: after_served_def)
next
  case (more l l1 l')
  obtain s1 where s1: "absorb custom_methods r l1 (net_server n) = Inr s1" "after_served r l1 (net_server n) s1"
    by (rule absorb_served)
  then have links: "links s1 = (links (net_server n))[r := l1]" by (simp add: after_served_def)
  let ?n = "n\<lparr>net_server := s1\<rparr>"
  have "quiet_step (net_server n) s1"
    using more.hyps(1,2) more.prems(1,2) s1(1) by (intro quiet_step.connection [of r _ l1]) simp_all
  then have step: "net_step fmt n ?n"
    by (rule net_step.server [where ps = "[]"]) (simp_all add: more.prems(3) [OF more.hyps(3) links])
  have "\<exists>s. (net_step fmt)\<^sup>*\<^sup>* ?n (?n\<lparr>net_server := s\<rparr>) \<and> after_served r l' (net_server ?n) s"
    using more.prems(1) links more.prems(3) by (intro more.IH) simp_all
  then obtain s where s: "(net_step fmt)\<^sup>*\<^sup>* ?n (n\<lparr>net_server := s\<rparr>)" "after_served r l' s1 s" by auto
  from step_delivered [OF more.hyps(1)] quiet_run_delivered [OF more.hyps(4)] obtain new1 new2 where
    "delivered l1 = delivered l @ new1" "delivered l' = delivered l1 @ new2" by blast
  with s(2) s1(2) more.prems(1,2) have "after_served r l' (net_server n) s" by (simp add: after_served_def)
  with converse_rtranclp_into_rtranclp [of "net_step fmt", OF step s(1)] show ?case by blast
qed

text \<open>The client after a run of its object \<open>k\<close>: what the run has delivered is in its queue.\<close>

definition after_run :: "nat \<Rightarrow> link \<Rightarrow> client \<Rightarrow> client \<Rightarrow> bool" where
  "after_run k m c c' \<longleftrightarrow> objects c' = (objects c)[k := m] \<and> thr_running c' = thr_running c \<and>
     connection_module c' = connection_module c \<and> client.console c' = client.console c \<and>
     data_queue (Incoming c') = data_queue (Incoming c) @ drop (length (delivered (objects c ! k))) (delivered m)"

lemma lift_client_run:
  assumes "quiet_run good k l l'" "i < length (net_clients n)" "k < length (objects (net_clients n ! i))"
    and "objects (net_clients n ! i) ! k = l" "thr_running (net_clients n ! i)"
    and "\<And>m c. good m \<Longrightarrow> objects c = (objects (net_clients n ! i))[k := m] \<Longrightarrow>
      cabled (n\<lparr>net_clients := (net_clients n)[i := c]\<rparr>)"
  shows "\<exists>c. (net_step fmt)\<^sup>*\<^sup>* n (n\<lparr>net_clients := (net_clients n)[i := c]\<rparr>) \<and> after_run k l' (net_clients n ! i) c"
  using assms
proof (induction arbitrary: n rule: quiet_run.induct)
  case (none l)
  then show ?case by (intro exI [of _ "net_clients n ! i"]) (auto simp: after_run_def)
next
  case (more l l1 l')
  let ?c = "net_clients n ! i" and ?c1 = "take_over k l1 (net_clients n ! i)"
  let ?n = "n\<lparr>net_clients := (net_clients n)[i := ?c1]\<rparr>"
  have objs: "objects ?c1 = (objects ?c)[k := l1]" by (simp add: take_over_def)
  have "prog_step fmt ?c ?c1"
    using more.hyps(1,2) more.prems(2-4) by (intro prog_step.io) simp_all
  with more.prems(1) have step: "net_step fmt n ?n"
    by (intro net_step.client [where c' = ?c1]) (simp_all add: more.prems(5) [OF more.hyps(3) objs])
  have "\<exists>c. (net_step fmt)\<^sup>*\<^sup>* ?n (?n\<lparr>net_clients := (net_clients ?n)[i := c]\<rparr>) \<and> after_run k l' (net_clients ?n ! i) c"
    using more.prems objs by (intro more.IH) (simp_all add: take_over_def)
  then obtain c where c: "(net_step fmt)\<^sup>*\<^sup>* ?n (n\<lparr>net_clients := (net_clients n)[i := c]\<rparr>)" "after_run k l' ?c1 c"
    using more.prems(1) by auto
  from step_delivered [OF more.hyps(1)] quiet_run_delivered [OF more.hyps(4)] obtain new1 new2 where
    "delivered l1 = delivered l @ new1" "delivered l' = delivered l1 @ new2" by blast
  with c(2) more.prems(2,3) have "after_run k l' ?c c"
    by (simp add: after_run_def take_over_def Incoming_def tsq.contents_push_list)
  with converse_rtranclp_into_rtranclp [of "net_step fmt", OF step c(1)] show ?case by blast
qed

text \<open>Turns of the main loop without a key, until the queue is empty.\<close>

lemma lift_turns:
  assumes "data_queue (Incoming (net_clients n ! i)) = oms" "i < length (net_clients n)" "isConnected (net_clients n ! i)"
    and "\<forall>om \<in> set oms. \<exists>line. on_server_message fmt now (msg om) = Inr line"
    and "\<And>c. objects c = objects (net_clients n ! i) \<Longrightarrow> cabled (n\<lparr>net_clients := (net_clients n)[i := c]\<rparr>)"
  shows "\<exists>c lines. (net_step fmt)\<^sup>*\<^sup>* n (n\<lparr>net_clients := (net_clients n)[i := c]\<rparr>) \<and>
    client.console c = client.console (net_clients n ! i) @ lines \<and>
    map (\<lambda>om. on_server_message fmt now (msg om)) oms = map Inr lines"
  using assms
proof (induction oms arbitrary: n)
  case Nil
  then show ?case by (intro exI [of _ "net_clients n ! i"] exI [of _ "[]"]) simp
next
  case (Cons om oms)
  let ?c = "net_clients n ! i"
  from Cons.prems(4) obtain line where line: "on_server_message fmt now (msg om) = Inr line" by auto
  let ?q = "(Incoming ?c)\<lparr>data_queue := oms\<rparr>"
  let ?c1 = "print line (?c\<lparr>input_message_queue := ?q\<rparr>)"
  let ?n = "n\<lparr>net_clients := (net_clients n)[i := ?c1]\<rparr>"
  have "main_loop_turn fmt now None ?c = Inr (True, ?c1)"
    using Cons.prems(1,3) line by (simp add: main_loop_turn_def isEmpty_def popFront_def)
  then have "prog_step fmt ?c ?c1" by (rule prog_step.turn)
  moreover have "objects ?c1 = objects ?c" by (simp add: print_def)
  ultimately have step: "net_step fmt n ?n"
    using Cons.prems(2,5) by (intro net_step.client [where c' = ?c1]) simp_all
  have "\<exists>c lines. (net_step fmt)\<^sup>*\<^sup>* ?n (?n\<lparr>net_clients := (net_clients ?n)[i := c]\<rparr>) \<and>
      client.console c = client.console (net_clients ?n ! i) @ lines \<and>
      map (\<lambda>om. on_server_message fmt now (msg om)) oms = map Inr lines"
    using Cons.prems \<open>objects ?c1 = objects ?c\<close>
    by (intro Cons.IH) (simp_all add: Incoming_def print_def isConnected_def split: option.splits)
  then obtain c lines where c: "(net_step fmt)\<^sup>*\<^sup>* ?n (n\<lparr>net_clients := (net_clients n)[i := c]\<rparr>)"
    "client.console c = client.console ?c1 @ lines" "map (\<lambda>om. on_server_message fmt now (msg om)) oms = map Inr lines"
    using Cons.prems(2) by auto
  with converse_rtranclp_into_rtranclp [of "net_step fmt", OF step c(1)] line show ?case
    by (intro exI [of _ c] exI [of _ "line # lines"]) (simp add: print_def)
qed

section \<open>The streams stay joined\<close>

lemma streamed_more: "streamed l c \<Longrightarrow> \<not> overlapped l \<Longrightarrow> tx m = tx l @ bs \<Longrightarrow> streamed m c"
proof -
  assume "streamed l c" "\<not> overlapped l" "tx m = tx l @ bs"
  then obtain k where k: "consumed c = take k (tx l)" by (auto simp: streamed_def)
  have "take k (tx l) = take (min k (length (tx l))) (tx m)" by (simp add: \<open>tx m = _\<close> min_def)
  with k show "streamed m c" unfolding streamed_def by metis
qed

lemma cabled_server:
  assumes "cabled n" "r < length (links (net_server n))" "links s = (links (net_server n))[r := m]"
    and "streamed m (peer n (plugged n ! r))" "streamed (peer n (plugged n ! r)) m"
  shows "cabled (n\<lparr>net_server := s\<rparr>)"
proof -
  have "streamed (links s ! q) (peer n (plugged n ! q)) \<and> streamed (peer n (plugged n ! q)) (links s ! q)"
    if q: "q < length (plugged n)" for q
  proof -
    have "streamed (links (net_server n) ! q) (peer n (plugged n ! q)) \<and>
        streamed (peer n (plugged n ! q)) (links (net_server n) ! q)" using assms(1) q by (simp add: cabled_def)
    with assms(2-5) show ?thesis by (cases "q = r") simp_all
  qed
  with assms(1,3) show ?thesis by (simp add: cabled_def is_object_def peer_def)
qed

lemma cabledD:
  assumes "cabled n" "r < length (links (net_server n))"
  shows "r < length (plugged n)" "is_object n (plugged n ! r)"
    "streamed (links (net_server n) ! r) (peer n (plugged n ! r))"
    "streamed (peer n (plugged n ! r)) (links (net_server n) ! r)"
  using assms by (auto simp: cabled_def)

lemma objects_update:
  assumes "i < length (net_clients n)" "length (objects c) = length (objects (net_clients n ! i))"
  shows "is_object (n\<lparr>net_clients := (net_clients n)[i := c]\<rparr>) p \<longleftrightarrow> is_object n p"
    and "peer (n\<lparr>net_clients := (net_clients n)[i := c]\<rparr>) (j, k) = (if j = i then objects c ! k else peer n (j, k))"
  using assms by (auto simp: is_object_def peer_def nth_list_update)

lemma cabled_client:
  assumes "cabled n" "r < length (plugged n)" "plugged n ! r = (i, k)" "i < length (net_clients n)"
    and "objects c = (objects (net_clients n ! i))[k := m]"
    and "streamed (links (net_server n) ! r) m" "streamed m (links (net_server n) ! r)"
  shows "cabled (n\<lparr>net_clients := (net_clients n)[i := c]\<rparr>)"
proof -
  let ?n = "n\<lparr>net_clients := (net_clients n)[i := c]\<rparr>"
  have plug: "(i, k) \<in> set (plugged n)" using assms(2,3) by (metis nth_mem)
  then have "is_object n (i, k)" using assms(1) by (auto simp: cabled_def)
  then have k: "k < length (objects (net_clients n ! i))" by (simp add: is_object_def)
  have len: "length (objects c) = length (objects (net_clients n ! i))" by (simp add: assms(5))
  note upd = objects_update [OF assms(4) len]
  have other: "peer ?n p = peer n p" if "p \<noteq> (i, k)" for p
    using that upd(2) [of "fst p" "snd p"] assms(5) by (cases p) (auto simp: peer_def nth_list_update)
  have same: "peer ?n (i, k) = m" using upd(2) [of i k] assms(5) k by simp
  have "streamed (links (net_server n) ! q) (peer ?n (plugged n ! q)) \<and>
      streamed (peer ?n (plugged n ! q)) (links (net_server n) ! q)" if q: "q < length (plugged n)" for q
  proof -
    have old: "streamed (links (net_server n) ! q) (peer n (plugged n ! q)) \<and>
        streamed (peer n (plugged n ! q)) (links (net_server n) ! q)" using assms(1) q by (simp add: cabled_def)
    show ?thesis
    proof (cases "q = r")
      case True
      with same assms(3,6,7) show ?thesis by simp
    next
      case False
      then have "plugged n ! q \<noteq> (i, k)"
        using assms(1-3) q by (metis cabled_def nth_eq_iff_index_eq)
      with old other show ?thesis by simp
    qed
  qed
  moreover have "consumed (peer ?n p) = []" if "is_object n p" "p \<notin> set (plugged n)" for p
  proof -
    have "consumed (peer n p) = []" using that assms(1) unfolding cabled_def by blast
    moreover have "p \<noteq> (i, k)" using that(2) plug by blast
    ultimately show ?thesis by (simp add: other)
  qed
  ultimately show ?thesis using assms(1) upd(1) by (simp add: cabled_def)
qed

lemma cabled_same_objects:
  assumes "cabled n" "i < length (net_clients n)" "objects c = objects (net_clients n ! i)"
  shows "cabled (n\<lparr>net_clients := (net_clients n)[i := c]\<rparr>)"
proof -
  have len: "length (objects c) = length (objects (net_clients n ! i))" by (simp add: assms(3))
  note upd = objects_update [OF assms(2) len]
  have "peer (n\<lparr>net_clients := (net_clients n)[i := c]\<rparr>) p = peer n p" for p
    using upd(2) [of "fst p" "snd p"] assms(3) by (cases p) (simp add: peer_def)
  with assms(1) upd(1) show ?thesis by (simp add: cabled_def)
qed

lemma calm_client:
  assumes "calm n" "i < length (net_clients n)" "objects c = (objects (net_clients n ! i))[k := m]"
    and "\<not> overlapped m" "answered_first m"
  shows "calm (n\<lparr>net_clients := (net_clients n)[i := c]\<rparr>)"
proof -
  let ?n = "n\<lparr>net_clients := (net_clients n)[i := c]\<rparr>"
  have len: "length (objects c) = length (objects (net_clients n ! i))" by (simp add: assms(3))
  note upd = objects_update [OF assms(2) len]
  have "\<not> overlapped (peer ?n p) \<and> answered_first (peer ?n p)" if p: "is_object n p" for p
  proof -
    obtain a b where ab: "p = (a, b)" by (cases p)
    have "\<not> overlapped (peer n p)" "answered_first (peer n p)" using calmD [OF assms(1) p] by simp_all
    moreover have "peer ?n p = peer n p \<or> p = (i, k) \<and> peer ?n p = m"
    proof (cases "a = i")
      case True
      with p ab have "b < length (objects (net_clients n ! i))" by (simp add: is_object_def)
      with True ab upd(2) [of a b] assms(3) show ?thesis by (cases "b = k") (simp_all add: peer_def)
    next
      case False
      with ab upd(2) [of a b] show ?thesis by simp
    qed
    ultimately show ?thesis using assms(4,5) by auto
  qed
  with assms(1) upd(1) show ?thesis by (simp add: calm_def)
qed

lemma calm_server:
  assumes "calm n" "links s = (links (net_server n))[r := m]" "\<not> overlapped m"
  shows "calm (n\<lparr>net_server := s\<rparr>)"
proof -
  have "\<not> overlapped (links s ! q)" if "q < length (links (net_server n))" for q
    using that assms by (cases "q = r") (simp_all add: calm_def)
  with assms show ?thesis by (simp add: calm_def is_object_def peer_def)
qed

text \<open>A connection of the server is connected from the start.\<close>

lemma no_connect_apply:
  "Io Async_connect \<notin> set es \<Longrightarrow> Async_connect \<notin> set (pending l) \<Longrightarrow> Async_connect \<notin> set (pending (apply_effects es l))"
proof (induction es arbitrary: l)
  case (Cons e es)
  then show ?case by (cases e) (auto split: io_call.splits)
qed simp

lemma fire_no_connect:
  assumes "fire self ev l = Inr l'" "Async_connect \<notin> set (pending l)"
  shows "Async_connect \<notin> set (pending l')"
proof -
  have "Io Async_connect \<notin> set es" if "handle self ev c = Inr (c', es)" for c c' es
    using that by (cases "(self, ev, c)" rule: handle.cases)
      (auto simp: handler_defs Let_def bind_res_Inr_iff split: if_splits)
  with assms no_connect_apply show ?thesis by (fastforce simp: fire_def bind_res_Inr_iff)
qed

lemma server_no_connect:
  "link_reach self (server_link u_id clock hs_in ms) l \<Longrightarrow> Async_connect \<notin> set (pending l)"
proof (induction rule: link_reach.induct)
  case init
  show ?case by (auto simp: run_defs)
next
  case (step l l')
  from step.hyps(2) step.IH show ?case
    by (induction rule: link_step.induct)
      (auto dest!: fire_no_connect simp: link_state_defs SendData_def Connection.Disconnect_def)
qed

section \<open>From the server's queue to the client's console\<close>

lemma received_all_nth:
  "t < length ms \<Longrightarrow> \<exists>tmp'. received_all tmp ms ! t = received tmp' (ms ! t)"
  by (induction ms arbitrary: tmp t) (auto simp: nth_Cons split: nat.splits)

lemma length_received_all [simp]: "length (received_all tmp ms) = length ms"
  by (induction ms arbitrary: tmp) simp_all

text \<open>
  A client that listens to the connection \<open>r\<close> of the server: it is connected by it, its I/O
  thread runs, it is past the handshake, and what has arrived is a part of what was sent.
\<close>

definition listening :: "network \<Rightarrow> nat \<Rightarrow> nat \<Rightarrow> nat \<Rightarrow> bool" where
  "listening n r i k \<longleftrightarrow> r < length (links (net_server n)) \<and> plugged n ! r = (i, k) \<and>
     socket_open (conn (links (net_server n) ! r)) \<and>
     thr_running (net_clients n ! i) \<and> connection_module (net_clients n ! i) = Some k \<and>
     (\<exists>b j. reading b (peer n (i, k)) \<and>
        consumed (peer n (i, k)) @ rx (peer n (i, k)) = take j (tx (links (net_server n) ! r)))"

text \<open>First the server's connection writes all that it has accepted.\<close>

lemma server_writes:
  assumes "net_reach fmt id0 n" "calm n" "listening n r i k"
  obtains n' where "(net_step fmt)\<^sup>*\<^sup>* n n'" "net_clients n' = net_clients n" "plugged n' = plugged n" "calm n'"
    "listening n' r i k" "items (links (net_server n') ! r) = items (links (net_server n) ! r)"
    "tx (links (net_server n') ! r) = stream_of (items (links (net_server n) ! r))"
proof -
  let ?l = "links (net_server n) ! r"
  have ok: "net_ok id0 n" using assms(1) by (rule net_ok_reach)
  have r: "r < length (links (net_server n))" and lis: "plugged n ! r = (i, k)" "socket_open (conn ?l)"
    "thr_running (net_clients n ! i)" "connection_module (net_clients n ! i) = Some k"
    using assms(3) by (simp_all add: listening_def)
  obtain b j where rd: "reading b (peer n (i, k))" "consumed (peer n (i, k)) @ rx (peer n (i, k)) = take j (tx ?l)"
    using assms(3) by (auto simp: listening_def)
  obtain u clock hs_in qs where l: "link_reach r (server_link u clock hs_in qs) ?l"
    using ok r by (auto simp: net_ok_def origin_ok_def)
  have ov: "\<not> overlapped ?l" using assms(2) r by (simp add: calm_def)
  have "write_ready ?l"
    using reached_write_inv [OF by_server [OF l]] ov lis(2) server_no_connect [OF l] by (simp add: write_ready_def)
  from drain_quietly [OF this] obtain l' where l':
    "quiet_run (writes_on ?l) r ?l l'" "write_ready l'" "items l' = items ?l" "tx l' = stream_of (items ?l)" by blast
  have "cabled n" using ok by (simp add: net_ok_def)
  have "cabled (n\<lparr>net_server := s\<rparr>)"
    if m: "writes_on ?l m" and s: "links s = (links (net_server n))[r := m]" for m s
  proof (rule cabled_server [OF \<open>cabled n\<close> r s])
    show "streamed m (peer n (plugged n ! r))" using streamed_more [OF cabledD(3) [OF \<open>cabled n\<close> r] ov] m by (auto simp: writes_on_def)
    show "streamed (peer n (plugged n ! r)) m" using cabledD(4) [OF \<open>cabled n\<close> r] m by (simp add: streamed_def writes_on_def)
  qed
  with lift_server_run [OF l'(1) r refl] obtain s where s: "(net_step fmt)\<^sup>*\<^sup>* n (n\<lparr>net_server := s\<rparr>)" "links s = (links (net_server n))[r := l']"
    unfolding after_served_def by blast
  have "take (length (tx ?l)) (tx l') = tx ?l" using link_framing [OF by_server [OF l] ov] l'(4) by simp
  then have "take j (tx ?l) = take (min j (length (tx ?l))) (tx l')" by (metis take_take)
  with rd have "listening (n\<lparr>net_server := s\<rparr>) r i k"
    using r lis s(2) l'(2) by (auto simp: listening_def write_ready_def peer_def)
  moreover have "calm (n\<lparr>net_server := s\<rparr>)"
    using calm_server [OF assms(2) s(2)] l'(2) by (simp add: write_ready_def)
  ultimately show ?thesis using s r l'(3,4) by (intro that [of "n\<lparr>net_server := s\<rparr>"]) simp_all
qed

lemma frames_sent:
  assumes "net_ok id0 n" "calm n" "r < length (links (net_server n))"
  shows "recv_frames empty_message (drop 8 (stream_of (items (links (net_server n) ! r)))) =
    received_all empty_message (messages_of (items (links (net_server n) ! r)))"
proof -
  obtain u clock hs_in qs where l: "link_reach r (server_link u clock hs_in qs) (links (net_server n) ! r)"
    using assms(1,3) by (auto simp: net_ok_def origin_ok_def)
  from server_items [OF l] obtain ms where ms: "items (links (net_server n) ! r) = Hs (le_bytes 8 clock) # map Msg ms" ..
  then have "list_all sendable ms" using server_sends [OF assms] by (auto simp: list_all_iff)
  moreover have "stream_of (map Msg ms) = concat (map wire_bytes ms)" by (induction ms) auto
  ultimately show ?thesis using recv_wire_all by (simp add: ms)
qed

text \<open>Then the client reads all of it.\<close>

lemma client_reads:
  assumes "net_reach fmt id0 n" "calm n" "listening n r i k"
    and "tx (links (net_server n) ! r) = stream_of (items (links (net_server n) ! r))"
  obtains c oms where "(net_step fmt)\<^sup>*\<^sup>* n (n\<lparr>net_clients := (net_clients n)[i := c]\<rparr>)" "i < length (net_clients n)"
    "calm (n\<lparr>net_clients := (net_clients n)[i := c]\<rparr>)" "isConnected c" "client.console c = client.console (net_clients n ! i)"
    "data_queue (Incoming c) = data_queue (Incoming (net_clients n ! i)) @ drop (length (delivered (peer n (i, k)))) oms"
    "map msg oms = received_all empty_message (messages_of (items (links (net_server n) ! r)))"
    "length (delivered (peer n (i, k))) \<le> length oms"
proof -
  let ?l = "links (net_server n) ! r" and ?m = "peer n (i, k)" and ?c = "net_clients n ! i"
  have ok: "net_ok id0 n" using assms(1) by (rule net_ok_reach)
  have r: "r < length (links (net_server n))" and lis: "plugged n ! r = (i, k)" "thr_running ?c" "connection_module ?c = Some k"
    using assms(3) by (simp_all add: listening_def)
  obtain b j where rd: "reading b ?m" "consumed ?m @ rx ?m = take j (tx ?l)" using assms(3) by (auto simp: listening_def)
  then obtain bs where bs: "tx ?l = (consumed ?m @ rx ?m) @ bs" by (metis append_take_drop_id)
  have obj: "is_object n (i, k)" using net_okD(1) [OF ok r] lis(1) by simp
  then have i: "i < length (net_clients n)" "k < length (objects ?c)" by (simp_all add: is_object_def)
  have "client_own ?c" using net_okD(2) [OF ok obj] by simp
  then obtain clock hs where m: "link_reach k (client_link clock hs) ?m"
    using i by (auto simp: client_own_def client_inv_def object_ok_def peer_def)
  let ?m1 = "?m\<lparr>rx := rx ?m @ bs\<rparr>"
  have arr: "link_step k ?m ?m1" by (rule link_step.arrive)
  have inv: "read_inv k ?m1" using read_inv_step [OF arr] reached_read_inv [OF by_client [OF m]] by blast
  have "reading b ?m1" using rd(1) by (simp add: reading_def)
  from read_quietly [OF inv this] obtain m' k' where m': "quiet_run (reads_on (tx ?l) ?m1) k ?m1 m'" "reading k' m'"
    "map msg (delivered m') = recv_frames empty_message (drop 8 (tx ?l))" using bs by auto
  have "sending_part ?m1 = sending_part ?m" by (simp add: sending_part_def)
  then have same_good: "reads_on (tx ?l) ?m1 = reads_on (tx ?l) ?m" by (simp add: reads_on_def fun_eq_iff)
  have "reads_on (tx ?l) ?m ?m1" using bs rd(1) by (auto simp: reads_on_def reading_def sending_part_def)
  then have run: "quiet_run (reads_on (tx ?l) ?m) k ?m m'"
    using m'(1) unfolding same_good by (rule quiet_run.more [OF arr quiet_arrive])
  have cab: "cabled n" using ok by (simp add: net_ok_def)
  then have plug: "r < length (plugged n)" using r by (simp add: cabled_def)
  have good: "streamed ?l x \<and> overlapped x = overlapped ?m \<and> tx x = tx ?m \<and> items x = items ?m"
    if "reads_on (tx ?l) ?m x" for x
  proof -
    from that obtain rest where "consumed x @ rest = tx ?l" by (auto simp: reads_on_def)
    then have "consumed x = take (length (consumed x)) (tx ?l)" by (metis append_eq_conv_conj)
    with that show ?thesis by (auto simp: streamed_def reads_on_def sending_part_def)
  qed
  have up: "streamed ?m ?l" using cabledD(4) [OF cab r] lis(1) by simp
  have "\<exists>c. (net_step fmt)\<^sup>*\<^sup>* n (n\<lparr>net_clients := (net_clients n)[i := c]\<rparr>) \<and> after_run k m' ?c c"
  proof (intro lift_client_run [OF run i _ lis(2)])
    show "cabled (n\<lparr>net_clients := (net_clients n)[i := c]\<rparr>)"
      if "reads_on (tx ?l) ?m m" "objects c = (objects ?c)[k := m]" for m c
      using good [OF that(1)] up by (intro cabled_client [OF cab plug lis(1) i(1) that(2)]) (simp_all add: streamed_def)
  qed (simp add: peer_def)
  then obtain c where c: "(net_step fmt)\<^sup>*\<^sup>* n (n\<lparr>net_clients := (net_clients n)[i := c]\<rparr>)" "after_run k m' ?c c" by blast
  have "reads_on (tx ?l) ?m ?m" using bs rd(1) by (auto simp: reads_on_def reading_def)
  from good [OF quiet_run_last [OF run this]] have same: "overlapped m' = overlapped ?m" "items m' = items ?m" by simp_all
  have objs: "objects c = (objects ?c)[k := m']" using c(2) by (simp add: after_run_def)
  have "isConnected c"
    using c(2) m'(2) i(2) lis(3) by (simp add: after_run_def isConnected_def reading_def IsConnected_def)
  moreover have "map msg (delivered m') = received_all empty_message (messages_of (items ?l))"
    using m'(3) frames_sent [OF ok assms(2) r] assms(4) by simp
  moreover have "calm (n\<lparr>net_clients := (net_clients n)[i := c]\<rparr>)"
    using calmD [OF assms(2) obj] same by (intro calm_client [OF assms(2) i(1) objs]) (simp_all add: answered_first_def)
  moreover have "length (delivered ?m) \<le> length (delivered m')" using quiet_run_delivered [OF run] by auto
  ultimately show ?thesis using c i(1) by (intro that [of c "delivered m'"]) (simp_all add: after_run_def peer_def)
qed

text \<open>And last its main loop prints what it has been handed.\<close>

lemma all_print:
  assumes "net_ok id0 n" "calm n" "i < length (net_clients n)" "om \<in> set (data_queue (Incoming (net_clients n ! i)))"
  shows "\<exists>line. on_server_message fmt now (msg om) = Inr line"
proof -
  from queue_source [OF assms] obtain k m tmp where "for_client n (i, k) m" "msg om = received tmp m" by blast
  with line_for_client [of n "(i, k)" m fmt now tmp] show ?thesis by auto
qed

lemma prints_all:
  assumes "net_reach fmt id0 n" "calm n" "listening n r i k"
  shows "\<exists>n' lines oms. (net_step fmt)\<^sup>*\<^sup>* n n' \<and> client.console (net_clients n' ! i) = client.console (net_clients n ! i) @ lines \<and>
    map msg oms = received_all empty_message (messages_of (items (links (net_server n) ! r))) \<and>
    map (\<lambda>om. on_server_message fmt now (msg om))
      (data_queue (Incoming (net_clients n ! i)) @ drop (length (delivered (peer n (i, k)))) oms) = map Inr lines"
proof -
  from server_writes [OF assms] obtain n1 where n1: "(net_step fmt)\<^sup>*\<^sup>* n n1" "net_clients n1 = net_clients n"
    "calm n1" "listening n1 r i k" "items (links (net_server n1) ! r) = items (links (net_server n) ! r)"
    "tx (links (net_server n1) ! r) = stream_of (items (links (net_server n) ! r))" by metis
  have r1: "net_reach fmt id0 n1" using n1(1) assms(1) by (rule net_reach_steps)
  from client_reads [OF r1 n1(3,4)] n1(5,6) obtain c oms where
    c: "(net_step fmt)\<^sup>*\<^sup>* n1 (n1\<lparr>net_clients := (net_clients n1)[i := c]\<rparr>)" "i < length (net_clients n1)"
      "calm (n1\<lparr>net_clients := (net_clients n1)[i := c]\<rparr>)" "isConnected c"
      "client.console c = client.console (net_clients n1 ! i)"
      "data_queue (Incoming c) = data_queue (Incoming (net_clients n1 ! i)) @ drop (length (delivered (peer n1 (i, k)))) oms"
      "map msg oms = received_all empty_message (messages_of (items (links (net_server n) ! r)))" by metis
  let ?n = "n1\<lparr>net_clients := (net_clients n1)[i := c]\<rparr>"
  have ok: "net_ok id0 ?n" using net_reach_steps [OF c(1) r1] by (rule net_ok_reach)
  have at: "i < length (net_clients ?n)" "net_clients ?n ! i = c" using c(2) by simp_all
  have "\<forall>om \<in> set (data_queue (Incoming (net_clients ?n ! i))). \<exists>line. on_server_message fmt now (msg om) = Inr line"
    using all_print [OF ok c(3) at(1)] by blast
  moreover have "cabled ?n" using ok by (simp add: net_ok_def)
  ultimately obtain c' lines where turns: "(net_step fmt)\<^sup>*\<^sup>* ?n (?n\<lparr>net_clients := (net_clients ?n)[i := c']\<rparr>)"
    "client.console c' = client.console c @ lines"
    "map (\<lambda>om. on_server_message fmt now (msg om)) (data_queue (Incoming c)) = map Inr lines"
    using lift_turns [OF refl at(1), of fmt now] at(2) c(4) cabled_same_objects [OF _ at(1)] by metis
  have "(net_step fmt)\<^sup>*\<^sup>* n (?n\<lparr>net_clients := (net_clients ?n)[i := c']\<rparr>)"
    using n1(1) c(1) turns(1) by (meson rtranclp_trans)
  moreover have "peer n1 (i, k) = peer n (i, k)" by (simp add: peer_def n1(2))
  ultimately show ?thesis using turns(2,3) c(2,5,6,7) n1(2)
    by (intro exI [of _ "?n\<lparr>net_clients := (net_clients ?n)[i := c']\<rparr>"] exI [of _ lines] exI [of _ oms]) simp
qed

text \<open>So each message accepted for the client, and not handed to it yet, gets printed.\<close>

lemma accepted_printed:
  assumes "net_reach fmt id0 n" "calm n" "listening n r i k"
    and "t < length (messages_of (items (links (net_server n) ! r)))" "length (delivered (peer n (i, k))) \<le> t"
  shows "\<exists>n' new line tmp. (net_step fmt)\<^sup>*\<^sup>* n n' \<and>
    client.console (net_clients n' ! i) = client.console (net_clients n ! i) @ new \<and> line \<in> set new \<and>
    on_server_message fmt now (received tmp (messages_of (items (links (net_server n) ! r)) ! t)) = Inr line"
proof -
  let ?ms = "messages_of (items (links (net_server n) ! r))" and ?d = "length (delivered (peer n (i, k)))"
  let ?q = "data_queue (Incoming (net_clients n ! i))"
  from prints_all [OF assms(1-3), of now] obtain n' lines oms where
    n': "(net_step fmt)\<^sup>*\<^sup>* n n'" "client.console (net_clients n' ! i) = client.console (net_clients n ! i) @ lines"
      "map msg oms = received_all empty_message ?ms"
      "map (\<lambda>om. on_server_message fmt now (msg om)) (?q @ drop ?d oms) = map Inr lines"
    by blast
  have len: "length oms = length ?ms" using arg_cong [OF n'(3), of length] by simp
  with assms(4) have "msg (oms ! t) = received_all empty_message ?ms ! t" by (metis n'(3) nth_map)
  with received_all_nth [OF assms(4)] obtain tmp where m: "msg (oms ! t) = received tmp (?ms ! t)" by metis
  have "drop ?d oms ! (t - ?d) = oms ! t" "t - ?d < length (drop ?d oms)" using assms(4,5) len by simp_all
  then have "oms ! t \<in> set (?q @ drop ?d oms)" by (metis Un_iff nth_mem set_append)
  then have "on_server_message fmt now (msg (oms ! t)) \<in> set (map Inr lines)"
    unfolding n'(4) [symmetric] by auto
  then obtain line where "line \<in> set lines" "on_server_message fmt now (received tmp (?ms ! t)) = Inr line"
    using m by auto
  with n'(1,2) show ?thesis by blast
qed

section \<open>A run\<close>

text \<open>A client that is past the handshake and has not read the server's greeting yet.\<close>

lemma client_waits:
  "case run_actions 0 [Arrive (le_bytes 8 clock @ header_bytes (header accept_message)), Complete 0, Complete 0, Complete 0]
       (client_link c_clock hs) of
     None \<Rightarrow> False
   | Some l \<Rightarrow> consumed l = le_bytes 8 clock \<and> rx l = header_bytes (header accept_message) \<and> \<not> overlapped l \<and>
       reading 8 l \<and> delivered l = [] \<and> items l = [Hs (le_bytes 8 (encrypt_handshake_data clock))]"
  by (simp add: run_defs store_handshake_all reading_def message_read_def)

lemma listening_network:
  "\<exists>n. net_reach fmt id0 n \<and> calm n \<and> listening n 0 0 0 \<and> delivered (peer n (0, 0)) = [] \<and>
     messages_of (items (links (net_server n) ! 0)) = [accept_message]"
proof -
  let ?c = "connected_client 0 0"
  from accepted_network [of fmt id0] obtain s ls where r: "net_reach fmt id0 (solo s ?c)" "links s = [ls]"
    and ls: "\<not> overlapped ls" "consumed ls = []" "tx ls = le_bytes 8 (42 :: u64) @ header_bytes (header accept_message)"
      "socket_open (conn ls)" "messages_of (items ls) = [accept_message]"
    by blast
  obtain lc where lc: "run_actions 0 [Arrive (le_bytes 8 (42 :: u64) @ header_bytes (header accept_message)),
      Complete 0, Complete 0, Complete 0] (client_link 0 0) = Some lc"
      "consumed lc = le_bytes 8 (42 :: u64)" "rx lc = header_bytes (header accept_message)" "\<not> overlapped lc"
      "reading 8 lc" "delivered lc = []" "items lc = [Hs (le_bytes 8 (encrypt_handshake_data 42))]"
    using client_waits [where clock = 42 and c_clock = 0 and hs = 0] by (auto split: option.splits)
  have "consumed lc = take 8 (tx ls)" using lc(2) ls(3) by simp
  from solo_client_run [OF r connected_client_eq(2) lc(1) _ connected_client_eq(4) ls(2) this] obtain c' where
    c': "net_reach fmt id0 (solo s c')" "objects c' = [lc]" "thr_running c'" "connection_module c' = Some 0"
    by (auto simp: calls_nothing_def connected_client_eq(3))
  have peer: "peer (solo s c') (0, 0) = lc" using c'(2) by (simp add: peer_def solo_def)
  have "listening (solo s c') 0 0 0"
    using c' r(2) ls(3,4) lc(2,3,5) unfolding listening_def peer
    by (intro conjI exI [of _ 8] exI [of _ 16]) (simp_all add: solo_def)
  moreover have "calm (solo s c')"
    using r(2) c'(2) ls(1) lc(4,7) by (auto simp: calm_def solo_def is_object_def peer_def answered_first_def)
  ultimately show ?thesis
    using c'(1) r(2) ls(5) lc(6) peer by (intro exI [of _ "solo s c'"]) (simp add: solo_def)
qed

section \<open>Properties\<close>

text \<open>
  C7: what the server has accepted for a listening client can get printed, as long as the writes have kept their
  order. From every reachable state of the network in which no connection has overlapped writes and each client has
  answered the handshake before it sent anything else (\<open>calm\<close>; the code does not guarantee it), for each client
  that listens to its connection and each message that this connection has accepted and the
  client has not been handed yet, there is a run of the network to a state in which the client has
  printed the line for this message, whatever other operations are pending: for a
  message to all it is the greeting that names the sender. (From states with overlapped writes nothing is said.)
\<close>

theorem accepted_gets_printed:
  assumes "net_reach fmt id0 n" "calm n" "listening n r i k"
    and "t < length (messages_of (items (links (net_server n) ! r)))" "length (delivered (peer n (i, k))) \<le> t"
  shows "\<exists>n' new line tmp. (net_step fmt)\<^sup>*\<^sup>* n n' \<and>
    client.console (net_clients n' ! i) = client.console (net_clients n ! i) @ new \<and> line \<in> set new \<and>
    on_server_message fmt now (received tmp (messages_of (items (links (net_server n) ! r)) ! t)) = Inr line \<and>
    (\<forall>sender. messages_of (items (links (net_server n) ! r)) ! t = all_message sender \<longrightarrow>
       line = ''Hello from ['' @ dec_nat (unat sender) @ '']'')"
proof -
  from accepted_printed [OF assms, of now] obtain n' new line tmp where
    n': "(net_step fmt)\<^sup>*\<^sup>* n n'" "client.console (net_clients n' ! i) = client.console (net_clients n ! i) @ new"
      "line \<in> set new" "on_server_message fmt now (received tmp (messages_of (items (links (net_server n) ! r)) ! t)) = Inr line"
    by blast
  moreover have "line = ''Hello from ['' @ dec_nat (unat sender) @ '']''"
    if "messages_of (items (links (net_server n) ! r)) ! t = all_message sender" for sender
    using n'(4) client_reads_server [of fmt now tmp sender] that by simp
  ultimately show ?thesis by blast
qed

theorem accepted_gets_printed_witness:
  "\<exists>n n' new. net_reach (\<lambda>d. []) 10000 n \<and> (net_step (\<lambda>d. []))\<^sup>*\<^sup>* n n' \<and>
    client.console (net_clients n' ! 0) = client.console (net_clients n ! 0) @ new \<and>
    ''Server accepted connection.'' \<in> set new"
proof -
  from listening_network [of "\<lambda>d. []" 10000] obtain n where
    n: "net_reach (\<lambda>d. []) 10000 n" "calm n" "listening n 0 0 0" "delivered (peer n (0, 0)) = []"
      "messages_of (items (links (net_server n) ! 0)) = [accept_message]" by blast
  from accepted_gets_printed [OF n(1-3), of 0 50] n(4,5) obtain n' new line tmp where
    n': "(net_step (\<lambda>d. []))\<^sup>*\<^sup>* n n'" "client.console (net_clients n' ! 0) = client.console (net_clients n ! 0) @ new"
      "line \<in> set new" "on_server_message (\<lambda>d. []) 50 (received tmp accept_message) = Inr line" by auto
  with client_reads_server [of "\<lambda>d. []" 50 tmp] have "line = ''Server accepted connection.''" by simp
  with n(1) n' show ?thesis by blast
qed

end
