(* ===== verification/Network_Round.thy ===== *)
theory Network_Round
  imports Network_Progress
begin

text \<open>
  A message goes all the way round the closed system: from a key pressed at one client over the
  server to the console of another client, or, for a ping, back to its own. Each stage is a
  run of the network that leaves the other connections as they were.
\<close>

section \<open>Accepting a posted message\<close>

lemma greeting_done_idle:
  assumes "write_ready l" "greeting_done l" "data_queue (out_msg_queue (conn l)) = []"
  shows "filter is_write (pending l) = []"
proof (rule ccontr)
  assume "filter is_write (pending l) \<noteq> []"
  then obtain op where op: "op \<in> set (filter is_write (pending l))" by (cases "filter is_write (pending l)") auto
  have ph: "write_phase (filter is_write (pending l)) [] (items l) (tx l)"
    using assms(1,3) by (auto simp: write_ready_def write_inv_def write_view_def write_ok_view.simps)
  from write_phase_single [OF this op] ph have "write_phase [op] [] (items l) (tx l)" by simp
  then obtain bs where "op = Async_write bs H_SendValidationData" by cases auto
  with op assms(2) show False by (auto simp: greeting_done_def)
qed

text \<open>The task that \<open>SendData\<close> has posted can run, and then the message is accepted.\<close>

lemma accept_post:
  assumes "write_ready l" "greeting_done l" "Post (Do_SendData m) \<in> set (pending l)"
  shows "\<exists>l'. link_step self l l' \<and> write_ready l' \<and> greeting_done l' \<and> items l' = items l @ [Msg m] \<and>
    tx l' = tx l \<and> rx l' = rx l \<and> consumed l' = consumed l \<and> delivered l' = delivered l \<and>
    (\<forall>b. reading b l \<longrightarrow> reading b l') \<and> quiet l l'"
proof -
  from assms(3) obtain xs ys where p: "pending l = xs @ Post (Do_SendData m) # ys" by (blast dest: split_list)
  let ?l = "task_state (xs @ ys) (Do_SendData m) l" and ?q = "data_queue (out_msg_queue (conn l))"
  have none: "filter is_write (xs @ ys) = []" if "?q = []"
    using greeting_done_idle [OF assms(1,2) that] p by simp
  have "\<exists>l'. fire self (Run (Do_SendData m)) ?l = Inr l' \<and> \<not> overlapped l' \<and> socket_open (conn l') \<and>
      Async_connect \<notin> set (pending l') \<and> greeting_done l' \<and> items l' = items l @ [Msg m] \<and>
      tx l' = tx l \<and> rx l' = rx l \<and> consumed l' = consumed l \<and> delivered l' = delivered l \<and>
      (\<forall>b. reading b l \<longrightarrow> reading b l')"
  proof (cases ?q)
    case Nil
    with none have w: "filter is_write xs = []" "filter is_write ys = []" by simp_all
    with Nil p assms(1,2) show ?thesis
      by (auto simp: fire_def handler_defs task_state_def write_ready_def isEmpty_def pushBack_def front_elem_def
          list_ex_is_write greeting_done_def reading_def Let_def)
  next
    case (Cons m0 q)
    with p assms(1,2) show ?thesis
      by (auto simp: fire_def handler_defs task_state_def write_ready_def isEmpty_def pushBack_def
          greeting_done_def reading_def Let_def)
  qed
  then obtain l' where l': "fire self (Run (Do_SendData m)) ?l = Inr l'" "\<not> overlapped l'" "socket_open (conn l')"
    "Async_connect \<notin> set (pending l')" "greeting_done l'" "items l' = items l @ [Msg m]" "tx l' = tx l"
    "rx l' = rx l" "consumed l' = consumed l" "delivered l' = delivered l" "\<forall>b. reading b l \<longrightarrow> reading b l'" by blast
  have st: "link_step self l l'" using p l'(1) by (rule link_step.task)
  have "quiet l l'"
    using fire_outgoing [OF l'(1)] p by (auto simp: quiet_def outgoing_def task_state_def)
  moreover have "write_inv l'" using write_inv_step [OF st] assms(1) by (simp add: write_ready_def)
  ultimately show ?thesis using st l' unfolding write_ready_def by blast
qed

text \<open>Draining and reading keep it.\<close>

lemma greeting_done_iff: "greeting_done l \<longleftrightarrow> (\<forall>bs. Async_write bs H_SendValidationData \<notin> set (filter is_write (pending l)))"
  by (simp add: greeting_done_def)

lemma greeting_done_writes:
  "filter is_write (pending l') = filter is_write (pending l) \<Longrightarrow> greeting_done l' = greeting_done l"
  unfolding greeting_done_iff by (rule arg_cong)

lemma reading_part_reading: "reading_part l' = reading_part l \<Longrightarrow> write_ready l' \<Longrightarrow> reading b l \<Longrightarrow> reading b l'"
proof -
  assume r: "reading_part l' = reading_part l" "write_ready l'" "reading b l"
  then obtain h where h: "message_read h" "Async_read b h \<in> set (pending l)" by (auto simp: reading_def)
  then have "Async_read b h \<in> set (filter (\<lambda>op. \<not> is_write op) (pending l'))" using r(1) by (simp add: reading_part_def)
  with h r(2) show ?thesis by (auto simp: reading_def write_ready_def)
qed

section \<open>Linked connections\<close>

text \<open>
  The connection \<open>r\<close> of the server and the object \<open>k\<close> of the client \<open>i\<close> are at work in both
  directions: each end has written its handshake data and reads messages, and what has
  arrived is a part of what the other end has sent.
\<close>

definition linked :: "network \<Rightarrow> nat \<Rightarrow> nat \<Rightarrow> nat \<Rightarrow> bool" where
  "linked n r i k \<longleftrightarrow> listening n r i k \<and> greeting_done (links (net_server n) ! r) \<and> greeting_done (peer n (i, k)) \<and>
     items (peer n (i, k)) \<noteq> [] \<and> (\<exists>b j. reading b (links (net_server n) ! r) \<and>
        consumed (links (net_server n) ! r) @ rx (links (net_server n) ! r) = take j (tx (peer n (i, k))))"

lemma linkedD:
  assumes "net_reach fmt id0 n" "calm n" "linked n r i k"
  shows "r < length (links (net_server n))" "r < length (plugged n)" "plugged n ! r = (i, k)" "is_object n (i, k)"
    "i < length (net_clients n)" "k < length (objects (net_clients n ! i))" "cabled n"
    "reached r (links (net_server n) ! r)" "reached k (peer n (i, k))"
    "write_ready (links (net_server n) ! r)" "write_ready (peer n (i, k))"
proof -
  let ?l = "links (net_server n) ! r" and ?m = "peer n (i, k)"
  have ok: "net_ok id0 n" using assms(1) by (rule net_ok_reach)
  show r: "r < length (links (net_server n))" and p: "plugged n ! r = (i, k)" using assms(3) by (simp_all add: linked_def listening_def)
  show cab: "cabled n" using ok by (simp add: net_ok_def)
  with r show "r < length (plugged n)" by (simp add: cabled_def)
  show obj: "is_object n (i, k)" using net_okD(1) [OF ok r] p by simp
  then show i: "i < length (net_clients n)" "k < length (objects (net_clients n ! i))" by (simp_all add: is_object_def)
  obtain u clock hs_in qs where l: "link_reach r (server_link u clock hs_in qs) ?l"
    using ok r by (auto simp: net_ok_def origin_ok_def)
  have "client_own (net_clients n ! i)" using net_okD(2) [OF ok obj] by simp
  then obtain clock' hs where m: "link_reach k (client_link clock' hs) ?m"
    using i by (auto simp: client_own_def client_inv_def object_ok_def peer_def)
  show "reached r ?l" "reached k ?m" using by_server [OF l] by_client [OF m] .
  moreover have "\<not> overlapped ?l" "\<not> overlapped ?m" using assms(2) r calmD [OF assms(2) obj] by (simp_all add: calm_def)
  moreover have "socket_open (conn ?l)" "socket_open (conn ?m)" "Async_connect \<notin> set (pending ?m)"
    using assms(3) by (auto simp: linked_def listening_def reading_def)
  ultimately show "write_ready ?l" "write_ready ?m"
    using reached_write_inv server_no_connect [OF l] by (simp_all add: write_ready_def)
qed

text \<open>What the links of the others are does not matter.\<close>

lemma linked_cong:
  assumes "links (net_server n') ! r = links (net_server n) ! r" "length (links (net_server n')) = length (links (net_server n))"
    and "plugged n' = plugged n" "peer n' (i, k) = peer n (i, k)"
    and "thr_running (net_clients n' ! i) = thr_running (net_clients n ! i)"
    and "connection_module (net_clients n' ! i) = connection_module (net_clients n ! i)"
  shows "linked n' r i k = linked n r i k"
  using assms by (simp add: linked_def listening_def)

text \<open>One end writes, the other one reads.\<close>

lemma longer_prefix: "xs = take j ys \<Longrightarrow> zs = ys @ bs \<Longrightarrow> \<exists>j. xs = take j zs"
  by (metis append_take_drop_id append_eq_conv_conj append_assoc)

lemma linked_client:
  assumes "linked n r i k" "i < length (net_clients n)" "k < length (objects (net_clients n ! i))"
    and "objects c = (objects (net_clients n ! i))[k := m]" "thr_running c = thr_running (net_clients n ! i)"
      "connection_module c = connection_module (net_clients n ! i)"
    and "reading b m" "greeting_done m" "consumed m @ rx m = take j (tx (links (net_server n) ! r))"
    and "tx m = tx (peer n (i, k)) @ bs" "items m \<noteq> []"
  shows "linked (n\<lparr>net_clients := (net_clients n)[i := c]\<rparr>) r i k"
proof -
  have peer: "peer (n\<lparr>net_clients := (net_clients n)[i := c]\<rparr>) (i, k) = m" using assms(2-4) by (simp add: peer_def)
  from assms(1) obtain b' j' where "reading b' (links (net_server n) ! r)"
    "consumed (links (net_server n) ! r) @ rx (links (net_server n) ! r) = take j' (tx (peer n (i, k)))" by (auto simp: linked_def)
  with longer_prefix [OF this(2) assms(10)] show ?thesis
    using assms peer unfolding linked_def listening_def by auto
qed

lemma linked_server:
  assumes "linked n r i k" "links s = (links (net_server n))[r := l]"
    and "reading b l" "greeting_done l" "consumed l @ rx l = take j (tx (peer n (i, k)))"
    and "tx l = tx (links (net_server n) ! r) @ bs"
  shows "linked (n\<lparr>net_server := s\<rparr>) r i k"
proof -
  have peer: "peer (n\<lparr>net_server := s\<rparr>) = peer n" by (simp add: peer_def fun_eq_iff)
  from assms(1) obtain b' j' where "reading b' (peer n (i, k))"
    "consumed (peer n (i, k)) @ rx (peer n (i, k)) = take j' (tx (links (net_server n) ! r))"
    by (auto simp: linked_def listening_def)
  moreover have "socket_open (conn l)" using assms(3) by (simp add: reading_def)
  ultimately show ?thesis
    using longer_prefix [OF _ assms(6)] assms unfolding linked_def listening_def peer by auto
qed

section \<open>The client sends\<close>

lemma client_accepts:
  assumes "net_reach fmt id0 n" "calm n" "linked n r i k" "Post (Do_SendData m) \<in> set (pending (peer n (i, k)))"
  obtains c where "(net_step fmt)\<^sup>*\<^sup>* n (n\<lparr>net_clients := (net_clients n)[i := c]\<rparr>)" "after_run k (objects c ! k) (net_clients n ! i) c"
    "calm (n\<lparr>net_clients := (net_clients n)[i := c]\<rparr>)" "linked (n\<lparr>net_clients := (net_clients n)[i := c]\<rparr>) r i k"
    "items (objects c ! k) = items (peer n (i, k)) @ [Msg m]" "delivered (objects c ! k) = delivered (peer n (i, k))"
proof -
  let ?l = "links (net_server n) ! r" and ?m = "peer n (i, k)" and ?c = "net_clients n ! i"
  note lk = linkedD [OF assms(1-3)]
  have gd: "greeting_done ?m" "items ?m \<noteq> []" using assms(3) by (simp_all add: linked_def)
  obtain b j where rd: "reading b ?m" "consumed ?m @ rx ?m = take j (tx ?l)"
    using assms(3) by (auto simp: linked_def listening_def)
  from accept_post [OF lk(11) gd(1) assms(4)] obtain m' where m': "link_step k ?m m'" "write_ready m'" "greeting_done m'"
    "items m' = items ?m @ [Msg m]" "tx m' = tx ?m" "rx m' = rx ?m" "consumed m' = consumed ?m"
    "delivered m' = delivered ?m" "\<forall>b. reading b ?m \<longrightarrow> reading b m'" "quiet ?m m'" by blast
  have run: "quiet_run (\<lambda>x. x = m') k ?m m'" using m'(1,10) by (auto intro: quiet_run.intros)
  have cab: "cabled (n\<lparr>net_clients := (net_clients n)[i := c]\<rparr>)" if "x = m'" "objects c = (objects ?c)[k := x]" for x c
  proof (rule cabled_client [OF lk(7,2,3,5) that(2)])
    have "streamed ?l ?m" "streamed ?m ?l" using cabledD(3,4) [OF lk(7,1)] lk(3) by simp_all
    with lk(11) that(1) m'(5,7) show "streamed ?l x" "streamed x ?l" by (auto simp: streamed_def write_ready_def)
  qed
  have "thr_running ?c" "objects ?c ! k = ?m" using assms(3) by (simp_all add: linked_def listening_def peer_def)
  with lk(5,6) have "\<exists>c. (net_step fmt)\<^sup>*\<^sup>* n (n\<lparr>net_clients := (net_clients n)[i := c]\<rparr>) \<and> after_run k m' ?c c"
    using cab by (intro lift_client_run [OF run]) simp_all
  then obtain c where
    c: "(net_step fmt)\<^sup>*\<^sup>* n (n\<lparr>net_clients := (net_clients n)[i := c]\<rparr>)" "after_run k m' ?c c" by blast
  have objs: "objects c = (objects ?c)[k := m']" and at: "objects c ! k = m'" using c(2) lk(6) by (simp_all add: after_run_def)
  have "answered_first ?m" using calmD [OF assms(2) lk(4)] ..
  then obtain g ms where "items ?m = Hs g # map Msg ms" "length g = 8" using gd(2) by (auto simp: answered_first_def)
  then have "answered_first m'" unfolding answered_first_def m'(4) by (intro disjI2 exI [of _ g] exI [of _ "ms @ [m]"]) simp
  with m'(2) have calm: "calm (n\<lparr>net_clients := (net_clients n)[i := c]\<rparr>)"
    by (intro calm_client [OF assms(2) lk(5) objs]) (simp_all add: write_ready_def)
  have "linked (n\<lparr>net_clients := (net_clients n)[i := c]\<rparr>) r i k"
    using c(2) rd m' by (intro linked_client [OF assms(3) lk(5,6) objs, of b j "[]"]) (auto simp: after_run_def)
  with c calm m'(4,8) at show ?thesis by (intro that [of c]) simp_all
qed

lemma client_writes:
  assumes "net_reach fmt id0 n" "calm n" "linked n r i k"
  obtains c where "(net_step fmt)\<^sup>*\<^sup>* n (n\<lparr>net_clients := (net_clients n)[i := c]\<rparr>)" "after_run k (objects c ! k) (net_clients n ! i) c"
    "calm (n\<lparr>net_clients := (net_clients n)[i := c]\<rparr>)" "linked (n\<lparr>net_clients := (net_clients n)[i := c]\<rparr>) r i k"
    "items (objects c ! k) = items (peer n (i, k))" "delivered (objects c ! k) = delivered (peer n (i, k))"
    "tx (objects c ! k) = stream_of (items (peer n (i, k)))"
proof -
  let ?l = "links (net_server n) ! r" and ?m = "peer n (i, k)" and ?c = "net_clients n ! i"
  note lk = linkedD [OF assms(1-3)]
  have gd: "greeting_done ?m" "items ?m \<noteq> []" using assms(3) by (simp_all add: linked_def)
  obtain b j where rd: "reading b ?m" "consumed ?m @ rx ?m = take j (tx ?l)"
    using assms(3) by (auto simp: linked_def listening_def)
  from drain_quietly [OF lk(11)] obtain m' where m': "quiet_run (writes_on ?m) k ?m m'" "write_ready m'" "writes_on ?m m'"
    "items m' = items ?m" "tx m' = stream_of (items ?m)" by blast
  have cab: "cabled (n\<lparr>net_clients := (net_clients n)[i := c]\<rparr>)" if "writes_on ?m x" "objects c = (objects ?c)[k := x]" for x c
  proof (rule cabled_client [OF lk(7,2,3,5) that(2)])
    have st: "streamed ?l ?m" "streamed ?m ?l" using cabledD(3,4) [OF lk(7,1)] lk(3) by simp_all
    with that(1) show "streamed ?l x" by (simp add: streamed_def writes_on_def)
    show "streamed x ?l" using streamed_more [OF st(2)] lk(11) that(1) by (auto simp: writes_on_def write_ready_def)
  qed
  have "thr_running ?c" "objects ?c ! k = ?m" using assms(3) by (simp_all add: linked_def listening_def peer_def)
  with lk(5,6) have "\<exists>c. (net_step fmt)\<^sup>*\<^sup>* n (n\<lparr>net_clients := (net_clients n)[i := c]\<rparr>) \<and> after_run k m' ?c c"
    using cab by (intro lift_client_run [OF m'(1)]) simp_all
  then obtain c where
    c: "(net_step fmt)\<^sup>*\<^sup>* n (n\<lparr>net_clients := (net_clients n)[i := c]\<rparr>)" "after_run k m' ?c c" by blast
  have objs: "objects c = (objects ?c)[k := m']" and at: "objects c ! k = m'" using c(2) lk(6) by (simp_all add: after_run_def)
  have calm: "calm (n\<lparr>net_clients := (net_clients n)[i := c]\<rparr>)"
    using m'(2,4) calmD [OF assms(2) lk(4)]
    by (intro calm_client [OF assms(2) lk(5) objs]) (simp_all add: write_ready_def answered_first_def)
  have part: "greeting_done m'" "reading_part m' = reading_part ?m" "\<exists>bs. tx m' = tx ?m @ bs" using m'(3) gd(1) by (simp_all add: writes_on_def)
  then obtain bs where bs: "tx m' = tx ?m @ bs" by blast
  from part(2) have same: "consumed m' = consumed ?m" "rx m' = rx ?m" "delivered m' = delivered ?m" by (simp_all add: reading_part_def)
  have "linked (n\<lparr>net_clients := (net_clients n)[i := c]\<rparr>) r i k"
    using c(2) rd m'(4) gd(2) bs same part(1) reading_part_reading [OF part(2) m'(2) rd(1)]
    by (intro linked_client [OF assms(3) lk(5,6) objs, of b j bs]) (simp_all add: after_run_def)
  with c calm m'(4,5) same at show ?thesis by (intro that [of c]) simp_all
qed

lemma after_run_trans:
  assumes "after_run k m c c1" "after_run k m' c1 c2" "k < length (objects c)"
    and "\<exists>new. delivered m = delivered (objects c ! k) @ new" "\<exists>new. delivered m' = delivered m @ new"
  shows "after_run k m' c c2"
  using assms unfolding after_run_def by (auto simp: list_update_overwrite)

text \<open>What a client has in its hands to send goes on the stream.\<close>

lemma client_sends:
  assumes "net_reach fmt id0 n" "calm n" "linked n r i k" "Post (Do_SendData m) \<in> set (pending (peer n (i, k)))"
  obtains c where "(net_step fmt)\<^sup>*\<^sup>* n (n\<lparr>net_clients := (net_clients n)[i := c]\<rparr>)" "after_run k (objects c ! k) (net_clients n ! i) c"
    "calm (n\<lparr>net_clients := (net_clients n)[i := c]\<rparr>)" "linked (n\<lparr>net_clients := (net_clients n)[i := c]\<rparr>) r i k"
    "items (objects c ! k) = items (peer n (i, k)) @ [Msg m]" "delivered (objects c ! k) = delivered (peer n (i, k))"
    "tx (objects c ! k) = stream_of (items (objects c ! k))"
proof -
  note lk = linkedD [OF assms(1-3)]
  from client_accepts [OF assms] obtain c where
    c: "(net_step fmt)\<^sup>*\<^sup>* n (n\<lparr>net_clients := (net_clients n)[i := c]\<rparr>)" "after_run k (objects c ! k) (net_clients n ! i) c"
    "calm (n\<lparr>net_clients := (net_clients n)[i := c]\<rparr>)" "linked (n\<lparr>net_clients := (net_clients n)[i := c]\<rparr>) r i k"
    "items (objects c ! k) = items (peer n (i, k)) @ [Msg m]" "delivered (objects c ! k) = delivered (peer n (i, k))" by metis
  let ?n = "n\<lparr>net_clients := (net_clients n)[i := c]\<rparr>"
  have peer: "peer ?n (i, k) = objects c ! k" and at: "net_clients ?n ! i = c" using lk(5) by (simp_all add: peer_def)
  from client_writes [OF net_reach_steps [OF c(1) assms(1)] c(3,4)] obtain c' where
    c': "(net_step fmt)\<^sup>*\<^sup>* ?n (?n\<lparr>net_clients := (net_clients ?n)[i := c']\<rparr>)" "after_run k (objects c' ! k) c c'"
    "calm (?n\<lparr>net_clients := (net_clients ?n)[i := c']\<rparr>)" "linked (?n\<lparr>net_clients := (net_clients ?n)[i := c']\<rparr>) r i k"
    "items (objects c' ! k) = items (objects c ! k)" "delivered (objects c' ! k) = delivered (objects c ! k)"
    "tx (objects c' ! k) = stream_of (items (objects c ! k))" unfolding peer at by metis
  have same: "?n\<lparr>net_clients := (net_clients ?n)[i := c']\<rparr> = n\<lparr>net_clients := (net_clients n)[i := c']\<rparr>" by simp
  have "(net_step fmt)\<^sup>*\<^sup>* n (n\<lparr>net_clients := (net_clients n)[i := c']\<rparr>)" using c(1) c'(1) unfolding same by (rule rtranclp_trans)
  moreover have "after_run k (objects c' ! k) (net_clients n ! i) c'"
    using c(6) c'(6) by (intro after_run_trans [OF c(2) c'(2) lk(6)]) (simp_all add: peer_def)
  ultimately show ?thesis using c c' unfolding same by (intro that [of c']) simp_all
qed

section \<open>The server reads\<close>

lemma few_delivered:
  assumes "net_reach fmt id0 n" "calm n" "r < length (links (net_server n))"
  shows "length (delivered (links (net_server n) ! r)) \<le> length (messages_of (items (peer n (plugged n ! r))))"
    and "length (delivered (peer n (plugged n ! r))) \<le> length (messages_of (items (links (net_server n) ! r)))"
proof -
  have le: "length xs \<le> length ms" if "map msg xs = take j (received_all tmp ms)" for xs ms tmp j
    using arg_cong [OF that, of length] by simp
  note ok = net_ok_reach [OF assms(1)]
  from server_handed [OF ok assms(2,3)] client_handed [OF ok assms(2,3)] le
  show "length (delivered (links (net_server n) ! r)) \<le> length (messages_of (items (peer n (plugged n ! r))))"
    "length (delivered (peer n (plugged n ! r))) \<le> length (messages_of (items (links (net_server n) ! r)))" by blast+
qed

lemma frames_sent_client:
  assumes "answered_first l" "items l \<noteq> []" "\<And>m. Msg m \<in> set (items l) \<Longrightarrow> own_message m"
  shows "recv_frames empty_message (drop 8 (stream_of (items l))) = received_all empty_message (messages_of (items l))"
proof -
  from assms(1,2) obtain g ms where it: "items l = Hs g # map Msg ms" "length g = 8" by (auto simp: answered_first_def)
  then have "list_all sendable ms" using assms(3) sendable_messages by (auto simp: list_all_iff own_message_def)
  moreover have "stream_of (map Msg ms) = concat (map wire_bytes ms)" by (induction ms) auto
  ultimately show ?thesis using recv_wire_all it by simp
qed

lemma server_takes:
  assumes "net_reach fmt id0 n" "calm n" "linked n r i k" "tx (peer n (i, k)) = stream_of (items (peer n (i, k)))"
  obtains s l' where "(net_step fmt)\<^sup>*\<^sup>* n (n\<lparr>net_server := s\<rparr>)" "links s = (links (net_server n))[r := l']"
    "connectionsQueue s = connectionsQueue (net_server n)"
    "data_queue (inMsgQueue s) = data_queue (inMsgQueue (net_server n)) @ drop (length (delivered (links (net_server n) ! r))) (delivered l')"
    "map msg (delivered l') = received_all empty_message (messages_of (items (peer n (i, k))))"
    "\<forall>om \<in> set (delivered l'). remote om = Some r" "conn_id (conn l') = conn_id (conn (links (net_server n) ! r))"
    "calm (n\<lparr>net_server := s\<rparr>)" "linked (n\<lparr>net_server := s\<rparr>) r i k"
proof -
  let ?l = "links (net_server n) ! r" and ?m = "peer n (i, k)"
  note lk = linkedD [OF assms(1-3)]
  have gd: "greeting_done ?l" "items ?m \<noteq> []" using assms(3) by (simp_all add: linked_def)
  obtain b j where rd: "reading b ?l" "consumed ?l @ rx ?l = take j (tx ?m)" using assms(3) by (auto simp: linked_def)
  then obtain bs where bs: "tx ?m = (consumed ?l @ rx ?l) @ bs" by (metis append_take_drop_id)
  let ?l1 = "?l\<lparr>rx := rx ?l @ bs\<rparr>"
  have arr: "link_step r ?l ?l1" by (rule link_step.arrive)
  have inv: "read_inv r ?l1" using read_inv_step [OF arr] reached_read_inv [OF lk(8)] by blast
  have "reading b ?l1" using rd(1) by (simp add: reading_def)
  from read_quietly [OF inv this] obtain l' b' where l': "quiet_run (reads_on (tx ?m) ?l1) r ?l1 l'" "reading b' l'" "consumed l' @ rx l' = tx ?m"
    "map msg (delivered l') = recv_frames empty_message (drop 8 (tx ?m))" using bs by auto
  have "sending_part ?l1 = sending_part ?l" by (simp add: sending_part_def)
  then have same_good: "reads_on (tx ?m) ?l1 = reads_on (tx ?m) ?l" by (simp add: reads_on_def fun_eq_iff)
  have on: "reads_on (tx ?m) ?l ?l" "reads_on (tx ?m) ?l ?l1" using bs rd(1) by (auto simp: reads_on_def reading_def sending_part_def)
  then have run: "quiet_run (reads_on (tx ?m) ?l) r ?l l'"
    using l'(1) unfolding same_good by (intro quiet_run.more [OF arr quiet_arrive])
  have up: "streamed ?l ?m" using cabledD(3) [OF lk(7,1)] lk(3) by simp
  have good: "(\<exists>j. consumed x = take j (tx ?m)) \<and> overlapped x = overlapped ?l \<and> tx x = tx ?l" if "reads_on (tx ?m) ?l x" for x
  proof -
    from that obtain rest where "consumed x @ rest = tx ?m" by (auto simp: reads_on_def)
    then have "consumed x = take (length (consumed x)) (tx ?m)" by (metis append_eq_conv_conj)
    with that show ?thesis by (auto simp: reads_on_def sending_part_def)
  qed
  have cab: "cabled (n\<lparr>net_server := s\<rparr>)" if "reads_on (tx ?m) ?l x" "links s = (links (net_server n))[r := x]" for x s
    using good [OF that(1)] up lk(3) by (intro cabled_server [OF lk(7,1) that(2)]) (auto simp: streamed_def)
  have "\<exists>s. (net_step fmt)\<^sup>*\<^sup>* n (n\<lparr>net_server := s\<rparr>) \<and> after_served r l' (net_server n) s"
    by (rule lift_server_run [OF run lk(1) refl]) (rule cab)
  then obtain s where
    s: "(net_step fmt)\<^sup>*\<^sup>* n (n\<lparr>net_server := s\<rparr>)" "links s = (links (net_server n))[r := l']"
    "connectionsQueue s = connectionsQueue (net_server n)"
    "data_queue (inMsgQueue s) = data_queue (inMsgQueue (net_server n)) @ drop (length (delivered ?l)) (delivered l')"
    by (auto simp: after_served_def)
  note last = good [OF quiet_run_last [OF run on(1)]]
  have "link_ok r ?l" using net_ok_reach [OF assms(1)] lk(1) by (simp add: net_ok_def srv_ok_def srv_inv_def)
  then have "link_ok r l'" by (rule link_reach_invariant [OF quiet_run_reach [OF run]]) (rule link_ok_step)
  have "own_message m" if "Msg m \<in> set (items ?m)" for m using client_end [OF net_ok_reach [OF assms(1)] lk(4)] that by blast
  with calmD [OF assms(2) lk(4)] gd(2)
  have "recv_frames empty_message (drop 8 (stream_of (items ?m))) = received_all empty_message (messages_of (items ?m))"
    by (intro frames_sent_client) simp_all
  moreover have "conn_id (conn l') = conn_id (conn ?l)"
    by (rule link_reach_invariant [OF quiet_run_reach [OF run]]) (simp_all add: step_id)
  moreover have "calm (n\<lparr>net_server := s\<rparr>)" using last lk(10) by (intro calm_server [OF assms(2) s(2)]) (simp add: write_ready_def)
  moreover have "greeting_done l'"
  proof -
    have "sending_part l' = sending_part ?l" using quiet_run_last [OF run on(1)] by (simp add: reads_on_def)
    then have "greeting_done l' = greeting_done ?l" by (intro greeting_done_writes) (simp add: sending_part_def)
    with gd(1) show ?thesis by simp
  qed
  moreover have "linked (n\<lparr>net_server := s\<rparr>) r i k"
    using last l'(3) calculation by (intro linked_server [OF assms(3) s(2) l'(2), of "length (tx ?m)" "[]"]) simp_all
  moreover have "\<forall>om \<in> set (delivered l'). remote om = Some r" using \<open>link_ok r l'\<close> by (simp add: link_ok_def read_inv_def)
  ultimately show ?thesis using s l'(4) assms(4) by (intro that [of s l']) simp_all
qed

section \<open>The server works off its queue\<close>

definition posted :: "message list \<Rightarrow> link \<Rightarrow> link" where
  "posted ms l = l\<lparr>pending := pending l @ map (\<lambda>m. Post (Do_SendData m)) ms\<rparr>"

lemma posted_simps [simp]:
  "posted [] l = l" "posted ms (posted ms' l) = posted (ms' @ ms) l" "conn (posted ms l) = conn l" "tx (posted ms l) = tx l"
  "rx (posted ms l) = rx l" "consumed (posted ms l) = consumed l" "delivered (posted ms l) = delivered l"
  "items (posted ms l) = items l" "overlapped (posted ms l) = overlapped l" "reading b (posted ms l) = reading b l"
  "greeting_done (posted ms l) = greeting_done l"
  by (auto simp: posted_def reading_def greeting_done_def)

lemma post_posted: "post m l = posted [m] l"
  by (simp add: post_def posted_def SendData_def)

definition only_posts :: "server \<Rightarrow> server \<Rightarrow> bool" where
  "only_posts s s' \<longleftrightarrow> length (links s') = length (links s) \<and>
     (\<forall>r < length (links s). \<exists>ms. links s' ! r = posted ms (links s ! r)) \<and>
     (\<forall>p \<in> set (connectionsQueue s). is_live s p \<longrightarrow> p \<in> set (connectionsQueue s'))"

lemma only_postsD:
  assumes "only_posts s s'" "r < length (links s)"
  obtains ms where "links s' ! r = posted ms (links s ! r)"
  using assms by (auto simp: only_posts_def)

lemma only_posts_live: "only_posts s s' \<Longrightarrow> r < length (links s) \<Longrightarrow> is_live s' (Some r) = is_live s (Some r)"
  by (auto simp: only_posts_def is_live_def)

lemma only_posts_trans:
  assumes "only_posts s s1" "only_posts s1 s2" "\<forall>p \<in> set (connectionsQueue s). \<exists>r < length (links s). p = Some r"
  shows "only_posts s s2"
proof -
  have "\<exists>ms. links s2 ! r = posted ms (links s ! r)" if "r < length (links s)" for r
    using only_postsD [OF assms(1) that] only_postsD [OF assms(2), of r] that assms(1) by (metis only_posts_def posted_simps(2))
  moreover have "p \<in> set (connectionsQueue s2)" if "p \<in> set (connectionsQueue s)" "is_live s p" for p
    using that assms only_posts_live [OF assms(1)] unfolding only_posts_def by metis
  ultimately show ?thesis using assms(1,2) by (simp add: only_posts_def)
qed

text \<open>What \<open>onMessage\<close> does to the connections is to post to them.\<close>

lemma message_all_posts:
  assumes "srv_inv s" "no_null s" "distinct (connectionsQueue s)" "hdr_id (header m) = type_id MessageAll"
  obtains s' where "custom_onMessage (Some r) m s = Inr s'" "only_posts s s'"
    "\<forall>q < length (links s). links s' ! q = (if Some q \<in> set (connectionsQueue s) \<and> is_live s (Some q) \<and> q \<noteq> r
       then post (all_message (client_id s r)) (links s ! q) else links s ! q)" "inMsgQueue s' = inMsgQueue s"
proof -
  let ?to = "filter (\<lambda>p. is_live s p \<and> p \<noteq> Some r) (connectionsQueue s)" and ?m = "all_message (client_id s r)"
  from message_all_result [OF assms(1,2,4), of r] obtain out where
    call: "custom_onMessage (Some r) m s = Inr (s\<lparr>connectionsQueue := filter (is_live s) (connectionsQueue s),
       links := post_to ?m ?to (links s), console := out\<rparr>)" (is "_ = Inr ?s") .
  have to: "distinct ?to" "None \<notin> set ?to" using assms(3) by (auto simp: is_live_def)
  have each: "links ?s ! q = (if Some q \<in> set (connectionsQueue s) \<and> is_live s (Some q) \<and> q \<noteq> r
       then post ?m (links s ! q) else links s ! q)" if "q < length (links s)" for q
    using post_to_nth [OF that to, of ?m] by simp
  have "\<exists>ms. links ?s ! q = posted ms (links s ! q)" if "q < length (links s)" for q
    unfolding each [OF that] by (auto simp: post_posted intro: exI [of _ "[]"])
  then have posts: "only_posts s ?s" by (simp add: only_posts_def)
  have "inMsgQueue ?s = inMsgQueue s" by simp
  with call posts show ?thesis using each by (intro that [of ?s]) blast+
qed

lemma ping_posts:
  assumes "r < length (links s)" "hdr_id (header m) = type_id ServerPing"
  obtains s' where "custom_onMessage (Some r) m s = Inr s'" "only_posts s s'"
    "links s' = (links s)[r := post m (links s ! r)]" "inMsgQueue s' = inMsgQueue s"
proof -
  let ?s = "call_SendData r m (say (''['' @ dec_nat (unat (client_id s r)) @ '']: Server ping'') s)"
  have call: "custom_onMessage (Some r) m s = Inr ?s" using assms(2) by (simp add: custom_onMessage_def)
  have links: "links ?s = (links s)[r := post m (links s ! r)]" "inMsgQueue ?s = inMsgQueue s" "connectionsQueue ?s = connectionsQueue s"
    by (simp_all add: call_SendData_eq) (simp add: say_def)
  have "\<exists>ms. links ?s ! q = posted ms (links s ! q)" if "q < length (links s)" for q
    using that unfolding links by (cases "q = r") (auto simp: post_posted intro: exI [of _ "[]"] exI [of _ "[m]"])
  then have "only_posts s ?s" unfolding only_posts_def links by simp
  with call show ?thesis using links(1,2) by (rule that)
qed

lemma message_posts:
  assumes "srv_inv s" "no_null s" "distinct (connectionsQueue s)" "r < length (links s)"
  obtains s' where "custom_onMessage (Some r) m s = Inr s'" "only_posts s s'" "inMsgQueue s' = inMsgQueue s"
proof -
  consider (ping) "hdr_id (header m) = type_id ServerPing" | (all) "hdr_id (header m) = type_id MessageAll"
    | (other) "hdr_id (header m) \<notin> {type_id ServerPing, type_id MessageAll}" by blast
  then show ?thesis
  proof cases
    case ping
    with ping_posts [OF assms(4)] that show ?thesis by metis
  next
    case all
    with message_all_posts [OF assms(1-3)] that show ?thesis by metis
  next
    case other
    moreover have "only_posts s s" by (auto simp: only_posts_def intro: exI [of _ "[]"])
    ultimately show ?thesis by (intro that [of s]) (simp_all add: custom_onMessage_def)
  qed
qed

text \<open>Posts do not touch the streams.\<close>

lemma only_posts_cabled:
  assumes "cabled n" "only_posts (net_server n) s"
  shows "cabled (n\<lparr>net_server := s\<rparr>)"
proof -
  have "streamed (links s ! r) l = streamed (links (net_server n) ! r) l \<and> streamed l (links s ! r) = streamed l (links (net_server n) ! r)"
    if r: "r < length (plugged n)" for r l
  proof -
    from r assms(1) have "r < length (links (net_server n))" by (simp add: cabled_def)
    with assms(2) obtain ms where "links s ! r = posted ms (links (net_server n) ! r)" by (rule only_postsD)
    then show ?thesis by (simp add: streamed_def)
  qed
  with assms show ?thesis by (simp add: cabled_def only_posts_def is_object_def peer_def)
qed

lemma only_posts_calm:
  assumes "calm n" "only_posts (net_server n) s"
  shows "calm (n\<lparr>net_server := s\<rparr>)"
proof -
  have "\<not> overlapped (links s ! r)" if r: "r < length (links (net_server n))" for r
  proof -
    from assms(2) r obtain ms where "links s ! r = posted ms (links (net_server n) ! r)" by (rule only_postsD)
    with assms(1) r show ?thesis by (simp add: calm_def)
  qed
  with assms show ?thesis by (simp add: calm_def only_posts_def is_object_def peer_def)
qed

lemma only_posts_linked:
  assumes "linked n r i k" "only_posts (net_server n) s"
  shows "linked (n\<lparr>net_server := s\<rparr>) r i k"
proof -
  have "r < length (links (net_server n))" using assms(1) by (simp add: linked_def listening_def)
  with assms(2) obtain ms where "links s ! r = posted ms (links (net_server n) ! r)" by (rule only_postsD)
  with assms show ?thesis by (simp add: linked_def listening_def only_posts_def peer_def)
qed

text \<open>One message is taken off the queue, whatever it is.\<close>

definition unqueued :: "owned_message list \<Rightarrow> server \<Rightarrow> server" where
  "unqueued oms s = s\<lparr>inMsgQueue := (inMsgQueue s)\<lparr>data_queue := oms\<rparr>\<rparr>"

lemma unqueued_simps [simp]:
  "links (unqueued oms s) = links s" "connectionsQueue (unqueued oms s) = connectionsQueue s"
  "data_queue (inMsgQueue (unqueued oms s)) = oms"
  by (simp_all add: unqueued_def)

lemma unqueued_live [simp]:
  "is_live (unqueued oms s) = is_live s" "client_id (unqueued oms s) = client_id s"
  by (simp_all add: is_live_live_in client_id_def fun_eq_iff)

lemma unqueued_posts [simp]: "only_posts (unqueued oms s) s' = only_posts s s'"
  by (simp add: only_posts_def)

lemma unqueued_ok:
  assumes "net_ok id0 n" "data_queue (inMsgQueue (net_server n)) = om # oms"
  shows "srv_inv (unqueued oms (net_server n))" "no_null (unqueued oms (net_server n))"
    "distinct (connectionsQueue (unqueued oms (net_server n)))" "\<exists>r < length (links (net_server n)). remote om = Some r"
proof -
  have ok: "srv_inv (net_server n)" "no_null (net_server n)" "distinct (connectionsQueue (net_server n))"
    using assms(1) by (auto simp: net_ok_def srv_ok_def ids_ok_def)
  with assms(2) show "srv_inv (unqueued oms (net_server n))" "no_null (unqueued oms (net_server n))"
    "distinct (connectionsQueue (unqueued oms (net_server n)))" "\<exists>r < length (links (net_server n)). remote om = Some r"
    by (auto simp: srv_inv_def no_null_def unqueued_def)
qed

lemma process_one:
  assumes "net_ok id0 n" "data_queue (inMsgQueue (net_server n)) = om # oms"
    and "custom_onMessage (remote om) (msg om) (unqueued oms (net_server n)) = Inr s" "only_posts (net_server n) s"
  shows "net_step fmt n (n\<lparr>net_server := s\<rparr>)"
proof -
  have "process_message custom_methods (net_server n) = Inr s"
    using assms(2,3) by (simp add: process_message_def custom_methods_def unqueued_def)
  with assms(2) have "quiet_step (net_server n) s" by (intro quiet_step.process) (simp_all add: isEmpty_def)
  moreover have "cabled (n\<lparr>net_server := s\<rparr>)" using assms(1,4) by (intro only_posts_cabled) (simp_all add: net_ok_def)
  ultimately show ?thesis by (intro net_step.server [where ps = "[]"]) simp_all
qed

lemma process_prefix:
  assumes "net_reach fmt id0 n" "data_queue (inMsgQueue (net_server n)) = pre @ rest"
  shows "\<exists>s. (net_step fmt)\<^sup>*\<^sup>* n (n\<lparr>net_server := s\<rparr>) \<and> only_posts (net_server n) s \<and> data_queue (inMsgQueue s) = rest"
  using assms
proof (induction pre arbitrary: n)
  case Nil
  have "only_posts (net_server n) (net_server n)" by (auto simp: only_posts_def intro: exI [of _ "[]"])
  with Nil show ?case by (intro exI [of _ "net_server n"]) simp
next
  case (Cons om pre)
  note ok = net_ok_reach [OF Cons.prems(1)]
  have q: "data_queue (inMsgQueue (net_server n)) = om # (pre @ rest)" using Cons.prems(2) by simp
  note un = unqueued_ok [OF ok q]
  from un(4) obtain r where r: "r < length (links (unqueued (pre @ rest) (net_server n)))" "remote om = Some r" by auto
  obtain s where s: "custom_onMessage (Some r) (msg om) (unqueued (pre @ rest) (net_server n)) = Inr s"
    "only_posts (net_server n) s" "data_queue (inMsgQueue s) = pre @ rest"
    using message_posts [OF un(1-3) r(1), of "msg om"] by (metis unqueued_posts unqueued_simps(3))
  have step: "net_step fmt n (n\<lparr>net_server := s\<rparr>)" by (rule process_one [OF ok q _ s(2)]) (simp add: r(2) s(1))
  with Cons.prems(1) have "net_reach fmt id0 (n\<lparr>net_server := s\<rparr>)" by (rule net_reach.step)
  from Cons.IH [OF this] s(3) have "\<exists>s'. (net_step fmt)\<^sup>*\<^sup>* (n\<lparr>net_server := s\<rparr>) (n\<lparr>net_server := s'\<rparr>) \<and>
      only_posts s s' \<and> data_queue (inMsgQueue s') = rest" by simp
  then obtain s' where
    s': "(net_step fmt)\<^sup>*\<^sup>* (n\<lparr>net_server := s\<rparr>) (n\<lparr>net_server := s'\<rparr>)" "only_posts s s'" "data_queue (inMsgQueue s') = rest"
    by blast
  have "\<forall>p \<in> set (connectionsQueue (net_server n)). \<exists>r < length (links (net_server n)). p = Some r"
  proof
    fix p assume p: "p \<in> set (connectionsQueue (net_server n))"
    with un(2) obtain r where "p = Some r" by (cases p) (auto simp: no_null_def)
    with p un(1) show "\<exists>r < length (links (net_server n)). p = Some r" by (auto simp: srv_inv_def)
  qed
  with s(2) s'(2) have "only_posts (net_server n) s'" by (rule only_posts_trans)
  with converse_rtranclp_into_rtranclp [of "net_step fmt", OF step s'(1)] s'(3) show ?case by blast
qed

section \<open>A message reaches the server\<close>

lemma linked_distinct:
  assumes "net_reach fmt id0 n" "calm n" "linked n r i k" "linked n r' j k'" "r \<noteq> r'"
  shows "i \<noteq> j"
proof
  assume "i = j"
  with assms(3,4) have "k = k'" by (simp add: linked_def listening_def)
  with \<open>i = j\<close> linkedD(2,3) [OF assms(1-3)] linkedD(2,3) [OF assms(1,2,4)] linkedD(7) [OF assms(1-3)] assms(5)
  show False by (metis cabled_def nth_eq_iff_index_eq)
qed

lemma received_all_last:
  "\<exists>tmp'. received_all tmp (ms @ [m]) = received_all tmp ms @ [received tmp' m]"
  by (induction ms arbitrary: tmp) auto

lemma messages_of_append [simp]: "messages_of (its @ its') = messages_of its @ messages_of its'"
  by (induction its rule: messages_of.induct) simp_all

text \<open>The server has taken it and all that was before it.\<close>

lemma server_gets:
  assumes "net_reach fmt id0 n" "calm n" "linked n r i k" "tx (peer n (i, k)) = stream_of (items (peer n (i, k)))"
    and "items (peer n (i, k)) = its @ [Msg m]" "length (delivered (links (net_server n) ! r)) \<le> length (messages_of its)"
  obtains s om tmp where "(net_step fmt)\<^sup>*\<^sup>* n (n\<lparr>net_server := s\<rparr>)" "calm (n\<lparr>net_server := s\<rparr>)"
    "data_queue (inMsgQueue s) = [om]" "remote om = Some r" "msg om = received tmp m"
    "\<forall>r' j k'. linked n r' j k' \<longrightarrow> linked (n\<lparr>net_server := s\<rparr>) r' j k'" "client_id s r = client_id (net_server n) r"
    "\<forall>r' j k'. linked n r' j k' \<and> Some r' \<in> set (connectionsQueue (net_server n)) \<longrightarrow> Some r' \<in> set (connectionsQueue s)"
proof -
  let ?l = "links (net_server n) ! r"
  note lk = linkedD [OF assms(1-3)]
  from server_takes [OF assms(1-4)] obtain s l' where
    s: "(net_step fmt)\<^sup>*\<^sup>* n (n\<lparr>net_server := s\<rparr>)" "links s = (links (net_server n))[r := l']"
    "connectionsQueue s = connectionsQueue (net_server n)"
    "data_queue (inMsgQueue s) = data_queue (inMsgQueue (net_server n)) @ drop (length (delivered ?l)) (delivered l')"
    "map msg (delivered l') = received_all empty_message (messages_of (items (peer n (i, k))))"
    "\<forall>om \<in> set (delivered l'). remote om = Some r" "conn_id (conn l') = conn_id (conn ?l)"
    "calm (n\<lparr>net_server := s\<rparr>)" "linked (n\<lparr>net_server := s\<rparr>) r i k" .
  from received_all_last [of empty_message "messages_of its" m] obtain tmp where
    "map msg (delivered l') = received_all empty_message (messages_of its) @ [received tmp m]" using s(5) assms(5) by auto
  then obtain oms om where d: "delivered l' = oms @ [om]" "msg om = received tmp m" "length oms = length (messages_of its)"
    by (auto simp: map_eq_append_conv dest: arg_cong [where f = length])
  have "data_queue (inMsgQueue s) = (data_queue (inMsgQueue (net_server n)) @ drop (length (delivered ?l)) oms) @ [om]"
    using s(4) d(1,3) assms(6) by simp
  moreover have "net_reach fmt id0 (n\<lparr>net_server := s\<rparr>)" using s(1) assms(1) by (rule net_reach_steps)
  ultimately have "\<exists>s'. (net_step fmt)\<^sup>*\<^sup>* (n\<lparr>net_server := s\<rparr>) (n\<lparr>net_server := s'\<rparr>) \<and> only_posts s s' \<and> data_queue (inMsgQueue s') = [om]"
    using process_prefix [of fmt id0 "n\<lparr>net_server := s\<rparr>"] by simp
  then obtain s' where s': "(net_step fmt)\<^sup>*\<^sup>* (n\<lparr>net_server := s\<rparr>) (n\<lparr>net_server := s'\<rparr>)" "only_posts s s'"
    "data_queue (inMsgQueue s') = [om]" by blast
  have lnk: "linked (n\<lparr>net_server := s\<rparr>) r' j k'" if "linked n r' j k'" for r' j k'
  proof (cases "r' = r")
    case True
    with that assms(3) s(9) show ?thesis by (simp add: linked_def listening_def)
  next
    case False
    with that s(2) show ?thesis by (subst linked_cong [where n = n]) (simp_all add: peer_def)
  qed
  have "r < length (links s)" using lk(1) s(2) by simp
  with s'(2) obtain ms where "links s' ! r = posted ms (links s ! r)" by (rule only_postsD)
  then have id: "client_id s' r = client_id (net_server n) r" using s(2,7) lk(1) by (simp add: client_id_links)
  have live: "Some r' \<in> set (connectionsQueue s')" if "linked n r' j k'" "Some r' \<in> set (connectionsQueue (net_server n))" for r' j k'
  proof -
    have "is_live s (Some r')" using lnk [OF that(1)] by (simp add: linked_def listening_def is_live_def IsConnected_def)
    with that(2) s(3) s'(2) show ?thesis by (simp add: only_posts_def)
  qed
  show ?thesis
  proof (rule that)
    show "(net_step fmt)\<^sup>*\<^sup>* n (n\<lparr>net_server := s'\<rparr>)" using s(1) s'(1) by (rule rtranclp_trans)
    show "calm (n\<lparr>net_server := s'\<rparr>)" using only_posts_calm [OF s(8)] s'(2) by simp
    show "\<forall>r' j k'. linked n r' j k' \<longrightarrow> linked (n\<lparr>net_server := s'\<rparr>) r' j k'"
      using only_posts_linked [OF lnk] s'(2) by simp
    show "remote om = Some r" using s(6) d(1) by simp
  qed (use s'(3) d(2) id live in blast)+
qed

lemma message_arrives:
  assumes "net_reach fmt id0 n" "calm n" "linked n r i k" "Post (Do_SendData m) \<in> set (pending (peer n (i, k)))"
  obtains n' om tmp where "(net_step fmt)\<^sup>*\<^sup>* n n'" "calm n'" "data_queue (inMsgQueue (net_server n')) = [om]"
    "remote om = Some r" "msg om = received tmp m"
    "\<forall>r' j k'. linked n r' j k' \<longrightarrow> linked n' r' j k'" "client_id (net_server n') r = client_id (net_server n) r"
    "\<forall>r' j k'. linked n r' j k' \<and> Some r' \<in> set (connectionsQueue (net_server n)) \<longrightarrow> Some r' \<in> set (connectionsQueue (net_server n'))"
    "\<forall>j. client.console (net_clients n' ! j) = client.console (net_clients n ! j)"
proof -
  note lk = linkedD [OF assms(1-3)]
  from client_sends [OF assms] obtain c where
    c: "(net_step fmt)\<^sup>*\<^sup>* n (n\<lparr>net_clients := (net_clients n)[i := c]\<rparr>)" "after_run k (objects c ! k) (net_clients n ! i) c"
    "calm (n\<lparr>net_clients := (net_clients n)[i := c]\<rparr>)" "linked (n\<lparr>net_clients := (net_clients n)[i := c]\<rparr>) r i k"
    "items (objects c ! k) = items (peer n (i, k)) @ [Msg m]" "tx (objects c ! k) = stream_of (items (objects c ! k))" by metis
  let ?n = "n\<lparr>net_clients := (net_clients n)[i := c]\<rparr>"
  have r1: "net_reach fmt id0 ?n" using c(1) assms(1) by (rule net_reach_steps)
  have peer: "peer ?n (i, k) = objects c ! k" using lk(5) by (simp add: peer_def)
  have cons: "client.console (net_clients ?n ! j) = client.console (net_clients n ! j)" for j
    using c(2) lk(5) by (cases "j = i") (simp_all add: after_run_def)
  have lnk: "linked ?n r' j k'" if "linked n r' j k'" for r' j k'
  proof (cases "r' = r")
    case True
    with that assms(3) c(4) show ?thesis by (simp add: linked_def listening_def)
  next
    case False
    with linked_distinct [OF assms(1-3) that] that show ?thesis
      by (subst linked_cong [where n = n]) (simp_all add: peer_def)
  qed
  have few: "length (delivered (links (net_server ?n) ! r)) \<le> length (messages_of (items (peer n (i, k))))"
    using few_delivered(1) [OF assms(1,2) lk(1)] lk(3) by simp
  from server_gets [OF r1 c(3,4) _ _ few, unfolded peer, OF c(6,5)] obtain s om tmp where
    s: "(net_step fmt)\<^sup>*\<^sup>* ?n (?n\<lparr>net_server := s\<rparr>)" "calm (?n\<lparr>net_server := s\<rparr>)"
    "data_queue (inMsgQueue s) = [om]" "remote om = Some r" "msg om = received tmp m"
    "\<forall>r' j k'. linked ?n r' j k' \<longrightarrow> linked (?n\<lparr>net_server := s\<rparr>) r' j k'" "client_id s r = client_id (net_server ?n) r"
    "\<forall>r' j k'. linked ?n r' j k' \<and> Some r' \<in> set (connectionsQueue (net_server ?n)) \<longrightarrow> Some r' \<in> set (connectionsQueue s)"
    by blast
  show ?thesis
  proof (rule that)
    show "(net_step fmt)\<^sup>*\<^sup>* n (?n\<lparr>net_server := s\<rparr>)" using c(1) s(1) by (rule rtranclp_trans)
    show "\<forall>r' j k'. linked n r' j k' \<longrightarrow> linked (?n\<lparr>net_server := s\<rparr>) r' j k'" using s(6) lnk by blast
    show "\<forall>r' j k'. linked n r' j k' \<and> Some r' \<in> set (connectionsQueue (net_server n)) \<longrightarrow>
        Some r' \<in> set (connectionsQueue (net_server (?n\<lparr>net_server := s\<rparr>)))" using s(8) lnk by simp blast
  qed (use s(2-5,7) cons in simp_all)
qed

end
