(* ===== verification/Network_Join.thy ===== *)
theory Network_Join
  imports Network_Round
begin

text \<open>
  A client that connects is let in: the server accepts it, the two ends exchange their
  handshake data, and from then on both read messages. The others do not notice.
\<close>

section \<open>Runs of actions\<close>

lemma step_tx: "link_step self l l' \<Longrightarrow> (overlapped l \<longrightarrow> overlapped l') \<and> (\<not> overlapped l \<longrightarrow> (\<exists>new. tx l' = tx l @ new))"
proof -
  have effs: "tx (apply_effects es l) = tx l \<and> (overlapped l \<longrightarrow> overlapped (apply_effects es l))" for es l
  proof (induction es arbitrary: l)
    case (Cons e es)
    then show ?case by (cases e) (auto split: io_call.splits)
  qed simp
  have fire: "fire self ev l = Inr l' \<Longrightarrow> tx l' = tx l \<and> (overlapped l \<longrightarrow> overlapped l')" for ev l l'
    using effs by (fastforce simp: fire_def bind_res_Inr_iff)
  show "link_step self l l' \<Longrightarrow> (overlapped l \<longrightarrow> overlapped l') \<and> (\<not> overlapped l \<longrightarrow> (\<exists>new. tx l' = tx l @ new))"
    by (induction rule: link_step.induct) (auto dest!: fire simp: link_state_defs effs)
qed

text \<open>A state between the first and the last one of a run.\<close>

definition on_the_way :: "link \<Rightarrow> link \<Rightarrow> link \<Rightarrow> bool" where
  "on_the_way l l' m \<longleftrightarrow> (\<exists>rest. consumed l' = consumed m @ rest) \<and>
     (overlapped l \<longrightarrow> overlapped m) \<and> (overlapped m \<or> (\<exists>bs. tx m = tx l @ bs))"

lemma run_quiet:
  "run_actions self as l = Some l' \<Longrightarrow> calls_nothing as \<Longrightarrow> quiet_run (on_the_way l l') self l l'"
proof (induction as arbitrary: l)
  case Nil
  then show ?case by (simp add: quiet_run.none)
next
  case (Cons a as)
  then obtain l1 where l1: "do_action self a l = Some l1" "run_actions self as l1 = Some l'"
    by (auto simp: bind_eq_Some_conv)
  have calls: "calls_nothing [a]" "calls_nothing as" using Cons.prems(2) by (simp_all add: calls_nothing_def)
  note tx = step_tx [OF do_action_step [OF l1(1)]]
  then have "on_the_way l l' l1" using run_consumed [OF l1(2)] by (auto simp: on_the_way_def)
  moreover have "quiet_run (on_the_way l l') self l1 l'"
    by (rule quiet_run_mono [OF Cons.IH [OF l1(2) calls(2)]]) (use tx in \<open>auto simp: on_the_way_def\<close>)
  ultimately show ?case by (rule quiet_run.more [OF do_action_step [OF l1(1)] do_action_quiet [OF l1(1) calls(1)]])
qed

lemma on_the_way_take: "on_the_way l l' m \<Longrightarrow> consumed l' = take j bs \<Longrightarrow> \<exists>j. consumed m = take j bs"
  by (metis append_eq_conv_conj on_the_way_def take_take)

lemma on_the_way_streamed:
  assumes "on_the_way l l' m" "streamed l c" "consumed l' = take j (tx c)"
  shows "streamed m c" "streamed c m"
proof -
  show "streamed c m" using on_the_way_take [OF assms(1,3)] by (simp add: streamed_def)
  show "streamed m c"
  proof (cases "overlapped m")
    case False
    with assms(1) obtain bs where "\<not> overlapped l" "tx m = tx l @ bs" by (auto simp: on_the_way_def)
    with streamed_more [OF assms(2)] show ?thesis by blast
  qed (simp add: streamed_def)
qed

lemma server_runs:
  assumes "cabled n" "r < length (links (net_server n))" "plugged n ! r = p" "calls_nothing as"
    and "run_actions r as (links (net_server n) ! r) = Some l'" "consumed l' = take j (tx (peer n p))"
  shows "\<exists>s. (net_step fmt)\<^sup>*\<^sup>* n (n\<lparr>net_server := s\<rparr>) \<and> after_served r l' (net_server n) s"
proof (rule lift_server_run [OF run_quiet [OF assms(5,4)] assms(2) refl])
  fix m and s :: server
  assume m: "on_the_way (links (net_server n) ! r) l' m" and s: "links s = (links (net_server n))[r := m]"
  show "cabled (n\<lparr>net_server := s\<rparr>)"
    using on_the_way_streamed [OF m _ assms(6)] cabledD(3) [OF assms(1,2)] assms(3)
    by (intro cabled_server [OF assms(1,2) s]) simp_all
qed

lemma client_runs:
  assumes "cabled n" "r < length (links (net_server n))" "plugged n ! r = (i, k)" "calls_nothing as" "thr_running (net_clients n ! i)"
    and "run_actions k as (peer n (i, k)) = Some m'" "consumed m' = take j (tx (links (net_server n) ! r))"
  shows "\<exists>c. (net_step fmt)\<^sup>*\<^sup>* n (n\<lparr>net_clients := (net_clients n)[i := c]\<rparr>) \<and> after_run k m' (net_clients n ! i) c"
proof -
  have ik: "i < length (net_clients n)" "k < length (objects (net_clients n ! i))"
    using cabledD(2) [OF assms(1,2)] assms(3) by (simp_all add: is_object_def)
  show ?thesis
  proof (rule lift_client_run [OF run_quiet [OF assms(6,4)] ik _ assms(5)])
    fix m and c :: client
    assume m: "on_the_way (peer n (i, k)) m' m" and c: "objects c = (objects (net_clients n ! i))[k := m]"
    show "cabled (n\<lparr>net_clients := (net_clients n)[i := c]\<rparr>)"
      using on_the_way_streamed [OF m _ assms(7)] cabledD(1,4) [OF assms(1,2)] assms(3)
      by (intro cabled_client [OF assms(1) _ assms(3) ik(1) c]) simp_all
  qed (simp add: peer_def)
qed

lemma cabled_steps: "(net_step fmt)\<^sup>*\<^sup>* n n' \<Longrightarrow> cabled n \<Longrightarrow> cabled n'"
  by (induction rule: rtranclp_induct) (auto elim: net_step.cases)

text \<open>The three runs: the server greets, the client answers, the server validates the answer.\<close>

lemma some_of: "(case x of None \<Rightarrow> False | Some y \<Rightarrow> P y) \<Longrightarrow> \<exists>y. x = Some y \<and> P y"
  by (cases x) auto

definition greeting :: "u64 \<Rightarrow> byte list" where
  "greeting clock = le_bytes 8 clock @ header_bytes (header accept_message)"

lemma greets:
  "case run_actions r [Complete 1, Complete 0, Complete 1] (server_link u_id clock hs_in [accept_message]) of
     None \<Rightarrow> False
   | Some l \<Rightarrow> consumed l = [] \<and> rx l = [] \<and> tx l = greeting clock \<and> \<not> overlapped l \<and>
       (case run_actions r [Arrive (le_bytes 8 (encrypt_handshake_data clock)), Complete 0] l of
          None \<Rightarrow> False
        | Some l' \<Rightarrow> consumed l' = le_bytes 8 (encrypt_handshake_data clock) \<and> rx l' = [] \<and> tx l' = greeting clock \<and>
            \<not> overlapped l' \<and> greeting_done l' \<and> reading 8 l' \<and> socket_open (conn l'))"
  by (simp add: run_defs front_elem_def empty_queue_def pushBack_def popFront_def accept_message_def greeting_def
      greeting_done_def reading_def message_read_def)

lemma answers:
  "case run_actions k [Arrive (greeting clock), Complete 0, Complete 0, Complete 0] (client_link c_clock hs) of
     None \<Rightarrow> False
   | Some l \<Rightarrow> consumed l = le_bytes 8 clock \<and> rx l = header_bytes (header accept_message) \<and> \<not> overlapped l \<and>
       greeting_done l \<and> reading 8 l \<and> delivered l = [] \<and> items l = [Hs (le_bytes 8 (encrypt_handshake_data clock))] \<and>
       tx l = le_bytes 8 (encrypt_handshake_data clock)"
  by (simp add: run_defs store_handshake_all reading_def message_read_def greeting_done_def greeting_def)

section \<open>Joining\<close>

text \<open>A new client connects.\<close>

lemma connects:
  assumes "cabled n" "i < length (net_clients n)" "net_clients n ! i = new_client"
  shows "net_step fmt n (n\<lparr>net_clients := (net_clients n)[i := connected_client 0 0]\<rparr>)" (is "net_step fmt n ?n")
proof (rule net_step.client [OF assms(2) _ refl])
  have none: "objects (net_clients n ! i) = []" using assms(3) by (simp add: new_client_def)
  have obj: "is_object ?n p \<longleftrightarrow> is_object n p \<or> p = (i, 0)" for p
    using assms(2) none by (cases p) (auto simp: is_object_def nth_list_update connected_client_eq)
  have peer: "peer ?n p = (if p = (i, 0) then client_link 0 0 else peer n p)" if "is_object ?n p" for p
    using that assms(2) none unfolding obj
    by (cases p) (auto simp: is_object_def peer_def nth_list_update connected_client_eq)
  have new: "(i, 0) \<notin> set (plugged n)" using assms(1) none by (auto simp: cabled_def is_object_def)
  have old: "peer ?n (plugged n ! r) = peer n (plugged n ! r)" if "r < length (plugged n)" for r
    using that assms(1) new peer obj by (metis cabled_def nth_mem)
  have "consumed (peer ?n p) = []" if "is_object ?n p" "p \<notin> set (plugged n)" for p
  proof (cases "p = (i, 0)")
    case True
    then show ?thesis using peer [OF that(1)] by (simp add: run_defs)
  next
    case False
    with that obj assms(1) peer [OF that(1)] show ?thesis unfolding cabled_def by metis
  qed
  moreover have "streamed (links (net_server n) ! r) (peer ?n (plugged n ! r)) \<and>
      streamed (peer ?n (plugged n ! r)) (links (net_server n) ! r)" if "r < length (plugged n)" for r
    unfolding old [OF that] using that assms(1) by (simp add: cabled_def)
  ultimately show "cabled ?n" using assms(1) obj unfolding cabled_def by simp
  show "prog_step fmt (net_clients n ! i) (connected_client 0 0)"
    unfolding assms(3) by (rule prog_step.connect [OF connected_client_eq(1)])
qed

text \<open>The server accepts it.\<close>

lemma lets_in:
  assumes "net_ok id0 n" "accepting (net_server n) = Suc a" "is_object n p" "p \<notin> set (plugged n)"
  obtains s u where "net_step fmt n (n\<lparr>net_server := s, plugged := plugged n @ [p]\<rparr>)"
    "links s = links (net_server n) @ [server_link u 42 0 [accept_message]]" "accepting s = Suc a"
    "connectionsQueue s = connectionsQueue (net_server n) @ [Some (length (links (net_server n)))]"
proof -
  let ?s = "(net_server n)\<lparr>accepting := a\<rparr>"
  have cab: "cabled n" using assms(1) by (simp add: net_ok_def)
  have "srv_ok id0 ?s" using assms(1) by (simp add: net_ok_def srv_ok_def srv_inv_def no_null_def ids_ok_def client_id_links)
  from custom.accept_ok [OF this, of None "''peer''" 42 0] obtain s where
    s: "on_accept custom_methods None (Some ''peer'') 42 0 ?s = Inr s" by blast
  from accept_custom [OF this] have new: "links s = links (net_server n) @ [server_link (idCounter (net_server n)) 42 0 [accept_message]]"
    "accepting s = Suc a" "connectionsQueue s = connectionsQueue (net_server n) @ [Some (length (links (net_server n)))]" by simp_all
  let ?n = "n\<lparr>net_server := s, plugged := plugged n @ [p]\<rparr>"
  have none: "consumed (peer n p) = []" using cab assms(3,4) unfolding cabled_def by blast
  have same: "peer ?n q = peer n q" "is_object ?n q = is_object n q" for q by (simp_all add: peer_def is_object_def)
  have len: "length (plugged n) = length (links (net_server n))" using cab by (simp add: cabled_def)
  have "streamed (links s ! r) (peer n (plugged ?n ! r)) \<and> streamed (peer n (plugged ?n ! r)) (links s ! r)"
    if "r < length (plugged ?n)" for r
  proof (cases "r = length (plugged n)")
    case True
    then have "links s ! r = server_link (idCounter (net_server n)) 42 0 [accept_message]" "plugged ?n ! r = p"
      using new(1) len by (simp, metis network.select_convs(3) network.surjective network.update_convs(1,3) nth_append_length)
    then show ?thesis using none by (auto simp: streamed_def run_defs intro: exI [of _ 0])
  next
    case False
    with that have "r < length (plugged n)" by simp
    with new(1) len cab show ?thesis by (simp add: nth_append cabled_def)
  qed
  with cab assms(3,4) new(1) have "cabled ?n" unfolding cabled_def same by auto
  moreover have "quiet_step (net_server n) s" using s by (intro quiet_step.accept [OF assms(2)])
  ultimately have "net_step fmt n ?n" by (intro net_step.server [where ps = "[p]"]) simp_all
  with new show ?thesis by (intro that)
qed

text \<open>They exchange their handshake data.\<close>

definition shaken :: "link \<Rightarrow> link \<Rightarrow> bool" where
  "shaken l m \<longleftrightarrow> \<not> overlapped l \<and> greeting_done l \<and> reading 8 l \<and> consumed l @ rx l = tx m \<and>
     \<not> overlapped m \<and> greeting_done m \<and> reading 8 m \<and> consumed m @ rx m = tx l \<and>
     (\<exists>g. items m = [Hs g] \<and> length g = 8)"

lemma shake_hands:
  assumes "cabled n" "r < length (links (net_server n))" "plugged n ! r = (i, k)" "thr_running (net_clients n ! i)"
    and "links (net_server n) ! r = server_link u clock hs_in [accept_message]" "peer n (i, k) = client_link c_clock hs"
  obtains s c l m where "(net_step fmt)\<^sup>*\<^sup>* n (n\<lparr>net_clients := (net_clients n)[i := c], net_server := s\<rparr>)"
    "after_run k m (net_clients n ! i) c" "links s = (links (net_server n))[r := l]" "accepting s = accepting (net_server n)"
    "connectionsQueue s = connectionsQueue (net_server n)" "shaken l m"
proof -
  let ?answer = "le_bytes 8 (encrypt_handshake_data clock)"
  from some_of [OF greets [where r = r and u_id = u and clock = clock and hs_in = hs_in]] obtain l0 where
    l0: "run_actions r [Complete 1, Complete 0, Complete 1] (links (net_server n) ! r) = Some l0" "consumed l0 = []"
      "rx l0 = []" "tx l0 = greeting clock"
    and more: "case run_actions r [Arrive ?answer, Complete 0] l0 of None \<Rightarrow> False
      | Some l' \<Rightarrow> consumed l' = ?answer \<and> rx l' = [] \<and> tx l' = greeting clock \<and>
            \<not> overlapped l' \<and> greeting_done l' \<and> reading 8 l' \<and> socket_open (conn l')"
    unfolding assms(5) by blast
  from some_of [OF more] obtain l where l: "run_actions r [Arrive ?answer, Complete 0] l0 = Some l" "consumed l = ?answer"
    "rx l = []" "tx l = greeting clock" "\<not> overlapped l" "greeting_done l" "reading 8 l" by blast
  from some_of [OF answers [where k = k and clock = clock and c_clock = c_clock and hs = hs]] obtain m where
    m: "run_actions k [Arrive (greeting clock), Complete 0, Complete 0, Complete 0] (peer n (i, k)) = Some m"
      "consumed m = le_bytes 8 clock" "rx m = header_bytes (header accept_message)" "\<not> overlapped m" "greeting_done m"
      "reading 8 m" "items m = [Hs ?answer]" "tx m = ?answer"
    unfolding assms(6) by blast
  have calls: "calls_nothing [Complete 1, Complete 0, Complete 1]" "calls_nothing [Arrive ?answer, Complete 0]"
    "calls_nothing [Arrive (greeting clock), Complete 0, Complete 0, Complete 0]" by (simp_all add: calls_nothing_def)
  have "consumed l0 = take 0 (tx (peer n (i, k)))" using l0(2) by simp
  from server_runs [OF assms(1-3) calls(1) l0(1) this, of fmt] obtain s0 where
    s0: "(net_step fmt)\<^sup>*\<^sup>* n (n\<lparr>net_server := s0\<rparr>)" "after_served r l0 (net_server n) s0" by blast
  let ?n0 = "n\<lparr>net_server := s0\<rparr>"
  have ls: "links s0 = (links (net_server n))[r := l0]" using s0(2) by (simp add: after_served_def)
  have c0: "cabled ?n0" by (rule cabled_steps [OF s0(1) assms(1)])
  have same0: "links (net_server ?n0) ! r = l0" "r < length (links (net_server ?n0))" "plugged ?n0 ! r = (i, k)"
    "net_clients ?n0 = net_clients n" "thr_running (net_clients ?n0 ! i)" "peer ?n0 (i, k) = peer n (i, k)"
    using ls assms(2-4) by (simp_all add: peer_def)
  have "consumed m = take 8 (tx (links (net_server ?n0) ! r))" using m(2) l0(4) same0(1) by (simp add: greeting_def)
  with client_runs [OF c0 same0(2,3) calls(3) same0(5), of m 8 fmt] m(1) same0(6) obtain c where
    c: "(net_step fmt)\<^sup>*\<^sup>* ?n0 (?n0\<lparr>net_clients := (net_clients n)[i := c]\<rparr>)" "after_run k m (net_clients n ! i) c"
    by auto
  let ?n1 = "?n0\<lparr>net_clients := (net_clients n)[i := c]\<rparr>"
  have obj: "is_object n (i, k)" using cabledD(2) [OF assms(1,2)] assms(3) by simp
  have c1: "cabled ?n1" by (rule cabled_steps [OF c(1) c0])
  have same1: "links (net_server ?n1) ! r = l0" "r < length (links (net_server ?n1))" "plugged ?n1 ! r = (i, k)" "peer ?n1 (i, k) = m"
    using same0 c(2) obj by (simp_all add: peer_def is_object_def after_run_def)
  have "consumed l = take 8 (tx (peer ?n1 (i, k)))" unfolding same1(4) m(8) l(2) by simp
  with server_runs [OF c1 same1(2,3) calls(2), of l 8 fmt] l(1) same1(1) obtain s where
    s: "(net_step fmt)\<^sup>*\<^sup>* ?n1 (?n1\<lparr>net_server := s\<rparr>)" "after_served r l s0 s" by auto
  show ?thesis
  proof (rule that)
    have "(net_step fmt)\<^sup>*\<^sup>* n (?n1\<lparr>net_server := s\<rparr>)" using s0(1) c(1) s(1) by (meson rtranclp_trans)
    then show "(net_step fmt)\<^sup>*\<^sup>* n (n\<lparr>net_clients := (net_clients n)[i := c], net_server := s\<rparr>)" by simp
    show "links s = (links (net_server n))[r := l]" "accepting s = accepting (net_server n)"
      "connectionsQueue s = connectionsQueue (net_server n)"
      using s(2) s0(2) by (simp_all add: after_served_def)
    show "shaken l m" using l m by (simp add: shaken_def greeting_def)
  qed (rule c(2))
qed

lemma joins:
  assumes "net_reach fmt id0 n" "calm n" "accepting (net_server n) = Suc a" "i < length (net_clients n)" "net_clients n ! i = new_client"
  obtains n' where "(net_step fmt)\<^sup>*\<^sup>* n n'" "calm n'" "linked n' (length (links (net_server n))) i 0"
    "connectionsQueue (net_server n') = connectionsQueue (net_server n) @ [Some (length (links (net_server n)))]"
    "accepting (net_server n') = Suc a" "length (links (net_server n')) = Suc (length (links (net_server n)))"
    "\<forall>r j k. linked n r j k \<longrightarrow> linked n' r j k" "\<forall>j. j \<noteq> i \<longrightarrow> net_clients n' ! j = net_clients n ! j"
    "length (net_clients n') = length (net_clients n)"
proof -
  let ?r = "length (links (net_server n))"
  have cab: "cabled n" using net_ok_reach [OF assms(1)] by (simp add: net_ok_def)
  have none: "objects (net_clients n ! i) = []" using assms(5) by (simp add: new_client_def)
  let ?n1 = "n\<lparr>net_clients := (net_clients n)[i := connected_client 0 0]\<rparr>"
  have s1: "net_step fmt n ?n1" by (rule connects [OF cab assms(4,5)])
  with assms(1) have r1: "net_reach fmt id0 ?n1" by (rule net_reach.step)
  have new: "is_object ?n1 (i, 0)" "(i, 0) \<notin> set (plugged ?n1)" "accepting (net_server ?n1) = Suc a"
    using assms(3,4) none cab by (auto simp: is_object_def connected_client_eq cabled_def)
  from lets_in [OF net_ok_reach [OF r1] new(3,1,2), of fmt] obtain s u where
    s2: "net_step fmt ?n1 (?n1\<lparr>net_server := s, plugged := plugged ?n1 @ [(i, 0)]\<rparr>)"
    "links s = links (net_server ?n1) @ [server_link u 42 0 [accept_message]]" "accepting s = Suc a"
    "connectionsQueue s = connectionsQueue (net_server ?n1) @ [Some (length (links (net_server ?n1)))]" .
  let ?n2 = "?n1\<lparr>net_server := s, plugged := plugged ?n1 @ [(i, 0)]\<rparr>"
  have r2: "net_reach fmt id0 ?n2" using r1 s2(1) by (rule net_reach.step)
  then have c2: "cabled ?n2" using net_ok_reach by (simp add: net_ok_def)
  have len: "length (plugged n) = ?r" using cab by (simp add: cabled_def)
  have at2: "?r < length (links (net_server ?n2))" "plugged ?n2 ! ?r = (i, 0)" "thr_running (net_clients ?n2 ! i)"
    "links (net_server ?n2) ! ?r = server_link u 42 0 [accept_message]" "peer ?n2 (i, 0) = client_link 0 0"
    using s2(2) assms(4) len by (simp_all add: connected_client_eq peer_def nth_append)
  from shake_hands [OF c2 at2, of fmt] obtain s' c l m where
    s3: "(net_step fmt)\<^sup>*\<^sup>* ?n2 (?n2\<lparr>net_clients := (net_clients ?n2)[i := c], net_server := s'\<rparr>)"
    "after_run 0 m (net_clients ?n2 ! i) c" "links s' = (links (net_server ?n2))[?r := l]" "accepting s' = accepting (net_server ?n2)"
    "connectionsQueue s' = connectionsQueue (net_server ?n2)" "shaken l m" .
  let ?n3 = "?n2\<lparr>net_clients := (net_clients ?n2)[i := c], net_server := s'\<rparr>"
  have cl: "net_clients ?n3 = (net_clients n)[i := c]" by simp
  have lk: "links (net_server ?n3) = links (net_server n) @ [l]" using s2(2) s3(3) by simp
  have pl: "plugged ?n3 = plugged n @ [(i, 0)]" by simp
  have c: "objects c = [m]" "thr_running c" "connection_module c = Some 0"
    using s3(2) assms(4) by (simp_all add: after_run_def connected_client_eq)
  have peer: "peer ?n3 (j, k) = (if j = i then [m] ! k else peer n (j, k))" for j k
    using assms(4) c(1) by (simp add: peer_def)
  have "calm ?n3"
    unfolding calm_def
  proof (intro conjI allI impI)
    fix r assume "r < length (links (net_server ?n3))"
    then show "\<not> overlapped (links (net_server ?n3) ! r)"
      using assms(2) s3(6) unfolding lk by (cases "r = ?r") (auto simp: nth_append calm_def shaken_def)
  next
    fix p assume p: "is_object ?n3 p"
    obtain j k where jk: "p = (j, k)" by (cases p)
    have "\<not> overlapped (peer ?n3 p) \<and> answered_first (peer ?n3 p)"
    proof (cases "j = i")
      case True
      with p jk c(1) assms(4) have "k = 0" by (simp add: is_object_def)
      moreover have "\<not> overlapped m" "answered_first m" using s3(6) by (auto simp: shaken_def answered_first_def)
      ultimately show ?thesis using jk True peer by simp
    next
      case False
      with p jk have "is_object n p" by (simp add: is_object_def)
      with calmD [OF assms(2) this] jk False peer show ?thesis by simp
    qed
    then show "\<not> overlapped (peer ?n3 p)" "answered_first (peer ?n3 p)" by simp_all
  qed
  moreover have "linked ?n3 ?r i 0"
  proof -
    have here: "links (net_server ?n3) ! ?r = l" "plugged ?n3 ! ?r = (i, 0)" "net_clients ?n3 ! i = c" "peer ?n3 (i, 0) = m"
      using lk pl len assms(4) peer by (simp_all add: nth_append)
    have sh: "greeting_done l" "reading 8 l" "consumed l @ rx l = take (length (tx m)) (tx m)" "socket_open (conn l)"
      "greeting_done m" "reading 8 m" "consumed m @ rx m = take (length (tx l)) (tx l)" "items m \<noteq> []"
      using s3(6) by (auto simp: shaken_def reading_def)
    have "\<exists>j. bs = take j bs" for bs :: "byte list" by (rule exI [of _ "length bs"]) simp
    with sh c(2,3) lk show ?thesis unfolding linked_def listening_def here by auto
  qed
  moreover have "linked ?n3 r j k" if "linked n r j k" for r j k
  proof -
    note ld = linkedD [OF assms(1,2) that]
    have "j \<noteq> i" using ld(6) none by auto
    with that ld(1,2) lk pl peer [of j k] show ?thesis
      by (simp add: linked_def listening_def nth_append)
  qed
  moreover have "(net_step fmt)\<^sup>*\<^sup>* n ?n3" using s1 s2(1) s3(1) by (meson converse_rtranclp_into_rtranclp)
  ultimately show ?thesis using s3(4,5) s2(3,4) lk by (intro that [of ?n3]) simp_all
qed

lemma initial_network:
  obtains n where "net_reach fmt id0 n" "calm n" "net_clients n = replicate k new_client" "links (net_server n) = []"
    "accepting (net_server n) = 1" "connectionsQueue (net_server n) = []"
proof -
  from started [of id0] obtain s where s: "Start None (new_server id0) = Inr (True, s)" "links s = []" "accepting s = 1"
    "connectionsQueue s = []" by blast
  let ?n = "\<lparr>net_server = s, net_clients = replicate k new_client, plugged = []\<rparr>"
  have "calm ?n" using s(2) by (auto simp: calm_def is_object_def new_client_def)
  with net_reach.init [OF s(1), of fmt k] s(2-4) show ?thesis by (intro that [of ?n]) simp_all
qed

section \<open>Property\<close>

text \<open>
  C10: a new client can get in. From each reachable state of the network in which no connection has overlapped writes,
  each client has answered the handshake first (\<open>calm\<close>) and the server accepts, there is a run in which a client
  that has not connected yet connects and is accepted, and after which both ends of the new connection are past the
  handshake and read messages, still without overlapped writes, the server knows the connection and accepts further
  ones, and the connections that were at work still are. The run is one in which the server's thread starts the write of the
  greeting, which it posts before it sends the handshake data, only when that data has been written; the
  code does not enforce this, and in other runs the two writes overlap.
\<close>

theorem client_joins:
  assumes "net_reach fmt id0 n" "calm n" "accepting (net_server n) = Suc a"
    and "i < length (net_clients n)" "net_clients n ! i = new_client"
  shows "\<exists>n'. (net_step fmt)\<^sup>*\<^sup>* n n' \<and> calm n' \<and> linked n' (length (links (net_server n))) i 0 \<and>
    Some (length (links (net_server n))) \<in> set (connectionsQueue (net_server n')) \<and> accepting (net_server n') = Suc a \<and>
    (\<forall>r j k. linked n r j k \<longrightarrow> linked n' r j k)"
proof -
  from joins [OF assms] obtain n' where "(net_step fmt)\<^sup>*\<^sup>* n n'" "calm n'" "linked n' (length (links (net_server n))) i 0"
    "connectionsQueue (net_server n') = connectionsQueue (net_server n) @ [Some (length (links (net_server n)))]"
    "accepting (net_server n') = Suc a" "\<forall>r j k. linked n r j k \<longrightarrow> linked n' r j k" .
  then show ?thesis by (intro exI [of _ n']) simp
qed

theorem client_joins_witness:
  "\<exists>n n'. net_reach (\<lambda>d. []) 10000 n \<and> (net_step (\<lambda>d. []))\<^sup>*\<^sup>* n n' \<and> linked n' 0 0 0"
proof -
  obtain n where n: "net_reach (\<lambda>d. []) 10000 n" "calm n" "net_clients n = replicate 1 new_client" "links (net_server n) = []"
    "accepting (net_server n) = 1" by (rule initial_network)
  from client_joins [OF n(1,2), of 0 0] n(3-5) obtain n' where "(net_step (\<lambda>d. []))\<^sup>*\<^sup>* n n'" "linked n' 0 0 0" by auto
  with n(1) show ?thesis by blast
qed

section \<open>Two clients at work\<close>

lemma joins_at:
  assumes "net_reach fmt id0 n" "calm n" "accepting (net_server n) = Suc a" "i < length (net_clients n)" "net_clients n ! i = new_client"
    and "length (links (net_server n)) = r"
  shows "\<exists>n'. net_reach fmt id0 n' \<and> calm n' \<and> linked n' r i 0 \<and> Some r \<in> set (connectionsQueue (net_server n')) \<and>
    accepting (net_server n') = Suc a \<and> length (links (net_server n')) = Suc r \<and> (\<forall>r j k. linked n r j k \<longrightarrow> linked n' r j k) \<and>
    (\<forall>j. j \<noteq> i \<longrightarrow> net_clients n' ! j = net_clients n ! j) \<and> length (net_clients n') = length (net_clients n)"
proof -
  from joins [OF assms(1-5)] obtain n' where n': "(net_step fmt)\<^sup>*\<^sup>* n n'" "calm n'" "linked n' (length (links (net_server n))) i 0"
    "connectionsQueue (net_server n') = connectionsQueue (net_server n) @ [Some (length (links (net_server n)))]"
    "accepting (net_server n') = Suc a" "length (links (net_server n')) = Suc (length (links (net_server n)))"
    "\<forall>r j k. linked n r j k \<longrightarrow> linked n' r j k" "\<forall>j. j \<noteq> i \<longrightarrow> net_clients n' ! j = net_clients n ! j"
    "length (net_clients n') = length (net_clients n)" .
  have "net_reach fmt id0 n'" using n'(1) assms(1) by (rule net_reach_steps)
  with n' assms(6) show ?thesis by (intro exI [of _ n']) simp
qed

lemma one_linked:
  obtains n where "net_reach fmt id0 n" "calm n" "linked n 0 0 0"
proof -
  obtain n where n: "net_reach fmt id0 n" "calm n" "net_clients n = replicate 1 new_client" "links (net_server n) = []"
    "accepting (net_server n) = 1" by (rule initial_network)
  then have one: "accepting (net_server n) = Suc 0" "0 < length (net_clients n)" "net_clients n ! 0 = new_client"
    "length (links (net_server n)) = 0" by simp_all
  from joins_at [OF n(1,2) one] show ?thesis using that by blast
qed

lemma two_linked:
  obtains n where "net_reach fmt id0 n" "calm n" "linked n 0 0 0" "linked n 1 1 0"
    "Some 1 \<in> set (connectionsQueue (net_server n))"
proof -
  obtain n where n: "net_reach fmt id0 n" "calm n" "net_clients n = replicate 2 new_client" "links (net_server n) = []"
    "accepting (net_server n) = 1" by (rule initial_network)
  then have one: "accepting (net_server n) = Suc 0" "0 < length (net_clients n)" "net_clients n ! 0 = new_client"
    "length (links (net_server n)) = 0" by simp_all
  from joins_at [OF n(1,2) one] obtain n1 where n1: "net_reach fmt id0 n1" "calm n1" "linked n1 0 0 0"
    "accepting (net_server n1) = Suc 0" "length (links (net_server n1)) = 1"
    "net_clients n1 ! 1 = net_clients n ! 1" "length (net_clients n1) = length (net_clients n)" by auto
  have "1 < length (net_clients n1)" "net_clients n1 ! 1 = new_client" using n1(6,7) n(3) by simp_all
  from joins_at [OF n1(1,2,4) this n1(5)] obtain n2 where "net_reach fmt id0 n2" "calm n2" "linked n2 1 1 0"
    "Some 1 \<in> set (connectionsQueue (net_server n2))" "\<forall>r j k. linked n1 r j k \<longrightarrow> linked n2 r j k" by blast
  with n1(3) show ?thesis by (intro that [of n2]) simp_all
qed

end
