(* ===== verification/Network_Answers.thy ===== *)
theory Network_Answers
  imports Network_Join
begin

text \<open>
  The two round trips of the custom programs, through every thread and socket on the way: a
  ping comes back to the client that sent it, and a message to all is printed by each other
  client that the server knows.
\<close>

section \<open>What the server has posted gets printed\<close>

lemma server_accepts:
  assumes "net_reach fmt id0 n" "calm n" "linked n r i k" "Post (Do_SendData m) \<in> set (pending (links (net_server n) ! r))"
  obtains s where "(net_step fmt)\<^sup>*\<^sup>* n (n\<lparr>net_server := s\<rparr>)" "calm (n\<lparr>net_server := s\<rparr>)"
    "listening (n\<lparr>net_server := s\<rparr>) r i k" "items (links s ! r) = items (links (net_server n) ! r) @ [Msg m]"
proof -
  let ?l = "links (net_server n) ! r" and ?m = "peer n (i, k)"
  note lk = linkedD [OF assms(1-3)]
  have gd: "greeting_done ?l" using assms(3) by (simp add: linked_def)
  from accept_post [OF lk(10) gd assms(4)] obtain l' where l': "link_step r ?l l'" "write_ready l'" "items l' = items ?l @ [Msg m]"
    "tx l' = tx ?l" "consumed l' = consumed ?l" "quiet ?l l'" by blast
  have run: "quiet_run (\<lambda>x. x = l') r ?l l'" using l'(1,6) by (auto intro: quiet_run.intros)
  have cab: "cabled (n\<lparr>net_server := s\<rparr>)" if "x = l'" "links s = (links (net_server n))[r := x]" for x s
  proof (rule cabled_server [OF lk(7,1) that(2)])
    have "streamed ?l ?m" "streamed ?m ?l" using cabledD(3,4) [OF lk(7,1)] lk(3) by simp_all
    with lk(3,10) that(1) l'(4,5) show "streamed x (peer n (plugged n ! r))" "streamed (peer n (plugged n ! r)) x"
      by (auto simp: streamed_def write_ready_def)
  qed
  have "\<exists>s. (net_step fmt)\<^sup>*\<^sup>* n (n\<lparr>net_server := s\<rparr>) \<and> after_served r l' (net_server n) s"
    by (rule lift_server_run [OF run lk(1) refl]) (rule cab)
  then obtain s where s: "(net_step fmt)\<^sup>*\<^sup>* n (n\<lparr>net_server := s\<rparr>)" "links s = (links (net_server n))[r := l']"
    by (auto simp: after_served_def)
  have "calm (n\<lparr>net_server := s\<rparr>)" using l'(2) by (intro calm_server [OF assms(2) s(2)]) (simp add: write_ready_def)
  moreover have "listening (n\<lparr>net_server := s\<rparr>) r i k"
    using assms(3) s(2) l'(2,4) lk(1) by (simp add: linked_def listening_def peer_def write_ready_def)
  ultimately show ?thesis using s l'(3) lk(1) by (intro that [of s]) simp_all
qed

lemma posted_printed:
  assumes "net_reach fmt id0 n" "calm n" "linked n r i k" "Post (Do_SendData m) \<in> set (pending (links (net_server n) ! r))"
  obtains n' new line tmp where "(net_step fmt)\<^sup>*\<^sup>* n n'"
    "client.console (net_clients n' ! i) = client.console (net_clients n ! i) @ new" "line \<in> set new"
    "on_server_message fmt now (received tmp m) = Inr line"
proof -
  note lk = linkedD [OF assms(1-3)]
  from server_accepts [OF assms] obtain s where s: "(net_step fmt)\<^sup>*\<^sup>* n (n\<lparr>net_server := s\<rparr>)" "calm (n\<lparr>net_server := s\<rparr>)"
    "listening (n\<lparr>net_server := s\<rparr>) r i k" "items (links s ! r) = items (links (net_server n) ! r) @ [Msg m]" .
  let ?n = "n\<lparr>net_server := s\<rparr>" and ?ms = "messages_of (items (links (net_server n) ! r))"
  have r: "net_reach fmt id0 ?n" using s(1) assms(1) by (rule net_reach_steps)
  have "length (delivered (peer n (i, k))) \<le> length ?ms" using few_delivered(2) [OF assms(1,2) lk(1)] lk(3) by simp
  moreover have "peer ?n (i, k) = peer n (i, k)" by (simp add: peer_def)
  ultimately obtain n' new line tmp where n': "(net_step fmt)\<^sup>*\<^sup>* ?n n'"
    "client.console (net_clients n' ! i) = client.console (net_clients ?n ! i) @ new" "line \<in> set new"
    "on_server_message fmt now (received tmp (messages_of (items (links (net_server ?n) ! r)) ! length ?ms)) = Inr line"
    using accepted_printed [OF r s(2,3), of "length ?ms" now] s(4) by auto
  have "(net_step fmt)\<^sup>*\<^sup>* n n'" using s(1) n'(1) by (rule rtranclp_trans)
  with n' s(4) show ?thesis by (intro that) simp_all
qed

section \<open>Pressing a key\<close>

text \<open>The turn of the main loop that posts a message.\<close>

lemma key_turn:
  assumes "net_reach fmt id0 n" "calm n" "linked n r i k"
    and "main_loop_turn fmt t ready (net_clients n ! i) = Inr (True, Send m (print line (net_clients n ! i)))"
  obtains c where "main_loop_turn fmt t ready (net_clients n ! i) = Inr (True, c)"
    "net_step fmt n (n\<lparr>net_clients := (net_clients n)[i := c]\<rparr>)" "calm (n\<lparr>net_clients := (net_clients n)[i := c]\<rparr>)"
    "\<forall>r' j k'. linked n r' j k' \<longrightarrow> linked (n\<lparr>net_clients := (net_clients n)[i := c]\<rparr>) r' j k'"
    "Post (Do_SendData m) \<in> set (pending (peer (n\<lparr>net_clients := (net_clients n)[i := c]\<rparr>) (i, k)))" "i < length (net_clients n)"
proof -
  let ?c = "net_clients n ! i" and ?m = "peer n (i, k)" and ?l = "links (net_server n) ! r"
  let ?c' = "Send m (print line ?c)"
  let ?n = "n\<lparr>net_clients := (net_clients n)[i := ?c']\<rparr>"
  note lk = linkedD [OF assms(1-3)]
  have lis: "connection_module ?c = Some k" "socket_open (conn ?m)"
    using assms(3) by (auto simp: linked_def listening_def reading_def)
  have "isConnected (print line ?c)"
    using lis by (simp add: isConnected_def IsConnected_def peer_def print_def)
  then have objs: "objects ?c' = (objects ?c)[k := posted [m] ?m]"
    using lis by (simp add: objects_Send post_posted peer_def) (simp add: print_def)
  have same: "thr_running ?c' = thr_running ?c" "connection_module ?c' = connection_module ?c"
    by (simp_all add: Send_def print_def on_object_def Let_def case_prod_beta split: option.splits)
  have peer: "peer ?n (i, k) = posted [m] ?m" using objs lk(5,6) by (simp add: peer_def)
  have st: "streamed ?l ?m" "streamed ?m ?l" using cabledD(3,4) [OF lk(7,1)] lk(3) by simp_all
  have "cabled ?n" using st by (intro cabled_client [OF lk(7,2,3,5) objs]) (simp_all add: streamed_def)
  then have "net_step fmt n ?n" using lk(5) assms(4) by (intro net_step.client [where c' = ?c'] prog_step.turn) simp_all
  moreover have "calm ?n" using calmD [OF assms(2) lk(4)]
    by (intro calm_client [OF assms(2) lk(5) objs]) (simp_all add: answered_first_def)
  moreover have "linked ?n r' j k'" if "linked n r' j k'" for r' j k'
  proof (cases "r' = r")
    case True
    with that assms(3) have "j = i" "k' = k" by (simp_all add: linked_def listening_def)
    with that True same lk(5) peer show ?thesis by (simp add: linked_def listening_def)
  next
    case False
    with linked_distinct [OF assms(1-3) that] that show ?thesis
      by (subst linked_cong [where n = n]) (simp_all add: peer_def)
  qed
  moreover have "Post (Do_SendData m) \<in> set (pending (peer ?n (i, k)))" unfolding peer by (simp add: posted_def)
  ultimately show ?thesis using assms(4) lk(5) by (intro that [of ?c']) simp_all
qed

section \<open>Properties\<close>

text \<open>
  C8: a ping can come back, as long as the writes have kept their order. Take a reachable state in which no connection
  has overlapped writes and each client has answered the handshake first (\<open>calm\<close>; the code does not guarantee
  it). If a client whose connection is at work in both directions is told to ping there, then there is a run of the network to
  a state in which this client has printed the difference between a later clock reading and
  the one it sent: through its write queue, the server's reads, its queue of messages,
  \<open>onMessage\<close>, its write queue, the client's reads and its main loop, whatever else is pending.
\<close>

theorem ping_comes_back:
  assumes "net_reach fmt id0 n" "calm n" "linked n r i k"
  shows "\<exists>c n' new. main_loop_turn fmt t (Some (CHR ''p'')) (net_clients n ! i) = Inr (True, c) \<and>
    net_step fmt n (n\<lparr>net_clients := (net_clients n)[i := c]\<rparr>) \<and>
    (net_step fmt)\<^sup>*\<^sup>* (n\<lparr>net_clients := (net_clients n)[i := c]\<rparr>) n' \<and>
    client.console (net_clients n' ! i) = client.console c @ new \<and> ''Ping: '' @ fmt (now - t) \<in> set new"
proof -
  have "main_loop_turn fmt t (Some (CHR ''p'')) (net_clients n ! i) =
      Inr (True, Send (ping_message t) (print ''server ping'' (net_clients n ! i)))"
    by (simp add: main_loop_turn_def PingServer_def)
  from key_turn [OF assms this] obtain c where
    c: "main_loop_turn fmt t (Some (CHR ''p'')) (net_clients n ! i) = Inr (True, c)"
    "net_step fmt n (n\<lparr>net_clients := (net_clients n)[i := c]\<rparr>)" "calm (n\<lparr>net_clients := (net_clients n)[i := c]\<rparr>)"
    "linked (n\<lparr>net_clients := (net_clients n)[i := c]\<rparr>) r i k" "i < length (net_clients n)"
    "Post (Do_SendData (ping_message t)) \<in> set (pending (peer (n\<lparr>net_clients := (net_clients n)[i := c]\<rparr>) (i, k)))"
    using assms(3) by metis
  let ?n = "n\<lparr>net_clients := (net_clients n)[i := c]\<rparr>"
  have r1: "net_reach fmt id0 ?n" using assms(1) c(2) by (rule net_reach.step)
  from message_arrives [OF r1 c(3,4,6)] c(4) obtain n1 om tmp where
    n1: "(net_step fmt)\<^sup>*\<^sup>* ?n n1" "calm n1" "data_queue (inMsgQueue (net_server n1)) = [om]" "remote om = Some r"
      "msg om = received tmp (ping_message t)" "linked n1 r i k"
      "client.console (net_clients n1 ! i) = client.console (net_clients ?n ! i)" by metis
  have r2: "net_reach fmt id0 n1" using n1(1) r1 by (rule net_reach_steps)
  have at: "r < length (links (unqueued [] (net_server n1)))" using linkedD(1) [OF r2 n1(2,6)] by simp
  have "hdr_id (header (msg om)) = type_id ServerPing" by (simp add: n1(5))
  from ping_posts [OF at this] obtain s where
    s: "custom_onMessage (Some r) (msg om) (unqueued [] (net_server n1)) = Inr s" "only_posts (net_server n1) s"
      "links s = (links (net_server n1))[r := post (msg om) (links (net_server n1) ! r)]" by (metis unqueued_posts unqueued_simps(1))
  have step: "net_step fmt n1 (n1\<lparr>net_server := s\<rparr>)"
    by (rule process_one [OF net_ok_reach [OF r2] n1(3) _ s(2)]) (simp add: n1(4) s(1))
  have r3: "net_reach fmt id0 (n1\<lparr>net_server := s\<rparr>)" using r2 step by (rule net_reach.step)
  have post: "Post (Do_SendData (msg om)) \<in> set (pending (links (net_server (n1\<lparr>net_server := s\<rparr>)) ! r))"
    using at by (simp add: s(3) post_posted) (simp add: posted_def)
  from posted_printed [OF r3 only_posts_calm [OF n1(2) s(2)] only_posts_linked [OF n1(6) s(2)] post, of now] obtain n' new line tmp' where
    n': "(net_step fmt)\<^sup>*\<^sup>* (n1\<lparr>net_server := s\<rparr>) n'"
    "client.console (net_clients n' ! i) = client.console (net_clients (n1\<lparr>net_server := s\<rparr>) ! i) @ new" "line \<in> set new"
    "on_server_message fmt now (received tmp' (msg om)) = Inr line" .
  have "carries (received tmp' (msg om)) (le_bytes 8 t)" unfolding n1(5) by (intro carries_received carries_ping)
  from carries_pop [OF this] n'(4) have "line = ''Ping: '' @ fmt (now - t)" by (auto simp: on_server_message_def n1(5))
  moreover have "(net_step fmt)\<^sup>*\<^sup>* ?n n'" using n1(1) step n'(1) by (meson rtranclp.rtrancl_into_rtrancl rtranclp_trans)
  ultimately show ?thesis using c n' n1(7) by (intro exI [of _ c] exI [of _ n'] exI [of _ new]) simp
qed

theorem ping_comes_back_witness:
  "\<exists>n c (n' :: network) new. net_reach (\<lambda>d. if d = 8 then [CHR 0x38] else []) 10000 n \<and>
     main_loop_turn (\<lambda>d. if d = 8 then [CHR 0x38] else []) 42 (Some (CHR ''p'')) (net_clients n ! 0) = Inr (True, c) \<and>
     client.console (net_clients n' ! 0) = client.console c @ new \<and> ''Ping: 8'' \<in> set new"
proof -
  define fmt :: "u64 \<Rightarrow> string" where "fmt = (\<lambda>d. if d = 8 then [CHR 0x38] else [])"
  have eight: "''Ping: '' @ fmt (50 - 42) = ''Ping: 8''" by (simp add: fmt_def)
  obtain n where n: "net_reach fmt 10000 n" "calm n" "linked n 0 0 0" by (rule one_linked)
  from ping_comes_back [OF n, of 42 50, unfolded eight] obtain c and n' :: network and new where
    "main_loop_turn fmt 42 (Some (CHR ''p'')) (net_clients n ! 0) = Inr (True, c)"
    "client.console (net_clients n' ! 0) = client.console c @ new" "''Ping: 8'' \<in> set new" by blast
  with n(1) show ?thesis unfolding fmt_def [symmetric] by blast
qed

text \<open>
  C9: a message to all can arrive, as long as the writes have kept their order. Take a reachable state in which no
  connection has overlapped writes and each client has answered the handshake first (\<open>calm\<close>; the code does not
  guarantee it). If a client at work is told to send a message to all there, then for each other client
  whose connection is in the server's list and is at work in both directions there is a run of the network
  to a state in which that client has printed the identifier which the server gave to the sender's connection.
\<close>

theorem message_all_arrives:
  assumes "net_reach fmt id0 n" "calm n" "linked n r i k" "linked n r' j k'" "r \<noteq> r'"
    and "Some r' \<in> set (connectionsQueue (net_server n))"
  shows "\<exists>c n' new. main_loop_turn fmt t (Some (CHR ''m'')) (net_clients n ! i) = Inr (True, c) \<and>
    net_step fmt n (n\<lparr>net_clients := (net_clients n)[i := c]\<rparr>) \<and>
    (net_step fmt)\<^sup>*\<^sup>* (n\<lparr>net_clients := (net_clients n)[i := c]\<rparr>) n' \<and>
    client.console (net_clients n' ! j) = client.console (net_clients n ! j) @ new \<and>
    ''Hello from ['' @ dec_nat (unat (client_id (net_server n) r)) @ '']'' \<in> set new"
proof -
  let ?m = "set_id (type_id MessageAll) empty_message"
  have "main_loop_turn fmt t (Some (CHR ''m'')) (net_clients n ! i) =
      Inr (True, Send ?m (print ''message all'' (net_clients n ! i)))"
    by (simp add: main_loop_turn_def send_MessageAll_def)
  from key_turn [OF assms(1-3) this] obtain c where
    c: "main_loop_turn fmt t (Some (CHR ''m'')) (net_clients n ! i) = Inr (True, c)"
    "net_step fmt n (n\<lparr>net_clients := (net_clients n)[i := c]\<rparr>)" "calm (n\<lparr>net_clients := (net_clients n)[i := c]\<rparr>)"
    "\<forall>r' j k'. linked n r' j k' \<longrightarrow> linked (n\<lparr>net_clients := (net_clients n)[i := c]\<rparr>) r' j k'"
    "Post (Do_SendData ?m) \<in> set (pending (peer (n\<lparr>net_clients := (net_clients n)[i := c]\<rparr>) (i, k)))" "i < length (net_clients n)" .
  let ?n = "n\<lparr>net_clients := (net_clients n)[i := c]\<rparr>"
  note l3 = c(4) [rule_format, OF assms(3)] and l4 = c(4) [rule_format, OF assms(4)]
  have r1: "net_reach fmt id0 ?n" using assms(1) c(2) by (rule net_reach.step)
  have "i \<noteq> j" by (rule linked_distinct [OF assms(1-5)])
  then have cons: "client.console (net_clients ?n ! j) = client.console (net_clients n ! j)" by simp
  have queue: "Some r' \<in> set (connectionsQueue (net_server ?n))" using assms(6) by simp
  from message_arrives [OF r1 c(3) l3 c(5)] obtain n1 om tmp where
    n1: "(net_step fmt)\<^sup>*\<^sup>* ?n n1" "calm n1" "data_queue (inMsgQueue (net_server n1)) = [om]" "remote om = Some r"
      "msg om = received tmp ?m" "\<forall>r' j k'. linked ?n r' j k' \<longrightarrow> linked n1 r' j k'"
      "client_id (net_server n1) r = client_id (net_server ?n) r"
      "\<forall>r' j k'. linked ?n r' j k' \<and> Some r' \<in> set (connectionsQueue (net_server ?n)) \<longrightarrow> Some r' \<in> set (connectionsQueue (net_server n1))"
      "\<forall>j. client.console (net_clients n1 ! j) = client.console (net_clients ?n ! j)" .
  have lnk: "linked n1 r' j k'" and known: "Some r' \<in> set (connectionsQueue (net_server n1))" using n1(6) n1(8) l4 queue by blast+
  have r2: "net_reach fmt id0 n1" using n1(1) r1 by (rule net_reach_steps)
  have "hdr_id (header (msg om)) = type_id MessageAll" by (simp add: n1(5))
  from message_all_posts [OF unqueued_ok(1-3) [OF net_ok_reach [OF r2] n1(3)] this, of r] obtain s where
    s: "custom_onMessage (Some r) (msg om) (unqueued [] (net_server n1)) = Inr s" "only_posts (net_server n1) s"
    "\<forall>q < length (links (net_server n1)). links s ! q = (if Some q \<in> set (connectionsQueue (net_server n1)) \<and>
       is_live (net_server n1) (Some q) \<and> q \<noteq> r
       then post (all_message (client_id (net_server n1) r)) (links (net_server n1) ! q) else links (net_server n1) ! q)"
    unfolding unqueued_simps unqueued_live unqueued_posts .
  have at: "r' < length (links (net_server n1))" using linkedD(1) [OF r2 n1(2) lnk] .
  have "is_live (net_server n1) (Some r')" using lnk by (simp add: linked_def listening_def is_live_def IsConnected_def)
  with s(3) at known assms(5) have l: "links s ! r' = post (all_message (client_id (net_server n1) r)) (links (net_server n1) ! r')" by simp
  have step: "net_step fmt n1 (n1\<lparr>net_server := s\<rparr>)"
    by (rule process_one [OF net_ok_reach [OF r2] n1(3) _ s(2)]) (simp add: n1(4) s(1))
  have r3: "net_reach fmt id0 (n1\<lparr>net_server := s\<rparr>)" using r2 step by (rule net_reach.step)
  let ?all = "all_message (client_id (net_server n) r)"
  have post: "Post (Do_SendData ?all) \<in> set (pending (links (net_server (n1\<lparr>net_server := s\<rparr>)) ! r'))"
    using l n1(7) by (simp add: post_posted) (simp add: posted_def)
  from posted_printed [OF r3 only_posts_calm [OF n1(2) s(2)] only_posts_linked [OF lnk s(2)] post, of 0] obtain n' new line tmp' where
    n': "(net_step fmt)\<^sup>*\<^sup>* (n1\<lparr>net_server := s\<rparr>) n'"
    "client.console (net_clients n' ! j) = client.console (net_clients (n1\<lparr>net_server := s\<rparr>) ! j) @ new" "line \<in> set new"
    "on_server_message fmt 0 (received tmp' ?all) = Inr line" .
  have "carries (received tmp' ?all) (le_bytes 4 (client_id (net_server n) r))" by (intro carries_received carries_all)
  from carries_pop [OF this] n'(4) have "line = ''Hello from ['' @ dec_nat (unat (client_id (net_server n) r)) @ '']''"
    by (auto simp: on_server_message_def)
  moreover have "(net_step fmt)\<^sup>*\<^sup>* ?n n'" using n1(1) step n'(1) by (meson rtranclp.rtrancl_into_rtrancl rtranclp_trans)
  ultimately show ?thesis using c(1,2) n' n1(9) cons by (intro exI [of _ c] exI [of _ n'] exI [of _ new]) simp
qed

theorem message_all_arrives_witness:
  "\<exists>n c (n' :: network) new. net_reach (\<lambda>d. []) 10000 n \<and>
     main_loop_turn (\<lambda>d. []) 42 (Some (CHR ''m'')) (net_clients n ! 0) = Inr (True, c) \<and>
     client.console (net_clients n' ! 1) = client.console (net_clients n ! 1) @ new \<and>
     ''Hello from ['' @ dec_nat (unat (client_id (net_server n) 0)) @ '']'' \<in> set new"
proof -
  obtain n where n: "net_reach (\<lambda>d. []) 10000 n" "calm n" "linked n 0 0 0" "linked n 1 1 0"
    "Some 1 \<in> set (connectionsQueue (net_server n))" by (rule two_linked)
  from message_all_arrives [OF n(1-4) _ n(5), where t = 42] obtain c and n' :: network and new where
    "main_loop_turn (\<lambda>d. []) 42 (Some (CHR ''m'')) (net_clients n ! 0) = Inr (True, c)"
    "client.console (net_clients n' ! 1) = client.console (net_clients n ! 1) @ new"
    "''Hello from ['' @ dec_nat (unat (client_id (net_server n) 0)) @ '']'' \<in> set new" by auto
  with n(1) show ?thesis by blast
qed

end
