(* ===== verification/Programs.thy ===== *)
theory Programs
  imports Network
begin

text \<open>
  The start of the two programs, \<open>main\<close> in \<open>src/custom_server.cpp\<close> and
  \<open>src/custom_client.cpp\<close>, up to their loops (\<open>main_turn\<close> in \<open>Custom_Server\<close>,
  \<open>main_loop_turn\<close> in \<open>Custom_Client\<close>). The option parser is a library: what it found on the
  command line is an argument, and the defaults that the programs declare are applied here.
\<close>

record options =
  opt_help :: bool
  opt_port :: u32
  opt_addr :: string

definition program_options :: "bool \<Rightarrow> u32 option \<Rightarrow> string option \<Rightarrow> options" where
  "program_options help port_arg addr_arg =
     \<lparr>opt_help = help, opt_port = (case port_arg of None \<Rightarrow> 60000 | Some p \<Rightarrow> p),
      opt_addr = (case addr_arg of None \<Rightarrow> ''127.0.0.1'' | Some a \<Rightarrow> a)\<rparr>"

text \<open>
  A program prints the help and exits, or goes on into its loop. What nobody catches ends it: the
  exception of the parser for a command line it does not accept (no options), and, in the server,
  that of the acceptor, which the constructor opens (\<open>listening\<close>). The constructor and \<open>Connect\<close>
  take a 16-bit port, to which the 32-bit option is converted; what \<open>Start\<close> and \<open>Connect\<close> return is
  not looked at.
\<close>

datatype 'a started = Exits string | Loops 'a

definition server_main ::
  "string \<Rightarrow> u32 \<Rightarrow> string option \<Rightarrow> string option \<Rightarrow> options option \<Rightarrow> (u16 \<times> server) started res" where
  "server_main desc id0 listening failure parsed =
     (case parsed of
        None \<Rightarrow> Inl Std_terminate
      | Some opts \<Rightarrow>
          if opt_help opts then Inr (Exits desc)
          else (case listening of
                  Some what \<Rightarrow> Inl Std_terminate
                | None \<Rightarrow> bind_res (Start failure (new_server id0)) (\<lambda>(_, s).
                    Inr (Loops (ucast (opt_port opts), say ''Server was successfully created and already started!'' s)))))"

definition client_main ::
  "string \<Rightarrow> string option \<Rightarrow> u64 \<Rightarrow> u64 \<Rightarrow> options option \<Rightarrow> (string \<times> u16 \<times> client) started res" where
  "client_main desc resolved clock hs_in parsed =
     (case parsed of
        None \<Rightarrow> Inl Std_terminate
      | Some opts \<Rightarrow>
          if opt_help opts then Inr (Exits desc)
          else bind_res (Connect resolved clock hs_in new_client) (\<lambda>(_, c).
            Inr (Loops (opt_addr opts, ucast (opt_port opts), c))))"

text \<open>
  Nothing but these exceptions keeps the programs from their loops: the server fails exactly for a
  bad command line or, unless it is asked for help, for an acceptor that does not open; the
  client, whatever the library calls of \<open>Connect\<close> do, only for a bad command line.
\<close>

lemma server_main_fails:
  "server_main desc id0 listening failure parsed = Inl e \<longleftrightarrow>
     e = Std_terminate \<and> (case parsed of None \<Rightarrow> True | Some opts \<Rightarrow> \<not> opt_help opts \<and> listening \<noteq> None)"
  by (auto simp: server_main_def Start_def Let_def new_server_def waitForClientConnection_def split: option.split)

lemma client_main_fails:
  "client_main desc resolved clock hs_in parsed = Inl e \<longleftrightarrow> e = Std_terminate \<and> parsed = None"
  by (auto simp: client_main_def Connect_def Let_def new_client_def print_def split: option.split prod.split)

text \<open>
  Started with the same options, the client connects to the port the server listens on, which is
  the port that was asked for reduced modulo 2^16, without a warning.
\<close>

lemma same_port:
  assumes "server_main desc id0 listening failure (Some opts) = Inr (Loops (p, s))"
    "client_main desc' resolved clock hs_in (Some opts) = Inr (Loops (a, p', c))"
  shows "p' = p \<and> unat p = unat (opt_port opts) mod 2 ^ 16"
  using assms
  by (auto simp: server_main_def client_main_def bind_res_Inr_iff unsigned_ucast_eq take_bit_eq_mod
      split: if_splits option.splits)

text \<open>A server whose thread could not be created says that it was started all the same.\<close>

lemma failed_start_reported_as_success:
  "server_main desc id0 None (Some what) (Some (program_options False port_arg addr_arg)) =
     Inr (Loops (ucast (opt_port (program_options False port_arg addr_arg)),
       say ''Server was successfully created and already started!''
         (say (''[SERVER] ERROR: '' @ what) (waitForClientConnection (new_server id0)))))"
  by (simp add: server_main_def program_options_def Start_def Let_def)

end
