(* ===== verification/Http_Request.thy ===== *)
theory Http_Request
  imports Main "HOL-Library.Char_ord" "HOL-Library.Sublist"
begin

text \<open>
  The request handling of \<open>other_ressources/boost_beast/src/async_http_server.cpp\<close>: the MIME
  type of a path, the path of a request target, and \<open>handle_request\<close> with its responses.

  Opening a file is a parameter, \<open>open_file\<close>: it says for a path whether the file was opened
  (with its size), does not exist, or cannot be opened for another reason. So is the
  version text of the library, \<open>beast\<close>. The branch for UNIX hosts is modelled. A path is
  handed over as a C string, so it ends at the first null character.
\<close>

section \<open>MIME types and paths\<close>

definition ascii_tolower :: "char \<Rightarrow> char" where
  "ascii_tolower c = (if CHR ''A'' \<le> c \<and> c \<le> CHR ''Z'' then char_of (of_char c + 32 :: nat) else c)"

definition iequals :: "string \<Rightarrow> string \<Rightarrow> bool" where
  "iequals a b \<longleftrightarrow> map ascii_tolower a = map ascii_tolower b"

text \<open>From the last dot on, the dot included; empty without a dot.\<close>

definition file_ext :: "string \<Rightarrow> string" where
  "file_ext path =
     (if CHR ''.'' \<in> set path then CHR ''.'' # rev (takeWhile (\<lambda>c. c \<noteq> CHR ''.'') (rev path)) else [])"

definition mime_table :: "(string \<times> string) list" where
  "mime_table =
     [(''.htm'', ''text/html''), (''.html'', ''text/html''), (''.php'', ''text/html''),
      (''.css'', ''text/css''), (''.txt'', ''text/plain''), (''.js'', ''application/javascript''),
      (''.json'', ''application/json''), (''.xml'', ''application/xml''),
      (''.swf'', ''application/x-shockwave-flash''), (''.flv'', ''video/x-flv''), (''.png'', ''image/png''),
      (''.jpe'', ''image/jpeg''), (''.jpeg'', ''image/jpeg''), (''.jpg'', ''image/jpeg''),
      (''.gif'', ''image/gif''), (''.bmp'', ''image/bmp''), (''.ico'', ''image/vnd.microsoft.icon''),
      (''.tiff'', ''image/tiff''), (''.tif'', ''image/tiff''), (''.svg'', ''image/svg+xml''),
      (''.svgz'', ''image/svg+xml'')]"

definition mime_type :: "string \<Rightarrow> string" where
  "mime_type path =
     (case find (\<lambda>(ext, _). iequals (file_ext path) ext) mime_table of
        Some (_, t) \<Rightarrow> t
      | None \<Rightarrow> ''application/text'')"

definition path_cat :: "string \<Rightarrow> string \<Rightarrow> string" where
  "path_cat base path =
     (if base = [] then path
      else (if last base = CHR ''/'' then butlast base else base) @ path)"

section \<open>Requests and responses\<close>

datatype verb = Get | Head | Other_verb string

record request =
  verb_of :: verb
  target :: string
  version :: nat
  keep_alive :: bool

datatype status = Status_ok | Bad_request | Not_found | Internal_server_error

datatype body = Empty_body | String_body string | File_body string

record response =
  res_status :: status
  res_version :: nat
  server_field :: string
  content_type :: string
  content_length :: nat
  res_keep_alive :: bool
  body :: body

datatype opened = Opened nat | No_such_file | Open_error string

text \<open>A response with a text, whose length \<open>prepare_payload\<close> puts into the header.\<close>

definition text_response :: "string \<Rightarrow> request \<Rightarrow> status \<Rightarrow> string \<Rightarrow> response" where
  "text_response beast req st txt =
     \<lparr>res_status = st, res_version = version req, server_field = beast, content_type = ''text/html'',
      content_length = length txt, res_keep_alive = keep_alive req, body = String_body txt\<rparr>"

definition bad_request :: "string \<Rightarrow> request \<Rightarrow> string \<Rightarrow> response" where
  "bad_request beast req why = text_response beast req Bad_request why"

definition not_found :: "string \<Rightarrow> request \<Rightarrow> string \<Rightarrow> response" where
  "not_found beast req tgt = text_response beast req Not_found (''The resource '' @ [CHR 0x27] @ tgt @ [CHR 0x27] @ '' was not found.'')"

definition server_error :: "string \<Rightarrow> request \<Rightarrow> string \<Rightarrow> response" where
  "server_error beast req what =
     text_response beast req Internal_server_error (''An error occurred: '' @ [CHR 0x27] @ what @ [CHR 0x27])"

definition file_response :: "string \<Rightarrow> request \<Rightarrow> string \<Rightarrow> nat \<Rightarrow> body \<Rightarrow> response" where
  "file_response beast req path n b =
     \<lparr>res_status = Status_ok, res_version = version req, server_field = beast, content_type = mime_type path,
      content_length = n, res_keep_alive = keep_alive req, body = b\<rparr>"

definition legal_target :: "string \<Rightarrow> bool" where
  "legal_target t \<longleftrightarrow> t \<noteq> [] \<and> hd t = CHR ''/'' \<and> \<not> sublist ''..'' t"

definition request_path :: "string \<Rightarrow> string \<Rightarrow> string" where
  "request_path doc_root t =
     (let path = path_cat doc_root t in if last t = CHR ''/'' then path @ ''index.html'' else path)"

definition c_str :: "string \<Rightarrow> string" where
  "c_str s = takeWhile (\<lambda>c. c \<noteq> CHR 0x00) s"

text \<open>
  \<open>handle_request\<close> up to its response, or up to the one call of the operating system it makes, with
  what it does after it. It makes that call for GET and for HEAD alike.
\<close>

datatype handling = Respond response | Open_file string "opened \<Rightarrow> response"

definition request_handling :: "string \<Rightarrow> string \<Rightarrow> request \<Rightarrow> handling" where
  "request_handling beast doc_root req =
     (if verb_of req \<noteq> Get \<and> verb_of req \<noteq> Head then Respond (bad_request beast req ''Unknown HTTP-method'')
      else if \<not> legal_target (target req) then Respond (bad_request beast req ''Illegal request-target'')
      else
        let path = request_path doc_root (target req)
        in Open_file (c_str path) (\<lambda>ec. case ec of
             No_such_file \<Rightarrow> not_found beast req (target req)
           | Open_error what \<Rightarrow> server_error beast req what
           | Opened n \<Rightarrow>
               if verb_of req = Head then file_response beast req path n Empty_body
               else file_response beast req path n (File_body (c_str path))))"

fun finish :: "(string \<Rightarrow> opened) \<Rightarrow> handling \<Rightarrow> response" where
  "finish open_file (Respond res) = res"
| "finish open_file (Open_file path k) = k (open_file path)"

fun opens :: "handling \<Rightarrow> string option" where
  "opens (Respond res) = None"
| "opens (Open_file path k) = Some path"

definition handle_request :: "string \<Rightarrow> (string \<Rightarrow> opened) \<Rightarrow> string \<Rightarrow> request \<Rightarrow> response" where
  "handle_request beast open_file doc_root req = finish open_file (request_handling beast doc_root req)"

lemma handle_request_unfold:
  "handle_request beast open_file doc_root req =
     (if verb_of req \<noteq> Get \<and> verb_of req \<noteq> Head then bad_request beast req ''Unknown HTTP-method''
      else if \<not> legal_target (target req) then bad_request beast req ''Illegal request-target''
      else
        let path = request_path doc_root (target req)
        in case open_file (c_str path) of
             No_such_file \<Rightarrow> not_found beast req (target req)
           | Open_error what \<Rightarrow> server_error beast req what
           | Opened n \<Rightarrow>
               if verb_of req = Head then file_response beast req path n Empty_body
               else file_response beast req path n (File_body (c_str path)))"
  by (simp add: handle_request_def request_handling_def Let_def split: opened.split)

text \<open>What a session relies on of its request handler.\<close>

locale http_responder =
  fixes respond :: "request \<Rightarrow> response"
  assumes keeps_alive: "res_keep_alive (respond req) = keep_alive req"
    and text_length: "body (respond req) = String_body txt \<Longrightarrow> content_length (respond req) = length txt"
begin

lemma all_keep_alive: "(\<forall>req \<in> A. res_keep_alive (respond req)) \<longleftrightarrow> (\<forall>req \<in> A. keep_alive req)"
  by (simp add: keeps_alive)

end

lemmas text_responses = bad_request_def not_found_def server_error_def text_response_def file_response_def

interpretation async_http: http_responder "handle_request beast open_file doc_root" for beast open_file doc_root
  by unfold_locales (auto simp: handle_request_unfold text_responses Let_def split: opened.splits if_splits)

section \<open>Walking a path\<close>

text \<open>What a path names, as the sequence of directories it goes down, with \<open>..\<close> going up.\<close>

fun split_path :: "string \<Rightarrow> string list" where
  "split_path [] = [[]]"
| "split_path (c # cs) =
     (if c = CHR ''/'' then [] # split_path cs
      else (c # hd (split_path cs)) # tl (split_path cs))"

fun walk :: "string list \<Rightarrow> string list \<Rightarrow> string list" where
  "walk dir [] = dir"
| "walk dir (c # cs) =
     (if c = [] \<or> c = ''.'' then walk dir cs
      else if c = ''..'' then walk (butlast dir) cs
      else walk (dir @ [c]) cs)"

lemma split_path_nonempty [simp]: "split_path s \<noteq> []"
  by (cases s) auto

lemma split_path_append:
  "split_path (a @ CHR ''/'' # b) = split_path a @ split_path b"
  by (induction a) auto

lemma walk_append: "walk d (xs @ ys) = walk (walk d xs) ys"
  by (induction d xs rule: walk.induct) auto

lemma walk_down: "''..'' \<notin> set cs \<Longrightarrow> prefix d (walk d cs)"
  by (induction d cs rule: walk.induct) (auto dest: append_prefixD)

lemma split_hd_prefix: "prefix (hd (split_path s)) s"
  by (induction s) auto

lemma split_path_sublist: "c \<in> set (split_path s) \<Longrightarrow> sublist c s"
proof (induction s arbitrary: c)
  case (Cons x s)
  show ?case
  proof (cases "x = CHR ''/'' \<or> c \<in> set (tl (split_path s))")
    case True
    then have "c = [] \<or> c \<in> set (split_path s)"
      using Cons.prems by (auto split: if_splits dest: list.set_sel(2) [rotated])
    then show ?thesis using Cons.IH [of c] by (auto simp: sublist_Cons_right)
  next
    case False
    then have "c = x # hd (split_path s)" using Cons.prems by (auto split: if_splits)
    then show ?thesis using split_hd_prefix [of s] by (auto intro!: prefix_imp_sublist)
  qed
qed simp

lemma sublist_index:
  assumes "sublist ''..'' (t @ ''index.html'')" "last t = CHR ''/''" "t \<noteq> []"
  shows "sublist ''..'' t"
proof -
  from assms(1) consider "sublist ''..'' t" | "sublist ''..'' ''index.html''"
    | xs1 xs2 where "xs1 @ xs2 = ''..''" "suffix xs1 t" "prefix xs2 ''index.html''"
    unfolding sublist_append by metis
  then show ?thesis
  proof cases
    case 2
    then show ?thesis by (simp add: sublist_Cons_right)
  next
    case 3
    then have "xs1 = [] \<or> last xs1 = CHR ''.''" "xs1 = [] \<longrightarrow> xs2 = ''..''"
      by (auto simp: append_eq_Cons_conv)
    moreover have "xs1 \<noteq> [] \<Longrightarrow> last xs1 = last t" using 3(2) by (auto simp: suffix_def)
    ultimately have "prefix ''..'' ''index.html''" using 3(3) assms(2) by auto
    then show ?thesis by simp
  qed
qed

lemma c_str_prefix: "prefix (c_str s) s"
  unfolding c_str_def by (metis prefixI takeWhile_dropWhile_id)

lemma c_str_append: "CHR 0x00 \<notin> set a \<Longrightarrow> c_str (a @ b) = a @ c_str b"
  unfolding c_str_def by (induction a) auto

text \<open>A path that goes on below a directory, without going up, stays below it.\<close>

lemma walk_below:
  assumes "\<not> sublist ''..'' u"
  shows "prefix (walk [] (split_path base)) (walk [] (split_path (base @ CHR ''/'' # u)))"
proof -
  have "''..'' \<notin> set (split_path u)" using assms split_path_sublist by blast
  then show ?thesis by (simp add: split_path_append walk_append walk_down)
qed

lemma walk_trailing: "walk d (split_path (base @ [CHR ''/''])) = walk d (split_path base)"
  using split_path_append [of base "[]"] by (simp add: walk_append)

text \<open>The target with the file of a directory, up to its first null character.\<close>

lemma legal_target_tail:
  assumes "legal_target t"
  obtains u where "c_str (if last t = CHR ''/'' then t @ ''index.html'' else t) = CHR ''/'' # u"
    and "\<not> sublist ''..'' u"
proof -
  let ?t' = "if last t = CHR ''/'' then t @ ''index.html'' else t"
  have "?t' = CHR ''/'' # tl ?t'" using assms by (cases t) (auto simp: legal_target_def)
  then have "c_str ?t' = c_str (CHR ''/'' # tl ?t')" by (rule arg_cong)
  then obtain u where u: "c_str ?t' = CHR ''/'' # u" by (simp add: c_str_def)
  have "\<not> sublist ''..'' ?t'" using assms sublist_index [of t] by (auto simp: legal_target_def)
  moreover have "sublist u (c_str ?t')" unfolding u by (simp add: sublist_Cons_right)
  then have "sublist u ?t'"
    using prefix_imp_sublist [OF c_str_prefix] by (rule sublist_order.order.trans)
  ultimately have "\<not> sublist ''..'' u" using sublist_order.order.trans by blast
  with u show ?thesis using that by blast
qed

text \<open>The document root as \<open>path_cat\<close> takes it, and the path of a legal target below it.\<close>

lemma request_path_below:
  assumes "legal_target t" "doc_root \<noteq> []" "CHR 0x00 \<notin> set doc_root"
  shows "prefix (walk [] (split_path doc_root)) (walk [] (split_path (c_str (request_path doc_root t))))"
proof -
  let ?base = "if last doc_root = CHR ''/'' then butlast doc_root else doc_root"
  let ?t' = "if last t = CHR ''/'' then t @ ''index.html'' else t"
  have "request_path doc_root t = ?base @ ?t'"
    using assms(2) by (simp add: request_path_def path_cat_def Let_def)
  moreover have "CHR 0x00 \<notin> set ?base" using assms(3) by (auto dest: in_set_butlastD)
  ultimately have path: "c_str (request_path doc_root t) = ?base @ c_str ?t'" using c_str_append by metis
  obtain u where u: "c_str ?t' = CHR ''/'' # u" and up: "\<not> sublist ''..'' u"
    using legal_target_tail [OF assms(1)] by blast
  have "walk [] (split_path ?base) = walk [] (split_path doc_root)"
    using assms(2) walk_trailing [of "[]" "butlast doc_root"]
    by (cases "last doc_root = CHR ''/''") (metis append_butlast_last_id, simp)
  then show ?thesis using walk_below [OF up, of ?base] unfolding path u by simp
qed

section \<open>Properties\<close>

text \<open>
  C17: no request gets out of the served directory. Every path that \<open>handle_request\<close> opens, for GET or
  HEAD and whatever comes of opening it, and every path whose file it answers with, ends, walked with \<open>..\<close> going
  up, in or below the place where walking the document root ends, whatever the target of the
  request was.
\<close>

theorem file_below_root:
  assumes "opens (request_handling beast doc_root req) = Some p \<or>
      body (handle_request beast open_file doc_root req) = File_body p"
    and "doc_root \<noteq> []" "CHR 0x00 \<notin> set doc_root"
  shows "prefix (walk [] (split_path doc_root)) (walk [] (split_path p))"
proof -
  from assms(1) have "legal_target (target req)" "p = c_str (request_path doc_root (target req))"
    by (auto simp: request_handling_def handle_request_def text_responses Let_def split: if_splits opened.splits)
  with request_path_below [OF _ assms(2,3)] show ?thesis by simp
qed

theorem file_below_root_witness:
  "prefix [''www''] (walk [] (split_path ''www/a/index.html''))"
proof -
  let ?req = "\<lparr>verb_of = Head, target = ''/a/'', version = 11, keep_alive = True\<rparr>"
  have "opens (request_handling ''Beast'' ''www/'' ?req) = Some ''www/a/index.html''"
    by (simp add: request_handling_def legal_target_def sublist_Cons_right request_path_def path_cat_def c_str_def Let_def)
  moreover have "''www/'' \<noteq> []" "CHR 0x00 \<notin> set ''www/''" by simp_all
  ultimately have "prefix (walk [] (split_path ''www/'')) (walk [] (split_path ''www/a/index.html''))"
    by (intro file_below_root [where open_file = "\<lambda>p. No_such_file"] disjI1)
  moreover have "walk [] (split_path ''www/'') = [''www'']" by simp
  ultimately show ?thesis by (simp only:)
qed

lemma request_status:
  "let res = handle_request beast open_file doc_root req;
       allowed = (verb_of req \<in> {Get, Head} \<and> legal_target (target req));
       answer = open_file (c_str (request_path doc_root (target req)))
   in (res_status res = Bad_request \<longleftrightarrow> \<not> allowed) \<and>
      (res_status res = Not_found \<longleftrightarrow> allowed \<and> answer = No_such_file) \<and>
      (res_status res = Internal_server_error \<longleftrightarrow> allowed \<and> (\<exists>what. answer = Open_error what)) \<and>
      (res_status res = Status_ok \<longleftrightarrow> allowed \<and> answer = Opened (content_length res)) \<and>
      res_version res = version req \<and> res_keep_alive res = keep_alive req \<and>
      (\<forall>txt. body res = String_body txt \<longrightarrow> content_length res = length txt)"
  by (auto simp: handle_request_unfold bad_request_def not_found_def server_error_def text_response_def
      file_response_def Let_def split: opened.splits)

text \<open>
  C29: the status of the response, and its text. It is 400 exactly for a method other than GET
  and HEAD or a target that is empty, not absolute or contains \<open>..\<close>; otherwise it is
  what opening the file says: 404, 500 or 200. Version and keep-alive are the request's, and
  the announced length is that of the body.
\<close>

theorem handle_request_status:
  "let res = handle_request beast open_file doc_root req;
       allowed = (verb_of req \<in> {Get, Head} \<and> legal_target (target req));
       answer = open_file (c_str (request_path doc_root (target req)))
   in (res_status res = Bad_request \<longleftrightarrow> \<not> allowed) \<and>
      (res_status res = Not_found \<longleftrightarrow> allowed \<and> answer = No_such_file) \<and>
      (res_status res = Internal_server_error \<longleftrightarrow> allowed \<and> (\<exists>what. answer = Open_error what)) \<and>
      (res_status res = Status_ok \<longleftrightarrow> allowed \<and> answer = Opened (content_length res)) \<and>
      res_version res = version req \<and> res_keep_alive res = keep_alive req \<and>
      (\<forall>txt. body res = String_body txt \<longrightarrow> content_length res = length txt)"
  by (rule request_status)

theorem handle_request_status_witness:
  "let res = handle_request ''Beast'' (\<lambda>p. No_such_file) ''www''
       \<lparr>verb_of = Get, target = ''/a'', version = 11, keep_alive = True\<rparr>
   in res_status res = Not_found \<and> content_length res = length ''The resource '' + 4 + length '' was not found.''"
proof -
  let ?req = "\<lparr>verb_of = Get, target = ''/a'', version = 11, keep_alive = True\<rparr>"
  let ?res = "handle_request ''Beast'' (\<lambda>p. No_such_file) ''www'' ?req"
  let ?txt = "''The resource '' @ [CHR 0x27] @ ''/a'' @ [CHR 0x27] @ '' was not found.''"
  have "legal_target (target ?req)" by (simp add: legal_target_def sublist_Cons_right)
  then have b: "body ?res = String_body ?txt"
    by (simp add: handle_request_unfold not_found_def text_response_def Let_def)
  have "legal_target ''/a''" by (simp add: legal_target_def sublist_Cons_right)
  with handle_request_status [of "''Beast''" "\<lambda>p. No_such_file" "''www''" ?req] b show ?thesis
    by (simp add: Let_def)
qed

text \<open>
  HEAD. For a file that can be opened, the response to HEAD is the one to GET without
  the body, all of the header included; but when the file is not there, HEAD gets a body
  like GET does, which the protocol forbids.
\<close>

theorem head_and_get:
  "let get = handle_request beast open_file doc_root (req\<lparr>verb_of := Get\<rparr>);
       hd = handle_request beast open_file doc_root (req\<lparr>verb_of := Head\<rparr>)
   in (res_status get = Status_ok \<longrightarrow> hd = get\<lparr>body := Empty_body\<rparr>) \<and>
      (res_status get \<noteq> Status_ok \<longrightarrow> hd = get \<and> (\<exists>txt. body hd = String_body txt))"
  by (auto simp: handle_request_unfold bad_request_def not_found_def server_error_def text_response_def
      file_response_def Let_def split: opened.splits)

theorem head_and_get_witness:
  "body (handle_request ''Beast'' (\<lambda>p. No_such_file) ''www''
     \<lparr>verb_of = Head, target = ''/a'', version = 11, keep_alive = True\<rparr>) \<noteq> Empty_body"
  using head_and_get [of "''Beast''" "\<lambda>p. No_such_file" "''www''"
      "\<lparr>verb_of = Get, target = ''/a'', version = 11, keep_alive = True\<rparr>"]
  by (auto simp: Let_def handle_request_unfold legal_target_def sublist_Cons_right not_found_def text_response_def)

end
