(* ===== verification/Http_Windows.thy ===== *)
theory Http_Windows
  imports Http_Request
begin

text \<open>
  The branches for Windows hosts of \<open>path_cat\<close> in the HTTP servers,
  \<open>other_ressources/boost_beast/src/async_http_server.cpp\<close>, \<open>ssl_http_server.cpp\<close> and
  \<open>simple_http_server.cpp\<close> (where the branch has two slips that keep it from compiling), and
  \<open>handle_request\<close> on top of it. The file system there takes both separators, so a path is
  walked with the backslash read as a slash. (Drive letters, device names and short names of
  that file system are not modelled.)
\<close>

section \<open>The path of a target\<close>

definition to_windows :: "char \<Rightarrow> char" where
  "to_windows c = (if c = CHR ''/'' then CHR 0x5C else c)"

definition path_cat_windows :: "string \<Rightarrow> string \<Rightarrow> string" where
  "path_cat_windows base path =
     (if base = [] then path
      else map to_windows ((if last base = CHR 0x5C then butlast base else base) @ path))"

definition tls_path_cat_windows :: "string \<Rightarrow> string \<Rightarrow> string" where
  "tls_path_cat_windows base path =
     (if base = [] then path
      else let result = (if last base = CHR 0x5C then butlast base else base)
           in map to_windows (result @ path))"

definition sync_path_cat_windows :: "string \<Rightarrow> string \<Rightarrow> string" where
  "sync_path_cat_windows base path =
     (if base = [] then path
      else let result = base;
               result = (if last result = CHR 0x5C then butlast result else result)
           in map to_windows (result @ path))"

lemma same_path_cat_windows:
  "tls_path_cat_windows = path_cat_windows" "sync_path_cat_windows = path_cat_windows"
  by (intro ext; simp add: tls_path_cat_windows_def sync_path_cat_windows_def path_cat_windows_def Let_def)+

definition request_path_windows :: "string \<Rightarrow> string \<Rightarrow> string" where
  "request_path_windows doc_root t =
     (let path = path_cat_windows doc_root t in if last t = CHR ''/'' then path @ ''index.html'' else path)"

definition request_handling_windows :: "string \<Rightarrow> string \<Rightarrow> request \<Rightarrow> handling" where
  "request_handling_windows beast doc_root req =
     (if verb_of req \<noteq> Get \<and> verb_of req \<noteq> Head then Respond (bad_request beast req ''Unknown HTTP-method'')
      else if \<not> legal_target (target req) then Respond (bad_request beast req ''Illegal request-target'')
      else
        let path = request_path_windows doc_root (target req)
        in Open_file (c_str path) (\<lambda>ec. case ec of
             No_such_file \<Rightarrow> not_found beast req (target req)
           | Open_error what \<Rightarrow> server_error beast req what
           | Opened n \<Rightarrow>
               if verb_of req = Head then file_response beast req path n Empty_body
               else file_response beast req path n (File_body (c_str path))))"

definition handle_request_windows :: "string \<Rightarrow> (string \<Rightarrow> opened) \<Rightarrow> string \<Rightarrow> request \<Rightarrow> response" where
  "handle_request_windows beast open_file doc_root req = finish open_file (request_handling_windows beast doc_root req)"

lemmas handle_request_windows_unfold = handle_request_windows_def request_handling_windows_def

interpretation windows_http: http_responder "handle_request_windows beast open_file doc_root"
  for beast open_file doc_root
  by unfold_locales (auto simp: handle_request_windows_unfold text_responses Let_def split: opened.splits if_splits)

section \<open>Both separators\<close>

definition read_separator :: "char \<Rightarrow> char" where
  "read_separator c = (if c = CHR 0x5C then CHR ''/'' else c)"

definition walk_windows :: "string \<Rightarrow> string list" where
  "walk_windows p = walk [] (split_path (map read_separator p))"

lemma read_to_windows [simp]: "read_separator (to_windows c) = read_separator c"
  by (simp add: read_separator_def to_windows_def)

lemma read_to_windows_map [simp]: "map read_separator (map to_windows s) = map read_separator s"
  by simp

lemma to_windows_null [simp]: "to_windows c = CHR 0x00 \<longleftrightarrow> c = CHR 0x00"
  by (simp add: to_windows_def)

lemma c_str_to_windows: "c_str (map to_windows s) = map to_windows (c_str s)"
  by (induction s) (simp_all add: c_str_def)

lemma read_separator_dot [simp]: "read_separator c = CHR ''.'' \<longleftrightarrow> c = CHR ''.''"
  by (simp add: read_separator_def)

text \<open>Reading the separators makes no two dots.\<close>

lemma dots_read_separator:
  assumes "sublist ''..'' (map read_separator s)"
  shows "sublist ''..'' s"
proof -
  obtain a b dots where "map read_separator s = a @ dots @ b" and dots: "dots = ''..''"
    using assms unfolding sublist_def by blast
  then obtain as ds bs where s: "s = as @ ds @ bs" and ds: "map read_separator ds = dots"
    by (metis map_eq_append_conv)
  from ds dots have "ds = ''..''" by (simp add: map_eq_Cons_conv)
  then show ?thesis unfolding s by (metis sublist_appendI)
qed

lemma request_path_windows_eq:
  assumes "doc_root \<noteq> []"
  shows "request_path_windows doc_root t =
    map to_windows ((if last doc_root = CHR 0x5C then butlast doc_root else doc_root) @
      (if last t = CHR ''/'' then t @ ''index.html'' else t))"
  using assms by (simp add: request_path_windows_def path_cat_windows_def to_windows_def Let_def)

lemma request_path_windows_below:
  assumes "legal_target t" "doc_root \<noteq> []" "CHR 0x00 \<notin> set doc_root"
  shows "prefix (walk_windows doc_root) (walk_windows (c_str (request_path_windows doc_root t)))"
proof -
  let ?p = "c_str (request_path_windows doc_root t)"
  let ?base = "if last doc_root = CHR 0x5C then butlast doc_root else doc_root"
  let ?t' = "if last t = CHR ''/'' then t @ ''index.html'' else t"
  have "?p = map to_windows (c_str (?base @ ?t'))"
    by (simp only: request_path_windows_eq [OF assms(2)] c_str_to_windows)
  moreover have "CHR 0x00 \<notin> set ?base" using assms(3) by (auto dest: in_set_butlastD)
  ultimately have p: "?p = map to_windows (?base @ c_str ?t')" using c_str_append by metis
  obtain u where u: "c_str ?t' = CHR ''/'' # u" and up: "\<not> sublist ''..'' u"
    using legal_target_tail [OF assms(1)] by blast
  have "map read_separator ?p = map read_separator ?base @ CHR ''/'' # map read_separator u"
    unfolding p u read_to_windows_map by (simp add: read_separator_def)
  moreover have "\<not> sublist ''..'' (map read_separator u)" using up dots_read_separator by blast
  ultimately have below: "prefix (walk_windows ?base) (walk_windows ?p)"
    unfolding walk_windows_def using walk_below by simp
  have "walk_windows ?base = walk_windows doc_root"
  proof (cases "last doc_root = CHR 0x5C")
    case True
    then have "map read_separator doc_root = map read_separator (butlast doc_root) @ [CHR ''/'']"
      using append_butlast_last_id [OF assms(2)] by (metis list.map(1,2) map_append read_separator_def)
    with True show ?thesis by (simp add: walk_windows_def walk_trailing)
  qed simp
  with below show ?thesis by simp
qed

section \<open>Properties\<close>

text \<open>
  C18: on Windows, too, no request gets out of the served directory. Every path that the server
  opens, for GET or HEAD and whatever comes of it, and every path whose file it answers with, ends, walked with both
  separators, in or below the place of the document root, although only \<open>..\<close> is looked for in the
  target and a backslash in it is let through.
\<close>

theorem file_below_root_windows:
  assumes "opens (request_handling_windows beast doc_root req) = Some p \<or>
      body (handle_request_windows beast open_file doc_root req) = File_body p"
    and "doc_root \<noteq> []" "CHR 0x00 \<notin> set doc_root"
  shows "prefix (walk_windows doc_root) (walk_windows p)"
proof -
  from assms(1) have "legal_target (target req)" "p = c_str (request_path_windows doc_root (target req))"
    by (auto simp: handle_request_windows_unfold text_responses Let_def split: if_splits opened.splits)
  with request_path_windows_below [OF _ assms(2,3)] show ?thesis by simp
qed

theorem file_below_root_windows_witness:
  "prefix (walk_windows ''www'') (walk_windows (''www'' @ [CHR 0x5C] @ ''a'' @ [CHR 0x5C] @ ''b''))"
proof -
  let ?req = "\<lparr>verb_of = Head, target = ''/a'' @ [CHR 0x5C] @ ''b'', version = 11, keep_alive = True\<rparr>"
  have "opens (request_handling_windows ''Beast'' ''www'' ?req) = Some (''www'' @ [CHR 0x5C] @ ''a'' @ [CHR 0x5C] @ ''b'')"
    by (simp add: request_handling_windows_def legal_target_def sublist_Cons_right
        request_path_windows_def path_cat_windows_def to_windows_def c_str_def Let_def)
  moreover have "''www'' \<noteq> []" "CHR 0x00 \<notin> set ''www''" by simp_all
  ultimately show ?thesis by (intro file_below_root_windows [where open_file = "\<lambda>p. No_such_file"] disjI1)
qed

text \<open>
  Both builds serve the same file for a target. When the document root has no backslash and no
  slash at its end, the path of the one build, with its separators read as slashes, is
  the path of the other for a target without backslashes.
\<close>

lemma windows_same_file:
  assumes "doc_root \<noteq> []" "last doc_root \<noteq> CHR ''/''" "CHR 0x5C \<notin> set doc_root" "CHR 0x5C \<notin> set t"
  shows "map read_separator (request_path_windows doc_root t) = request_path doc_root t"
proof -
  have id: "map read_separator s = s" if "CHR 0x5C \<notin> set s" for s
    using that by (induction s) (auto simp: read_separator_def)
  have "last doc_root \<noteq> CHR 0x5C" using assms(1,3) last_in_set by metis
  with assms show ?thesis
    by (auto simp: request_path_windows_eq request_path_def path_cat_def id Let_def simp del: map_append map_map)
qed

end
