(* ===== verification/Http_Session.thy ===== *)
theory Http_Session
  imports Http_Request
begin

text \<open>
  \<open>Session\<close> and \<open>Listener\<close> of \<open>other_ressources/boost_beast/src/async_http_server.cpp\<close>: the
  cycle of reading a request, handling it, writing the response, and the start of the
  server. The HTTP parser and the sockets are those of the library: a read completes with a
  request, the end of the stream, or an error message. The file does not compile as it is: the
  bindings of the handlers lack placeholders for their arguments (lines 216, 241, 371; the model passes
  the arguments), the base classes have parentheses too many (196, 313), line 207 has a colon too
  many, and the socket that \<open>on_accept\<close> uses has no name in its parameters (375). The model reads these
  lines as they are meant.
\<close>

section \<open>A session\<close>

datatype http_op = Reading | Writing response bool

datatype http_event =
    Read_request request
  | Read_end_of_stream
  | Read_error string
  | Written
  | Write_error string

text \<open>
  \<open>pending_ops\<close>: the operations started and not completed. \<open>shut\<close>: the sending side of the
  socket is shut down. \<open>timed\<close>: how many operations have been started since \<open>expires_after\<close> set
  a deadline of thirty seconds on the stream, if it ever did. \<open>requests\<close> and \<open>responses\<close> are what
  has gone through the stream: the requests that the completed reads gave, and the responses that the
  completed writes sent. They are kept by the stream (\<open>http_complete\<close>), no handler sees them.
\<close>

record http_session =
  pending_ops :: "http_op list"
  request_buf :: "request option"
  response_ptr :: "response option"
  timed :: "nat option"
  shut :: bool
  reports :: "string list"
  requests :: "request list"
  responses :: "response list"

definition report_fail :: "string \<Rightarrow> string \<Rightarrow> http_session \<Rightarrow> http_session" where
  "report_fail message what s = s\<lparr>reports := reports s @ [what @ '': '' @ message]\<rparr>"

definition begin_op :: "http_op \<Rightarrow> http_session \<Rightarrow> http_session" where
  "begin_op op s = s\<lparr>pending_ops := pending_ops s @ [op], timed := map_option Suc (timed s)\<rparr>"

definition expires_after :: "http_session \<Rightarrow> http_session" where
  "expires_after s = s\<lparr>timed := Some 0\<rparr>"

definition do_read :: "http_session \<Rightarrow> http_session" where
  "do_read s = begin_op Reading (expires_after (s\<lparr>request_buf := None\<rparr>))"

definition run_session :: "http_session" where
  "run_session = do_read \<lparr>pending_ops = [], request_buf = None, response_ptr = None,
     timed = None, shut = False,
     reports = [''[SENDLAMBDA]: send_lambda initialized'', ''[SERVER]: Session initialized.''], requests = [], responses = []\<rparr>"

definition do_close :: "http_session \<Rightarrow> http_session" where
  "do_close s = s\<lparr>shut := True\<rparr>"

text \<open>
  \<open>send_lambda\<close> keeps the response alive and starts the write; a response whose end the
  client can only see by the end of the connection needs the connection closed. All
  responses here have a content length, so this is so when keep-alive is off.
\<close>

definition need_eof :: "response \<Rightarrow> bool" where
  "need_eof res \<longleftrightarrow> \<not> res_keep_alive res"

definition send_lambda :: "response \<Rightarrow> http_session \<Rightarrow> http_session" where
  "send_lambda res s = begin_op (Writing res (need_eof res)) (s\<lparr>response_ptr := Some res\<rparr>)"

definition on_read_request ::
  "(request \<Rightarrow> response) \<Rightarrow> request \<Rightarrow> http_session \<Rightarrow> http_session" where
  "on_read_request handler req s = send_lambda (handler req) (s\<lparr>request_buf := Some req\<rparr>)"

definition on_write :: "bool \<Rightarrow> http_session \<Rightarrow> http_session" where
  "on_write close s = (if close then do_close s else do_read (s\<lparr>response_ptr := None\<rparr>))"

text \<open>
  Completion of the operation \<open>op\<close> with an event; \<open>handler\<close> is \<open>handle_request\<close> on the
  document root of the server.
\<close>

fun http_complete :: "(request \<Rightarrow> response) \<Rightarrow> http_op \<Rightarrow> http_event \<Rightarrow> http_session \<Rightarrow> http_session option" where
  "http_complete handler Reading (Read_request req) s =
     Some (on_read_request handler req (s\<lparr>requests := requests s @ [req]\<rparr>))"
| "http_complete handler Reading Read_end_of_stream s = Some (do_close s)"
| "http_complete handler Reading (Read_error message) s = Some (report_fail message ''read'' s)"
| "http_complete handler (Writing res close) Written s =
     Some (on_write close (s\<lparr>responses := responses s @ [res]\<rparr>))"
| "http_complete handler (Writing res close) (Write_error message) s = Some (report_fail message ''write'' s)"
| "http_complete handler _ _ s = None"

inductive http_step :: "(request \<Rightarrow> response) \<Rightarrow> http_session \<Rightarrow> http_session \<Rightarrow> bool"
  for handler :: "request \<Rightarrow> response" where
  "pending_ops s = xs @ op # ys \<Longrightarrow>
     http_complete handler op ev (s\<lparr>pending_ops := xs @ ys\<rparr>) = Some s' \<Longrightarrow> http_step handler s s'"

inductive http_reach :: "(request \<Rightarrow> response) \<Rightarrow> http_session \<Rightarrow> bool"
  for handler :: "request \<Rightarrow> response" where
  init: "http_reach handler run_session"
| step: "http_reach handler s \<Longrightarrow> http_step handler s s' \<Longrightarrow> http_reach handler s'"

section \<open>The server\<close>

text \<open>
  The constructor of \<open>Listener\<close>: the four set-up calls, each with its error or none; it
  returns the line it prints and whether the acceptor listens.
\<close>

definition listener_setup :: "bool \<Rightarrow> bool \<Rightarrow> bool \<Rightarrow> bool \<Rightarrow> string \<times> bool" where
  "listener_setup open_ec option_ec bind_ec listen_ec =
     (if open_ec then (''[SERVER]: Error on opening up the acceptor.'', False)
      else if option_ec then (''[SERVER]: Error on setting the listener to reuse_address.'', False)
      else if bind_ec then (''[SERVER]: Error on binding the endpoint to the acceptor instance.'', False)
      else if listen_ec then (''[SERVER]: Error on listening for new connections'', False)
      else (''[SERVER]: Listener initialized'', True))"

record listener =
  accepts_pending :: nat
  sessions :: "http_session list"
  listener_reports :: "string list"

definition do_accept :: "listener \<Rightarrow> listener" where
  "do_accept l = l\<lparr>accepts_pending := Suc (accepts_pending l)\<rparr>"

definition run_listener :: "listener" where
  "run_listener = do_accept \<lparr>accepts_pending = 0, sessions = [], listener_reports = []\<rparr>"

definition http_on_accept :: "bool \<Rightarrow> listener \<Rightarrow> listener" where
  "http_on_accept ec l =
     (if \<not> ec then l\<lparr>sessions := sessions l @ [run_session]\<rparr>
      else l\<lparr>listener_reports := listener_reports l @ [''[SERVER]: Error on on_accept().'']\<rparr>)"

definition accept_event :: "bool \<Rightarrow> listener \<Rightarrow> listener option" where
  "accept_event ec l =
     (case accepts_pending l of 0 \<Rightarrow> None | Suc n \<Rightarrow> Some (http_on_accept ec (l\<lparr>accepts_pending := n\<rparr>)))"

primrec accept_events :: "bool list \<Rightarrow> listener \<Rightarrow> listener option" where
  "accept_events [] l = Some l"
| "accept_events (ec # ecs) l = Option.bind (accept_event ec l) (accept_events ecs)"

definition server_threads :: "int \<Rightarrow> int" where
  "server_threads demanded_threads = (if demanded_threads < 1 then 1 else demanded_threads)"

section \<open>The cycle of a session\<close>

text \<open>
  All requests but the last one have been answered, by the responses of the handler, and keep the
  connection alive; what is pending, if anything, goes on from there.
\<close>

fun http_phase :: "(request \<Rightarrow> response) \<Rightarrow> http_op \<Rightarrow> http_session \<Rightarrow> bool" where
  "http_phase handler Reading s \<longleftrightarrow>
     responses s = map handler (requests s) \<and> (\<forall>req \<in> set (requests s). res_keep_alive (handler req)) \<and> timed s = Some 1"
| "http_phase handler (Writing res close) s \<longleftrightarrow>
     requests s \<noteq> [] \<and> res = handler (last (requests s)) \<and> close = (\<not> res_keep_alive res) \<and>
     responses s = map handler (butlast (requests s)) \<and> timed s = Some 2 \<and> response_ptr s = Some res"

definition session_ok :: "(request \<Rightarrow> response) \<Rightarrow> http_session \<Rightarrow> bool" where
  "session_ok handler s \<longleftrightarrow>
     (\<forall>req \<in> set (butlast (requests s)). res_keep_alive (handler req)) \<and>
     responses s \<in> {map handler (requests s), map handler (butlast (requests s))} \<and>
     (pending_ops s = [] \<or> \<not> shut s \<and> (\<exists>op. pending_ops s = [op] \<and> http_phase handler op s))"

lemmas http_defs = begin_op_def expires_after_def do_read_def do_close_def send_lambda_def on_read_request_def
  on_write_def report_fail_def need_eof_def

lemma session_ok_init: "session_ok handler run_session"
  by (simp add: session_ok_def run_session_def http_defs)

lemma map_snoc_butlast: "xs \<noteq> [] \<Longrightarrow> map f (butlast xs) @ [f (last xs)] = map f xs"
  by (induction xs rule: rev_induct) auto

lemma alive_all:
  "\<forall>x \<in> set (butlast xs). P x \<Longrightarrow> P (last xs) \<Longrightarrow> x \<in> set xs \<Longrightarrow> P x"
  by (induction xs rule: rev_induct) auto

lemma session_ok_step: "http_step handler s s' \<Longrightarrow> session_ok handler s \<Longrightarrow> session_ok handler s'"
proof (induction rule: http_step.induct)
  case (1 s xs op ys ev s')
  then have p: "xs = []" "ys = []" "\<not> shut s" "http_phase handler op s"
    by (auto simp: session_ok_def append_eq_Cons_conv)
  show ?case
  proof (cases op)
    case Reading
    with 1 p show ?thesis by (cases ev) (auto simp: session_ok_def http_defs)
  next
    case (Writing res close)
    with 1 p show ?thesis
      by (cases ev; cases close)
        (auto simp: session_ok_def http_defs map_snoc_butlast intro: alive_all [of "requests s" "\<lambda>req. res_keep_alive (handler req)"])
  qed
qed

lemma session_ok_reach: "http_reach handler s \<Longrightarrow> session_ok handler s"
  by (induction rule: http_reach.induct) (auto intro: session_ok_init session_ok_step)

section \<open>Properties\<close>

text \<open>
  C27: the cycle of a session. At most one operation is pending at any time. What the completed
  writes have sent is, request by request, the response of \<open>handle_request\<close>, with one request at most still
  to be answered; a write that is pending has the response to that one, and closes the connection after it
  exactly if the request does not keep it alive; another request is read only after all have been answered, and only
  if they all keep the connection alive. Once the sending side is shut down, nothing is read or written any
  more. Each read has a deadline of its own, and the write that follows runs under the same one.
\<close>

theorem session_cycle:
  assumes "http_reach (handle_request beast open_file doc_root) s"
  shows "length (pending_ops s) \<le> 1 \<and>
    responses s = map (handle_request beast open_file doc_root) (take (length (responses s)) (requests s)) \<and>
    length (requests s) \<le> Suc (length (responses s)) \<and>
    (\<forall>res close. Writing res close \<in> set (pending_ops s) \<longrightarrow>
       length (requests s) = Suc (length (responses s)) \<and>
       res = handle_request beast open_file doc_root (last (requests s)) \<and> close = (\<not> keep_alive (last (requests s))) \<and>
       timed s = Some 2) \<and>
    (Reading \<in> set (pending_ops s) \<longrightarrow>
       length (requests s) = length (responses s) \<and> (\<forall>req \<in> set (requests s). keep_alive req) \<and> timed s = Some 1) \<and>
    (\<forall>req \<in> set (butlast (requests s)). keep_alive req) \<and>
    (shut s \<longrightarrow> pending_ops s = [])"
proof -
  let ?h = "handle_request beast open_file doc_root"
  have ok: "session_ok ?h s" using assms by (rule session_ok_reach)
  then have rs: "responses s = map ?h (requests s) \<or> responses s = map ?h (butlast (requests s))" by (simp add: session_ok_def)
  then have counts: "responses s = map ?h (take (length (responses s)) (requests s)) \<and> length (requests s) \<le> Suc (length (responses s))"
    by (auto simp: butlast_conv_take)
  show ?thesis
  proof (cases "pending_ops s")
    case Nil
    with counts ok show ?thesis by (auto simp: session_ok_def async_http.keeps_alive)
  next
    case (Cons op ops)
    with ok have "ops = []" by (auto simp: session_ok_def)
    with Cons counts ok show ?thesis by (cases op) (auto simp: session_ok_def async_http.keeps_alive)
  qed
qed

theorem session_cycle_witness:
  "\<exists>s. http_reach (handle_request ''Beast'' (\<lambda>p. No_such_file) ''www'') s \<and> shut s \<and> pending_ops s = []"
proof -
  let ?h = "handle_request ''Beast'' (\<lambda>p. No_such_file) ''www''"
  have "http_step ?h run_session (do_close (run_session\<lparr>pending_ops := []\<rparr>))"
    by (rule http_step.intros [of _ "[]" Reading "[]" ?h Read_end_of_stream]) (simp_all add: run_session_def http_defs)
  then have r: "http_reach ?h (do_close (run_session\<lparr>pending_ops := []\<rparr>))"
    by (rule http_reach.step [OF http_reach.init])
  from session_cycle [OF r] have "shut (do_close (run_session\<lparr>pending_ops := []\<rparr>)) \<longrightarrow>
      pending_ops (do_close (run_session\<lparr>pending_ops := []\<rparr>)) = []" by blast
  with r show ?thesis by (auto simp: do_close_def)
qed

text \<open>
  The HTTP server serves one connection only. The handler of \<open>async_accept\<close> does not
  start another one, so after the first connection (or the first error) no accept is
  pending, and whoever connects next gets no session.
\<close>

theorem listener_accepts_once:
  "accept_events (ec # ecs) run_listener =
     (if ecs = [] then Some (http_on_accept ec (run_listener\<lparr>accepts_pending := 0\<rparr>)) else None)"
  by (cases ecs) (simp_all add: accept_event_def run_listener_def do_accept_def http_on_accept_def)

end
