(* ===== verification/Http_Sync.thy ===== *)
theory Http_Sync
  imports Http_Request
begin

text \<open>
  The synchronous HTTP server, \<open>other_ressources/boost_beast/src/simple_http_server.cpp\<close>:
  \<open>path_cat\<close>, \<open>handle_request\<close> and the loop of \<open>do_session\<close>.

  Requests, verbs and bodies are those of the asynchronous server. \<open>mime_type\<close> is called but
  not defined in the file: it is a parameter, as is opening a file. The file has slips that
  keep it from compiling (\<open>close_.msg.need_eof()\<close> for \<open>close_ = msg.need_eof()\<close>, \<open>req\<close> for
  \<open>request\<close>, the member \<open>ec_\<close> declared as \<open>ec\<close>); they are read as what they stand for. The
  end of \<open>handle_request\<close> without a call of \<open>send\<close> is kept as it is.
\<close>

section \<open>The request handler\<close>

definition sync_path_cat :: "string \<Rightarrow> string \<Rightarrow> string" where
  "sync_path_cat base path =
     (if base = [] then path
      else let result = base;
               result = (if last result = CHR ''/'' then butlast result else result)
           in result @ path)"

text \<open>\<open>has_length\<close>: the header announces the length of the body, \<open>content_length\<close>.\<close>

record sync_response = response +
  has_length :: bool

definition sync_bad_request :: "string \<Rightarrow> request \<Rightarrow> string \<Rightarrow> sync_response" where
  "sync_bad_request beast req why =
     \<lparr>res_status = Bad_request, res_version = version req, server_field = beast, content_type = ''text/html'',
      content_length = length why, res_keep_alive = keep_alive req, body = String_body why, has_length = True\<rparr>"

definition sync_not_found :: "string \<Rightarrow> request \<Rightarrow> string \<Rightarrow> sync_response" where
  "sync_not_found beast req tgt =
     (let txt = ''The ressource: '' @ [CHR 0x27] @ tgt @ [CHR 0x27] @ '' was not found.''
      in \<lparr>res_status = Not_found, res_version = version req, server_field = beast, content_type = ''test/html'',
          content_length = length txt, res_keep_alive = keep_alive req, body = String_body txt, has_length = True\<rparr>)"

text \<open>Here \<open>prepare_payload\<close> is not called, so the header has no length.\<close>

definition sync_server_error :: "string \<Rightarrow> request \<Rightarrow> string \<Rightarrow> sync_response" where
  "sync_server_error beast req what =
     (let txt = ''An error occured: '' @ [CHR 0x27] @ what @ [CHR 0x27]
      in \<lparr>res_status = Internal_server_error, res_version = version req, server_field = beast,
          content_type = ''test/html'', content_length = 0, res_keep_alive = keep_alive req,
          body = String_body txt, has_length = False\<rparr>)"

definition sync_head_response :: "string \<Rightarrow> (string \<Rightarrow> string) \<Rightarrow> request \<Rightarrow> string \<Rightarrow> nat \<Rightarrow> sync_response" where
  "sync_head_response beast mime req path n =
     \<lparr>res_status = Status_ok, res_version = version req, server_field = beast, content_type = mime path,
      content_length = n, res_keep_alive = keep_alive req, body = Empty_body, has_length = True\<rparr>"

text \<open>What is handed to \<open>send\<close>, if anything is: the branch for GET builds a response and drops it.\<close>

definition sync_handle_request ::
  "string \<Rightarrow> (string \<Rightarrow> string) \<Rightarrow> (string \<Rightarrow> opened) \<Rightarrow> string \<Rightarrow> request \<Rightarrow> sync_response option" where
  "sync_handle_request beast mime open_file doc_root req =
     (if verb_of req \<noteq> Get \<and> verb_of req \<noteq> Head then Some (sync_bad_request beast req ''Unknown HTTP-method'')
      else if target req = [] \<or> hd (target req) \<noteq> CHR ''/'' \<or> sublist ''..'' (target req)
      then Some (sync_bad_request beast req ''Illegal request-target'')
      else
        let path = sync_path_cat doc_root (target req);
            path = (if last (target req) = CHR ''/'' then path @ ''index.html'' else path)
        in case open_file (c_str path) of
             No_such_file \<Rightarrow> Some (sync_not_found beast req (target req))
           | Open_error what \<Rightarrow> Some (sync_server_error beast req what)
           | Opened n \<Rightarrow>
               if verb_of req = Head then Some (sync_head_response beast mime req path n) else None)"

section \<open>The session\<close>

text \<open>
  The library's \<open>need_eof\<close> of a response, which is true when keep-alive is off or there is no
  length. What a read gives: a request, the end of the stream, or an error, with what is
  then in the request object.
\<close>

definition sync_need_eof :: "sync_response \<Rightarrow> bool" where
  "sync_need_eof res \<longleftrightarrow> (if has_length res then \<not> res_keep_alive res else True)"

datatype read_result = Got request | Stream_end | Read_failed request string

datatype session_end = Shut_down | Returned_fail string | Waiting

text \<open>
  \<open>send_lambda\<close>: sets \<open>close\<close>, then writes, which overwrites \<open>ec\<close> with its own result
  \<open>write_ec\<close>.
\<close>

definition sync_send :: "string option \<Rightarrow> sync_response \<Rightarrow> bool \<times> string option" where
  "sync_send write_ec msg = (sync_need_eof msg, write_ec)"

text \<open>
  The loop of \<open>do_session\<close> on what the reads and writes give, in turn; the result is the
  responses written, and how the function ends, or that it is blocked in a read.
\<close>

fun do_session ::
  "(request \<Rightarrow> sync_response option) \<Rightarrow> bool \<Rightarrow> (read_result \<times> string option) list \<Rightarrow>
     sync_response list \<times> session_end" where
  "do_session handler close [] = ([], Waiting)"
| "do_session handler close ((r, write_ec) # evs) =
     (case r of
        Stream_end \<Rightarrow> ([], Shut_down)
      | _ \<Rightarrow>
          let (req, ec) = (case r of Read_failed q m \<Rightarrow> (q, Some m) | Got q \<Rightarrow> (q, None));
              response = handler req;
              (close, ec) = (case response of None \<Rightarrow> (close, ec) | Some msg \<Rightarrow> sync_send write_ec msg);
              written = (case response of None \<Rightarrow> [] | Some msg \<Rightarrow> [msg])
          in case ec of
               Some m \<Rightarrow> (written, Returned_fail m)
             | None \<Rightarrow>
                 if close then (written, Shut_down)
                 else let (rest, fin) = do_session handler close evs in (written @ rest, fin))"

section \<open>Properties\<close>

lemma sync_path_cat_eq: "sync_path_cat = path_cat"
  by (intro ext) (simp add: sync_path_cat_def path_cat_def Let_def)

lemma sync_handle_cases:
  "sync_handle_request beast mime open_file doc_root req =
     (if \<not> (verb_of req \<in> {Get, Head}) then Some (sync_bad_request beast req ''Unknown HTTP-method'')
      else if \<not> legal_target (target req) then Some (sync_bad_request beast req ''Illegal request-target'')
      else
        let path = request_path doc_root (target req)
        in case open_file (c_str path) of
             No_such_file \<Rightarrow> Some (sync_not_found beast req (target req))
           | Open_error what \<Rightarrow> Some (sync_server_error beast req what)
           | Opened n \<Rightarrow>
               if verb_of req = Head then Some (sync_head_response beast mime req path n) else None)"
  by (simp add: sync_handle_request_def legal_target_def request_path_def sync_path_cat_eq Let_def)

lemmas sync_responses = sync_bad_request_def sync_not_found_def sync_server_error_def sync_head_response_def
  bad_request_def not_found_def server_error_def text_response_def file_response_def

text \<open>
  The synchronous server and the asynchronous one decide alike: where the synchronous one
  answers at all, it answers with the same status, version and keep-alive; and it answers
  every request but a GET whose file could be opened, to which it sends nothing.
\<close>
theorem sync_same_status:
  "case sync_handle_request beast mime open_file doc_root req of
     None \<Rightarrow> verb_of req = Get \<and> res_status (handle_request beast open_file doc_root req) = Status_ok
   | Some res \<Rightarrow>
       res_status res = res_status (handle_request beast open_file doc_root req) \<and>
       res_version res = version req \<and> res_keep_alive res = keep_alive req \<and>
       \<not> (verb_of req = Get \<and> res_status res = Status_ok)"
  by (auto simp: sync_handle_cases handle_request_unfold sync_responses Let_def split: opened.splits)

text \<open>
  A GET of a file that can be opened gets no response: the session goes on to the next
  read as if the request had not been there, and the client waits.
\<close>
theorem sync_get_unanswered:
  assumes "verb_of req = Get" "legal_target (target req)"
    and "open_file (c_str (request_path doc_root (target req))) = Opened n"
  shows "do_session (sync_handle_request beast mime open_file doc_root) False ((Got req, write_ec) # evs) =
    do_session (sync_handle_request beast mime open_file doc_root) False evs"
  using assms by (simp add: sync_handle_cases)

text \<open>
  An error of a read does not end the session. The request object, whose method is then
  not GET or HEAD, is handled, the answer that the method is unknown is written, and the
  write's own success replaces the error; with keep-alive the loop reads on.
\<close>
theorem sync_read_error_answered:
  assumes "verb_of req \<notin> {Get, Head}" "keep_alive req"
  shows "do_session (sync_handle_request beast mime open_file doc_root) False ((Read_failed req m, None) # evs) =
    (let (rest, fin) = do_session (sync_handle_request beast mime open_file doc_root) False evs
     in (sync_bad_request beast req ''Unknown HTTP-method'' # rest, fin))"
  using assms by (simp add: sync_handle_cases sync_send_def sync_need_eof_def sync_bad_request_def)

theorem sync_get_unanswered_witness:
  "do_session (sync_handle_request ''Beast'' (\<lambda>p. ''text/html'') (\<lambda>p. Opened 5) ''www'') False
     [(Got \<lparr>verb_of = Get, target = ''/a'', version = 11, keep_alive = True\<rparr>, None)] = ([], Waiting)"
proof -
  let ?req = "\<lparr>verb_of = Get, target = ''/a'', version = 11, keep_alive = True\<rparr>"
  have "verb_of ?req = Get" "legal_target (target ?req)"
    "(\<lambda>p. Opened 5) (c_str (request_path ''www'' (target ?req))) = Opened 5"
    by (simp_all add: legal_target_def sublist_Cons_right)
  from sync_get_unanswered [OF this, where beast = "''Beast''" and mime = "\<lambda>p. ''text/html''" and write_ec = None and evs = "[]"]
  show ?thesis by simp
qed

theorem sync_read_error_answered_witness:
  "length (fst (do_session (sync_handle_request ''Beast'' (\<lambda>p. ''text/html'') (\<lambda>p. Opened 5) ''www'') False
     [(Read_failed \<lparr>verb_of = Other_verb '''', target = '''', version = 11, keep_alive = True\<rparr> ''bad method'', None)])) = 1"
proof -
  let ?req = "\<lparr>verb_of = Other_verb '''', target = '''', version = 11, keep_alive = True\<rparr>"
  have "verb_of ?req \<notin> {Get, Head}" "keep_alive ?req" by simp_all
  from sync_read_error_answered [OF this, where beast = "''Beast''" and mime = "\<lambda>p. ''text/html''" and open_file = "\<lambda>p. Opened 5"
      and doc_root = "''www''" and m = "''bad method''" and evs = "[]"]
  show ?thesis by simp
qed

end
