(* ===== verification/Http_Tls.thy ===== *)
theory Http_Tls
  imports Http_Session
begin

text \<open>
  The HTTP server over TLS, \<open>other_ressources/boost_beast/src/ssl_http_server.cpp\<close>:
  its \<open>fail\<close>, \<open>mime_type\<close>, \<open>path_cat\<close> and \<open>handle_request\<close>, the session with the TLS
  handshake before the first request and the TLS shutdown after the last one, the listener
  and the threads of \<open>main\<close>. Loading the certificate is in \<open>Http_Certificate\<close>. A timer of
  the library ends an operation that takes longer than 30 seconds with an error; \<open>expires\<close> counts the
  operations that have been started since \<open>expires_after\<close> last set it, if it ever did. \<open>tls_requests\<close>
  and \<open>tls_responses\<close> are what has gone through the stream, the requests of the completed reads and the
  responses of the completed writes; they are kept by the stream (\<open>tls_complete\<close>), no handler sees them.
\<close>

section \<open>Handling a request\<close>

definition tls_path_cat :: "string \<Rightarrow> string \<Rightarrow> string" where
  "tls_path_cat base path =
     (if base = [] then path
      else let result = (if last base = CHR ''/'' then butlast base else base) in result @ path)"

definition tls_mime_type :: "string \<Rightarrow> string" where
  "tls_mime_type path =
     (let ext = file_ext path
      in if iequals ext ''.htm'' then ''text/html''
      else if iequals ext ''.html'' then ''text/html''
      else if iequals ext ''.php'' then ''text/html''
      else if iequals ext ''.css'' then ''text/css''
      else if iequals ext ''.txt'' then ''text/plain''
      else if iequals ext ''.js'' then ''application/javascript''
      else if iequals ext ''.json'' then ''application/json''
      else if iequals ext ''.xml'' then ''application/xml''
      else if iequals ext ''.swf'' then ''application/x-shockwave-flash''
      else if iequals ext ''.flv'' then ''video/x-flv''
      else if iequals ext ''.png'' then ''image/png''
      else if iequals ext ''.jpe'' then ''image/jpeg''
      else if iequals ext ''.jpeg'' then ''image/jpeg''
      else if iequals ext ''.jpg'' then ''image/jpeg''
      else if iequals ext ''.gif'' then ''image/gif''
      else if iequals ext ''.bmp'' then ''image/bmp''
      else if iequals ext ''.ico'' then ''image/vnd.microsoft.icon''
      else if iequals ext ''.tiff'' then ''image/tiff''
      else if iequals ext ''.tif'' then ''image/tiff''
      else if iequals ext ''.svg'' then ''image/svg+xml''
      else if iequals ext ''.svgz'' then ''image/svg+xml''
      else ''application/text'')"

lemma tls_path_cat_eq: "tls_path_cat = path_cat"
  by (intro ext) (simp add: tls_path_cat_def path_cat_def Let_def)

lemma tls_mime_type_eq: "tls_mime_type = mime_type"
  by (intro ext) (simp add: tls_mime_type_def mime_type_def mime_table_def Let_def)

text \<open>
  A file that does not exist is reported as a server error, with the text of the error,
  \<open>missing\<close>; any other error of opening is not looked at, and the response goes on with a
  body that has no file. \<open>closed_size\<close> is the size such a body has.
\<close>

definition tls_handle_request ::
  "string \<Rightarrow> string \<Rightarrow> nat \<Rightarrow> (string \<Rightarrow> opened) \<Rightarrow> string \<Rightarrow> request \<Rightarrow> response" where
  "tls_handle_request beast missing closed_size open_file doc_root req =
     (if verb_of req \<noteq> Get \<and> verb_of req \<noteq> Head then bad_request beast req ''Unsupported HTTP-method''
      else if target req = [] \<or> hd (target req) \<noteq> CHR ''/'' \<or> sublist ''..'' (target req)
      then bad_request beast req ''Illegal request-target''
      else
        let path = tls_path_cat doc_root (target req);
            path = (if last (target req) = CHR ''/'' then path @ ''index.html'' else path);
            ec = open_file (c_str path)
        in if ec = No_such_file then server_error beast req missing
           else
             let size = (case ec of Opened n \<Rightarrow> n | _ \<Rightarrow> closed_size)
             in if verb_of req = Head
                then \<lparr>res_status = Status_ok, res_version = version req, server_field = beast,
                       content_type = tls_mime_type path, content_length = size, res_keep_alive = keep_alive req,
                       body = Empty_body\<rparr>
                else \<lparr>res_status = Status_ok, res_version = version req, server_field = beast,
                       content_type = tls_mime_type path, content_length = size, res_keep_alive = keep_alive req,
                       body = File_body (c_str path)\<rparr>)"

interpretation tls_http: http_responder "tls_handle_request beast missing closed_size open_file doc_root"
  for beast missing closed_size open_file doc_root
  by unfold_locales (auto simp: tls_handle_request_def text_responses Let_def split: if_splits)

section \<open>A session\<close>

datatype tls_error = Stream_truncated | Other_error string

datatype tls_op = Dispatched | Handshaking | Tls_reading | Tls_writing response bool | Shutting_down

datatype tls_event =
    Succeeded
  | Tls_request request
  | Tls_end_of_stream
  | Tls_failed tls_error

record tls_session =
  tls_pending :: "tls_op list"
  expires :: "nat option"
  tls_request :: "request option"
  tls_response :: "response option"
  handshake_done :: bool
  tls_reports :: "string list"
  tls_requests :: "request list"
  tls_responses :: "response list"
  closes :: nat

definition tls_fail :: "tls_error \<Rightarrow> string \<Rightarrow> tls_session \<Rightarrow> tls_session" where
  "tls_fail ec what s =
     (case ec of
        Stream_truncated \<Rightarrow> s
      | Other_error message \<Rightarrow> s\<lparr>tls_reports := tls_reports s @ [what @ '': '' @ message]\<rparr>)"

definition start_op :: "tls_op \<Rightarrow> tls_session \<Rightarrow> tls_session" where
  "start_op op s = s\<lparr>tls_pending := tls_pending s @ [op], expires := map_option Suc (expires s)\<rparr>"

definition tls_run :: tls_session where
  "tls_run = start_op Dispatched
     \<lparr>tls_pending = [], expires = None, tls_request = None, tls_response = None, handshake_done = False,
      tls_reports = [''[SERVER]: send_lambda for the Session initialized.'', ''[SESSION]: Session initialized.''],
      tls_requests = [], tls_responses = [], closes = 0\<rparr>"

definition on_run :: "tls_session \<Rightarrow> tls_session" where
  "on_run s = start_op Handshaking (s\<lparr>expires := Some 0\<rparr>)"

definition tls_do_read :: "tls_session \<Rightarrow> tls_session" where
  "tls_do_read s = start_op Tls_reading (s\<lparr>tls_request := None, expires := Some 0\<rparr>)"

definition on_handshake :: "tls_error option \<Rightarrow> tls_session \<Rightarrow> tls_session" where
  "on_handshake ec s =
     (case ec of None \<Rightarrow> tls_do_read (s\<lparr>handshake_done := True\<rparr>) | Some e \<Rightarrow> tls_fail e ''handshake'' s)"

definition tls_do_close :: "tls_session \<Rightarrow> tls_session" where
  "tls_do_close s = start_op Shutting_down (s\<lparr>expires := Some 0, closes := Suc (closes s)\<rparr>)"

definition tls_send :: "response \<Rightarrow> tls_session \<Rightarrow> tls_session" where
  "tls_send res s = start_op (Tls_writing res (need_eof res)) (s\<lparr>tls_response := Some res\<rparr>)"

definition tls_on_read :: "(request \<Rightarrow> response) \<Rightarrow> tls_event \<Rightarrow> tls_session \<Rightarrow> tls_session" where
  "tls_on_read respond ev s =
     (case ev of
        Tls_end_of_stream \<Rightarrow> tls_do_close s
      | Tls_failed e \<Rightarrow> tls_fail e ''read'' (s\<lparr>tls_reports := tls_reports s @ [''Read fail'']\<rparr>)
      | Tls_request req \<Rightarrow> tls_send (respond req) (s\<lparr>tls_request := Some req\<rparr>)
      | Succeeded \<Rightarrow> s)"

definition tls_on_write :: "bool \<Rightarrow> tls_error option \<Rightarrow> tls_session \<Rightarrow> tls_session" where
  "tls_on_write close ec s =
     (case ec of
        Some e \<Rightarrow> tls_fail e ''write'' s
      | None \<Rightarrow> if close then tls_do_close s else tls_do_read (s\<lparr>tls_response := None\<rparr>))"

definition on_shutdown :: "tls_error option \<Rightarrow> tls_session \<Rightarrow> tls_session" where
  "on_shutdown ec s =
     (case ec of
        None \<Rightarrow> s\<lparr>tls_reports := tls_reports s @ [''[SESSION]: successfully shut down.'']\<rparr>
      | Some e \<Rightarrow> tls_fail e ''shutdown'' s)"

text \<open>The handler of an operation for what it ends with; a read cannot just succeed.\<close>

fun tls_complete :: "(request \<Rightarrow> response) \<Rightarrow> tls_op \<Rightarrow> tls_event \<Rightarrow> tls_session \<Rightarrow> tls_session option" where
  "tls_complete respond Dispatched Succeeded s = Some (on_run s)"
| "tls_complete respond Handshaking Succeeded s = Some (on_handshake None s)"
| "tls_complete respond Handshaking (Tls_failed e) s = Some (on_handshake (Some e) s)"
| "tls_complete respond Tls_reading Succeeded s = None"
| "tls_complete respond Tls_reading (Tls_request req) s =
     Some (tls_on_read respond (Tls_request req) (s\<lparr>tls_requests := tls_requests s @ [req]\<rparr>))"
| "tls_complete respond Tls_reading Tls_end_of_stream s = Some (tls_on_read respond Tls_end_of_stream s)"
| "tls_complete respond Tls_reading (Tls_failed e) s = Some (tls_on_read respond (Tls_failed e) s)"
| "tls_complete respond (Tls_writing res close) Succeeded s =
     Some (tls_on_write close None (s\<lparr>tls_responses := tls_responses s @ [res]\<rparr>))"
| "tls_complete respond (Tls_writing res close) (Tls_failed e) s = Some (tls_on_write close (Some e) s)"
| "tls_complete respond Shutting_down Succeeded s = Some (on_shutdown None s)"
| "tls_complete respond Shutting_down (Tls_failed e) s = Some (on_shutdown (Some e) s)"
| "tls_complete respond _ _ s = None"

inductive tls_step :: "(request \<Rightarrow> response) \<Rightarrow> tls_session \<Rightarrow> tls_session \<Rightarrow> bool"
  for respond :: "request \<Rightarrow> response" where
  "tls_pending s = xs @ op # ys \<Longrightarrow>
     tls_complete respond op ev (s\<lparr>tls_pending := xs @ ys\<rparr>) = Some s' \<Longrightarrow> tls_step respond s s'"

inductive tls_reach :: "(request \<Rightarrow> response) \<Rightarrow> tls_session \<Rightarrow> bool"
  for respond :: "request \<Rightarrow> response" where
  init: "tls_reach respond tls_run"
| step: "tls_reach respond s \<Longrightarrow> tls_step respond s s' \<Longrightarrow> tls_reach respond s'"

section \<open>The server\<close>

text \<open>
  The constructor of \<open>Listener\<close>: its four calls, each with the error it ends in, if any; the
  lines printed, and whether the acceptor listens.
\<close>

definition fail_line :: "tls_error \<Rightarrow> string \<Rightarrow> string list" where
  "fail_line ec what = (case ec of Stream_truncated \<Rightarrow> [] | Other_error message \<Rightarrow> [what @ '': '' @ message])"

fun tls_listener_setup :: "(string \<times> tls_error option) list \<Rightarrow> string list \<times> bool" where
  "tls_listener_setup [] = ([''[SERVER]: Listener instance initialized.''], True)"
| "tls_listener_setup ((what, ec) # calls) =
     (case ec of Some e \<Rightarrow> (fail_line e what, False) | None \<Rightarrow> tls_listener_setup calls)"

definition tls_listener_constructor ::
  "tls_error option \<Rightarrow> tls_error option \<Rightarrow> tls_error option \<Rightarrow> tls_error option \<Rightarrow> string list \<times> bool" where
  "tls_listener_constructor open_ec option_ec bind_ec listen_ec =
     tls_listener_setup [(''open'', open_ec), (''set_option'', option_ec), (''bind'', bind_ec), (''listen'', listen_ec)]"

record tls_listener =
  tls_accepting :: nat
  tls_sessions :: "tls_session list"
  tls_log :: "string list"

definition tls_do_accept :: "tls_listener \<Rightarrow> tls_listener" where
  "tls_do_accept l = l\<lparr>tls_accepting := Suc (tls_accepting l)\<rparr>"

definition tls_run_listener :: tls_listener where
  "tls_run_listener = tls_do_accept \<lparr>tls_accepting = 0, tls_sessions = [], tls_log = []\<rparr>"

definition tls_on_accept :: "tls_error option \<Rightarrow> tls_listener \<Rightarrow> tls_listener" where
  "tls_on_accept ec l =
     tls_do_accept
       (case ec of
          None \<Rightarrow> l\<lparr>tls_sessions := tls_sessions l @ [tls_run]\<rparr>
        | Some e \<Rightarrow> l\<lparr>tls_log := tls_log l @ fail_line e ''accept''\<rparr>)"

text \<open>An accept that is pending completes.\<close>

definition tls_accept_event :: "tls_error option \<Rightarrow> tls_listener \<Rightarrow> tls_listener option" where
  "tls_accept_event ec l =
     (case tls_accepting l of 0 \<Rightarrow> None | Suc n \<Rightarrow> Some (tls_on_accept ec (l\<lparr>tls_accepting := n\<rparr>)))"

primrec tls_accept_events :: "tls_error option list \<Rightarrow> tls_listener \<Rightarrow> tls_listener option" where
  "tls_accept_events [] l = Some l"
| "tls_accept_events (ec # ecs) l = Option.bind (tls_accept_event ec l) (tls_accept_events ecs)"

text \<open>The threads that run the I/O service: those of the loop, and the main thread.\<close>

definition tls_threads :: "int \<Rightarrow> nat" where
  "tls_threads demanded = (let threads = max 1 demanded in length (rev [1..threads - 1]) + 1)"

lemma tls_threads_eq: "tls_threads demanded = nat (max 1 demanded)"
  by (simp add: tls_threads_def Let_def)

section \<open>The cycle of a session\<close>

text \<open>What holds while an operation is pending.\<close>

fun tls_phase :: "(request \<Rightarrow> response) \<Rightarrow> tls_op \<Rightarrow> tls_session \<Rightarrow> bool" where
  "tls_phase respond Dispatched s \<longleftrightarrow> tls_requests s = [] \<and> tls_responses s = [] \<and> closes s = 0"
| "tls_phase respond Handshaking s \<longleftrightarrow> tls_requests s = [] \<and> tls_responses s = [] \<and> closes s = 0 \<and> expires s = Some 1"
| "tls_phase respond Tls_reading s \<longleftrightarrow>
     handshake_done s \<and> closes s = 0 \<and> expires s = Some 1 \<and> tls_responses s = map respond (tls_requests s) \<and>
     (\<forall>req \<in> set (tls_requests s). res_keep_alive (respond req))"
| "tls_phase respond (Tls_writing res close) s \<longleftrightarrow>
     handshake_done s \<and> closes s = 0 \<and> expires s = Some 2 \<and> tls_requests s \<noteq> [] \<and> res = respond (last (tls_requests s)) \<and>
     close = (\<not> res_keep_alive res) \<and> tls_responses s = map respond (butlast (tls_requests s)) \<and> tls_response s = Some res"
| "tls_phase respond Shutting_down s \<longleftrightarrow> closes s = 1 \<and> expires s = Some 1 \<and> tls_responses s = map respond (tls_requests s)"

definition tls_ok :: "(request \<Rightarrow> response) \<Rightarrow> tls_session \<Rightarrow> bool" where
  "tls_ok respond s \<longleftrightarrow>
     (\<forall>req \<in> set (butlast (tls_requests s)). res_keep_alive (respond req)) \<and>
     tls_responses s \<in> {map respond (tls_requests s), map respond (butlast (tls_requests s))} \<and>
     (tls_requests s = [] \<or> handshake_done s) \<and> closes s \<le> 1 \<and>
     (tls_pending s = [] \<or> (\<exists>op. tls_pending s = [op] \<and> tls_phase respond op s))"

lemmas tls_defs = start_op_def on_run_def on_handshake_def tls_do_read_def tls_do_close_def tls_send_def
  tls_on_read_def tls_on_write_def on_shutdown_def tls_fail_def need_eof_def Let_def

lemma tls_ok_init: "tls_ok respond tls_run"
  by (simp add: tls_ok_def tls_run_def start_op_def)

lemma tls_ok_single: "tls_ok respond s \<Longrightarrow> tls_pending s = xs @ op # ys \<Longrightarrow> xs = [] \<and> ys = []"
  by (auto simp: tls_ok_def append_eq_Cons_conv)

lemma tls_ok_complete:
  assumes ok: "tls_ok respond s" and p: "tls_pending s = [op]"
    and step: "tls_complete respond op ev (s\<lparr>tls_pending := []\<rparr>) = Some s'"
  shows "tls_ok respond s'"
proof (cases op)
  case Dispatched
  with assms show ?thesis by (cases ev) (auto simp: tls_ok_def tls_defs)
next
  case Handshaking
  with assms show ?thesis by (cases ev) (auto simp: tls_ok_def tls_defs split: tls_error.splits)
next
  case Tls_reading
  with assms show ?thesis by (cases ev) (auto simp: tls_ok_def tls_defs split: tls_error.splits)
next
  case (Tls_writing res close)
  with assms show ?thesis
    by (cases ev; cases close)
      (auto simp: tls_ok_def tls_defs map_snoc_butlast split: tls_error.splits
        intro: alive_all [of "tls_requests s" "\<lambda>req. res_keep_alive (respond req)"])
next
  case Shutting_down
  with assms show ?thesis by (cases ev) (auto simp: tls_ok_def tls_defs split: tls_error.splits)
qed

lemma tls_ok_reach: "tls_reach respond s \<Longrightarrow> tls_ok respond s"
proof (induction rule: tls_reach.induct)
  case (step s s')
  from step(2) obtain xs op ys ev where "tls_pending s = xs @ op # ys"
    "tls_complete respond op ev (s\<lparr>tls_pending := xs @ ys\<rparr>) = Some s'" by cases
  with tls_ok_single [OF step(3)] tls_ok_complete [OF step(3)] show ?case by fastforce
qed (rule tls_ok_init)

section \<open>Properties\<close>

text \<open>
  C30: a session over TLS. At most one operation is pending, and no request is read before the
  handshake has succeeded. What the completed writes have sent is, request by request, the response of the
  handler, with one request at most still to be answered; a write that is pending has the response to that one; another request is
  read only after all have been answered, and only if they all keep the connection alive. The TLS shutdown is
  started once at most, after all answers, and then nothing is read or written any more. The
  handshake, each read and the shutdown have a deadline of their own, and a write runs under the one of the read before it.
\<close>
theorem tls_session_cycle:
  assumes "tls_reach (tls_handle_request beast missing closed_size open_file doc_root) s"
  shows "length (tls_pending s) \<le> 1 \<and>
    (tls_requests s \<noteq> [] \<or> Tls_reading \<in> set (tls_pending s) \<longrightarrow> handshake_done s) \<and>
    tls_responses s =
      map (tls_handle_request beast missing closed_size open_file doc_root) (take (length (tls_responses s)) (tls_requests s)) \<and>
    length (tls_requests s) \<le> Suc (length (tls_responses s)) \<and>
    (\<forall>res close. Tls_writing res close \<in> set (tls_pending s) \<longrightarrow>
       length (tls_requests s) = Suc (length (tls_responses s)) \<and>
       res = tls_handle_request beast missing closed_size open_file doc_root (last (tls_requests s)) \<and>
       close = (\<not> keep_alive (last (tls_requests s))) \<and> expires s = Some 2) \<and>
    (Tls_reading \<in> set (tls_pending s) \<longrightarrow>
       length (tls_requests s) = length (tls_responses s) \<and> (\<forall>req \<in> set (tls_requests s). keep_alive req) \<and> expires s = Some 1) \<and>
    (\<forall>req \<in> set (butlast (tls_requests s)). keep_alive req) \<and>
    (Handshaking \<in> set (tls_pending s) \<longrightarrow> expires s = Some 1) \<and>
    (Shutting_down \<in> set (tls_pending s) \<longrightarrow>
       closes s = 1 \<and> length (tls_requests s) = length (tls_responses s) \<and> expires s = Some 1) \<and>
    closes s \<le> 1 \<and> (closes s = 1 \<longrightarrow> set (tls_pending s) \<subseteq> {Shutting_down})"
proof -
  let ?h = "tls_handle_request beast missing closed_size open_file doc_root"
  have ok: "tls_ok ?h s" using assms by (rule tls_ok_reach)
  then have "tls_responses s = map ?h (tls_requests s) \<or> tls_responses s = map ?h (butlast (tls_requests s))"
    by (simp add: tls_ok_def)
  then have counts: "tls_responses s = map ?h (take (length (tls_responses s)) (tls_requests s)) \<and>
      length (tls_requests s) \<le> Suc (length (tls_responses s))"
    by (auto simp: butlast_conv_take)
  show ?thesis
  proof (cases "tls_pending s")
    case Nil
    with ok counts show ?thesis by (auto simp: tls_ok_def tls_http.keeps_alive)
  next
    case (Cons op ops)
    with tls_ok_single [OF ok, of "[]" op ops] have "tls_pending s = [op]" by simp
    with ok counts show ?thesis by (cases op) (auto simp: tls_ok_def tls_http.keeps_alive)
  qed
qed

text \<open>
  C33: what the TLS server answers, next to the plain one. For a method other than GET and HEAD it
  is the same with another text; for a file that does not exist, where the plain one says so, it is a server
  error; for a file that exists and cannot be opened, where the plain one reports a server error, it is a success
  with a body that has no file. In every other case the two responses are equal.
\<close>
theorem tls_status:
  "tls_handle_request beast missing closed_size open_file doc_root req =
     (if verb_of req \<notin> {Get, Head} then bad_request beast req ''Unsupported HTTP-method''
      else case res_status (handle_request beast open_file doc_root req) of
        Not_found \<Rightarrow> server_error beast req missing
      | Internal_server_error \<Rightarrow>
          (let path = request_path doc_root (target req)
           in file_response beast req path closed_size (if verb_of req = Head then Empty_body else File_body (c_str path)))
      | _ \<Rightarrow> handle_request beast open_file doc_root req)"
proof -
  have legal: "target req = [] \<or> hd (target req) \<noteq> CHR ''/'' \<or> sublist ''..'' (target req) \<longleftrightarrow> \<not> legal_target (target req)"
    by (auto simp: legal_target_def)
  have path: "(let path = tls_path_cat doc_root (target req)
      in if last (target req) = CHR ''/'' then path @ ''index.html'' else path) = request_path doc_root (target req)"
    by (simp add: request_path_def tls_path_cat_eq)
  show ?thesis
    using path unfolding tls_handle_request_def legal
    by (auto simp: handle_request_unfold text_responses Let_def tls_mime_type_eq split: opened.splits)
qed

text \<open>
  The TLS listener goes on accepting: after any sequence of completed accepts, with
  errors or without, exactly one accept is pending, and each success has made a session.
\<close>
theorem tls_listener_accepts:
  "\<exists>l. tls_accept_events ecs tls_run_listener = Some l \<and> tls_accepting l = 1 \<and>
     tls_sessions l = replicate (length (filter (\<lambda>ec. ec = None) ecs)) tls_run"
proof -
  have "\<exists>l'. tls_accept_events ecs l = Some l' \<and> tls_accepting l' = 1 \<and>
      tls_sessions l' = tls_sessions l @ replicate (length (filter (\<lambda>ec. ec = None) ecs)) tls_run"
    if "tls_accepting l = 1" for l
    using that
  proof (induction ecs arbitrary: l)
    case (Cons ec ecs)
    let ?l = "tls_on_accept ec (l\<lparr>tls_accepting := 0\<rparr>)"
    have l: "tls_accept_event ec l = Some ?l" using Cons.prems by (simp add: tls_accept_event_def)
    have "tls_accepting ?l = 1" by (simp add: tls_on_accept_def tls_do_accept_def split: option.splits)
    from Cons.IH [OF this] l show ?case
      by (cases ec) (simp_all add: tls_on_accept_def tls_do_accept_def)
  qed simp
  from this [of tls_run_listener] show ?thesis by (simp add: tls_run_listener_def tls_do_accept_def)
qed

theorem tls_session_cycle_witness:
  "\<exists>s. tls_reach (tls_handle_request ''Beast'' ''No such file'' 0 (\<lambda>p. No_such_file) ''www'') s \<and>
     tls_pending s = [Tls_reading] \<and> handshake_done s"
proof -
  let ?h = "tls_handle_request ''Beast'' ''No such file'' 0 (\<lambda>p. No_such_file) ''www''"
  let ?s1 = "on_run (tls_run\<lparr>tls_pending := []\<rparr>)"
  let ?s2 = "on_handshake None (?s1\<lparr>tls_pending := []\<rparr>)"
  have "tls_step ?h tls_run ?s1"
    by (rule tls_step.intros [of _ "[]" Dispatched "[]" ?h Succeeded]) (simp_all add: tls_run_def start_op_def)
  with tls_reach.init have "tls_reach ?h ?s1" by (rule tls_reach.step)
  moreover have "tls_step ?h ?s1 ?s2"
    by (rule tls_step.intros [of _ "[]" Handshaking "[]" ?h Succeeded]) (simp_all add: tls_defs)
  ultimately have r: "tls_reach ?h ?s2" by (rule tls_reach.step)
  have p: "tls_pending ?s2 = [Tls_reading]" by (simp add: tls_defs)
  from tls_session_cycle [OF r] p have "handshake_done ?s2" by simp
  with r p show ?thesis by blast
qed

end
