(* ===== verification/Outcomes.thy ===== *)
theory Outcomes
  imports Main
begin

text \<open>
  What the small programs share: calls of the library that may throw an exception, and the
  ways a program ends.
\<close>

text \<open>A call gives its value, or the text of the exception it throws.\<close>

fun attempt :: "string + 'a \<Rightarrow> ('a \<Rightarrow> string + 'b) \<Rightarrow> string + 'b" where
  "attempt (Inl e) f = Inl e"
| "attempt (Inr x) f = f x"

lemma attempt_Inl: "attempt m f = Inl e \<longleftrightarrow> m = Inl e \<or> (\<exists>x. m = Inr x \<and> f x = Inl e)"
  by (cases m) auto

lemma attempt_Inr: "attempt m f = Inr y \<longleftrightarrow> (\<exists>x. m = Inr x \<and> f x = Inr y)"
  by (cases m) auto

text \<open>
  The end of a program: the value of \<open>main\<close> with the lines printed, an exception that nobody
  catches with the lines printed before it, or undefined behaviour.
\<close>

datatype program_end = Returns int "string list" | Terminated "string list" string | Undefined_behaviour

end
