(* ===== verification/Http_Main.thy ===== *)
theory Http_Main
  imports Http_Tls Http_Sync Outcomes "HOL-Library.Word"
begin

text \<open>
  The \<open>main\<close> functions of the three HTTP servers, \<open>other_ressources/boost_beast/src/\<close>
  \<open>async_http_server.cpp\<close>, \<open>ssl_http_server.cpp\<close> and \<open>simple_http_server.cpp\<close>, and the
  servers they run as a whole: the acceptor together with the sessions.

  The conversions of the library are parameters: \<open>make_address\<close>, and \<open>lexical_cast\<close> to the
  integer types; each gives its value or the text of the exception it throws. \<open>argv\<close> has the
  name of the program in front, as in the source. That a thread cannot be started is not
  modelled.
\<close>

section \<open>What the programs come to\<close>

text \<open>
  What \<open>main\<close> comes to before the service runs: an exit code, or the settings the service
  runs with; and the lines printed.
\<close>

record 'a settings =
  serve_address :: 'a
  serve_port :: "16 word"
  serve_root :: string
  serve_threads :: int

datatype 'c launch = Leaves int "string list" | Serves 'c "string list"

section \<open>The three programs\<close>

text \<open>The port is read as an \<open>int\<close>, and becomes a 16-bit number for the endpoint.\<close>

definition async_main ::
  "(string \<Rightarrow> string + 'a) \<Rightarrow> (string \<Rightarrow> string + int) \<Rightarrow> string list \<Rightarrow> 'a settings launch" where
  "async_main make_address cast_int argv =
     (if length argv = 5 then
        (case attempt (make_address (argv ! 1)) (\<lambda>addr.
              attempt (cast_int (argv ! 2)) (\<lambda>prt.
              attempt (cast_int (argv ! 4)) (\<lambda>demanded.
              Inr \<lparr>serve_address = addr, serve_port = word_of_int prt, serve_root = argv ! 3, serve_threads = server_threads demanded\<rparr>))) of
           Inl e \<Rightarrow> Leaves 1 [''An error occured: '' @ e]
         | Inr s \<Rightarrow> Serves s [])
      else Leaves 1
        [''Usage: http-server-async <address> <port> <doc_root> <threads>'', ''Example:'',
         ''    http-server-async 0.0.0.0 8080 . 1''])"

definition tls_main ::
  "(string \<Rightarrow> string + 'a) \<Rightarrow> (string \<Rightarrow> string + 16 word) \<Rightarrow> (string \<Rightarrow> string + int) \<Rightarrow> string + unit \<Rightarrow>
     string list \<Rightarrow> 'a settings launch" where
  "tls_main make_address cast_ushort cast_int load_certificate argv =
     (let out = [''Server program started'']
      in if length argv \<noteq> 5 then Leaves 1
           (out @ [''Usage: http-server-async-ssl <address> <port> <doc_root> <threads>'', ''Example:'',
              ''    http-server-async-ssl 0.0.0.0 8080 . 1''])
         else
           case attempt (make_address (argv ! 1)) (\<lambda>addr.
              attempt (cast_ushort (argv ! 2)) (\<lambda>prt.
              attempt (cast_int (argv ! 4)) (\<lambda>demanded.
              attempt load_certificate (\<lambda>_.
              Inr \<lparr>serve_address = addr, serve_port = prt, serve_root = argv ! 3, serve_threads = max 1 demanded\<rparr>)))) of
             Inl e \<Rightarrow> Leaves 1 (out @ [''[SERVER]: An exception occured - '' @ e])
           | Inr s \<Rightarrow> Serves s out)"

text \<open>
  The synchronous server opens its acceptor and accepts in a loop. Each accept gives a
  connection or throws; a connection is what its reads and writes will give to the
  detached thread that runs \<open>do_session\<close> on it. The result: the connections handed to
  threads, and the exit with its line, or that \<open>accept\<close> is waiting.
\<close>

fun accept_loop :: "(string + 'c) list \<Rightarrow> 'c list \<times> (int \<times> string) option" where
  "accept_loop [] = ([], None)"
| "accept_loop (Inl e # rs) = ([], Some (1, ''[SERVER]: An exception occured - '' @ e))"
| "accept_loop (Inr data_socket # rs) =
     (let (threads, fin) = accept_loop rs in (data_socket # threads, fin))"

lemma accept_loop_eq:
  "accept_loop rs = (map projr (takeWhile (\<lambda>r. \<not> isl r) rs),
     if (\<forall>r \<in> set rs. \<not> isl r) then None else Some (1, ''[SERVER]: An exception occured - '' @ projl (hd (dropWhile (\<lambda>r. \<not> isl r) rs))))"
  by (induction rs rule: accept_loop.induct) auto

type_synonym sync_connection = "(read_result \<times> string option) list"

definition sync_main ::
  "(string \<Rightarrow> string + 'a) \<Rightarrow> (string \<Rightarrow> string + 16 word) \<Rightarrow> ('a \<Rightarrow> 16 word \<Rightarrow> string + unit) \<Rightarrow>
     (string + sync_connection) list \<Rightarrow> (string \<Rightarrow> request \<Rightarrow> sync_response option) \<Rightarrow> string list \<Rightarrow>
     (sync_response list \<times> session_end) list \<times> (int \<times> string list) option" where
  "sync_main make_address cast_ushort open_acceptor accepts handler argv =
     (if length argv \<noteq> 4 then
        ([], Some (1, [''Usage: http-server-sync <address> <port> <doc_root>'', ''Example:'',
           ''    http-server-sync 0.0.0.0 8080 .'']))
      else
        case attempt (make_address (argv ! 1)) (\<lambda>addr.
             attempt (cast_ushort (argv ! 2)) (\<lambda>prt. open_acceptor addr prt)) of
          Inl e \<Rightarrow> ([], Some (1, [''[SERVER]: An exception occured - '' @ e]))
        | Inr _ \<Rightarrow>
            let (conns, fin) = accept_loop accepts
            in (map (do_session (handler (argv ! 3)) False) conns, map_option (\<lambda>(code, line). (code, [line])) fin))"

section \<open>The asynchronous server as a whole\<close>

text \<open>The acceptor and the sessions take their steps in any order.\<close>

inductive async_server_step :: "(request \<Rightarrow> response) \<Rightarrow> listener \<Rightarrow> listener \<Rightarrow> bool"
  for handler :: "request \<Rightarrow> response" where
  accepted: "accept_event ec l = Some l' \<Longrightarrow> async_server_step handler l l'"
| session: "i < length (sessions l) \<Longrightarrow> http_step handler (sessions l ! i) s' \<Longrightarrow>
     async_server_step handler l (l\<lparr>sessions := (sessions l)[i := s']\<rparr>)"

inductive async_server_reach :: "(request \<Rightarrow> response) \<Rightarrow> listener \<Rightarrow> bool"
  for handler :: "request \<Rightarrow> response" where
  init: "async_server_reach handler run_listener"
| step: "async_server_reach handler l \<Longrightarrow> async_server_step handler l l' \<Longrightarrow> async_server_reach handler l'"

text \<open>\<open>run\<close> of the service returns when it has no operation left, and \<open>main\<close> then returns 0.\<close>

definition outstanding :: "listener \<Rightarrow> nat" where
  "outstanding l = accepts_pending l + sum_list (map (length \<circ> pending_ops) (sessions l))"

definition one_client :: "(request \<Rightarrow> response) \<Rightarrow> listener \<Rightarrow> bool" where
  "one_client handler l \<longleftrightarrow>
     (accepts_pending l = 1 \<and> sessions l = []) \<or>
     (accepts_pending l = 0 \<and> (sessions l = [] \<or> (\<exists>s. sessions l = [s] \<and> http_reach handler s)))"

lemma one_client_reach: "async_server_reach handler l \<Longrightarrow> one_client handler l"
proof (induction rule: async_server_reach.induct)
  case init
  show ?case by (simp add: one_client_def run_listener_def do_accept_def)
next
  case (step l l')
  from step(2) show ?case
  proof cases
    case (accepted ec)
    with step(3) show ?thesis
      by (cases ec) (auto simp: one_client_def accept_event_def http_on_accept_def http_reach.init split: nat.splits)
  next
    case (session i s')
    with step(3) show ?thesis by (auto simp: one_client_def intro: http_reach.step)
  qed
qed

text \<open>Every operation can end: a read with the end of the stream, a write with an error.\<close>

lemma http_op_ends:
  assumes "session_ok handler s" "pending_ops s \<noteq> []"
  obtains s' where "http_step handler s s'" "pending_ops s' = []"
proof -
  from assms obtain op where op: "pending_ops s = [op]" by (auto simp: session_ok_def)
  show ?thesis
  proof (cases op)
    case Reading
    with op have "pending_ops s = [Reading]" by simp
    then have "http_step handler s (do_close (s\<lparr>pending_ops := []\<rparr>))"
      by (intro http_step.intros [of s "[]" Reading "[]" _ Read_end_of_stream]) simp_all
    then show ?thesis by (rule that) (simp add: do_close_def)
  next
    case (Writing res c)
    with op have "pending_ops s = [Writing res c]" by simp
    then have "http_step handler s (report_fail '''' ''write'' (s\<lparr>pending_ops := []\<rparr>))"
      by (intro http_step.intros [of s "[]" "Writing res c" "[]" _ "Write_error ''''"]) simp_all
    then show ?thesis by (rule that) (simp add: report_fail_def)
  qed
qed

section \<open>The TLS server as a whole\<close>

inductive tls_server_step :: "(request \<Rightarrow> response) \<Rightarrow> tls_listener \<Rightarrow> tls_listener \<Rightarrow> bool"
  for handler :: "request \<Rightarrow> response" where
  accepted: "tls_accept_event ec l = Some l' \<Longrightarrow> tls_server_step handler l l'"
| session: "i < length (tls_sessions l) \<Longrightarrow> tls_step handler (tls_sessions l ! i) s' \<Longrightarrow>
     tls_server_step handler l (l\<lparr>tls_sessions := (tls_sessions l)[i := s']\<rparr>)"

inductive tls_server_reach :: "(request \<Rightarrow> response) \<Rightarrow> tls_listener \<Rightarrow> bool"
  for handler :: "request \<Rightarrow> response" where
  init: "tls_server_reach handler tls_run_listener"
| step: "tls_server_reach handler l \<Longrightarrow> tls_server_step handler l l' \<Longrightarrow> tls_server_reach handler l'"

definition tls_server_ok :: "(request \<Rightarrow> response) \<Rightarrow> tls_listener \<Rightarrow> bool" where
  "tls_server_ok handler l \<longleftrightarrow> tls_accepting l = 1 \<and> (\<forall>s \<in> set (tls_sessions l). tls_reach handler s)"

lemma tls_server_ok_reach: "tls_server_reach handler l \<Longrightarrow> tls_server_ok handler l"
proof (induction rule: tls_server_reach.induct)
  case init
  show ?case by (simp add: tls_server_ok_def tls_run_listener_def tls_do_accept_def)
next
  case (step l l')
  from step(2) show ?case
  proof cases
    case (accepted ec)
    with step(3) show ?thesis
      by (auto simp: tls_server_ok_def tls_accept_event_def tls_on_accept_def tls_do_accept_def tls_reach.init
          split: nat.splits option.splits)
  next
    case (session i s')
    with step(3) have "tls_reach handler s'" by (auto simp: tls_server_ok_def intro: tls_reach.step)
    with session step(3) show ?thesis
      by (auto simp: tls_server_ok_def dest!: set_update_subset_insert [THEN subsetD])
  qed
qed

section \<open>Properties\<close>

text \<open>
  C28: the asynchronous HTTP server serves one client and is over. In every run of the acceptor
  and the sessions there is at most one session and at most one operation; once a client
  has connected nobody else can; and from everywhere the server can come to the point where no
  operation is left, \<open>run\<close> of the service returns and nothing happens any more.
\<close>

theorem async_server_serves_one:
  assumes "async_server_reach (handle_request beast open_file doc_root) l"
  shows "length (sessions l) \<le> 1 \<and> outstanding l \<le> 1 \<and>
    (sessions l \<noteq> [] \<longrightarrow> (\<forall>ec. accept_event ec l = None)) \<and>
    (outstanding l = 0 \<longleftrightarrow> \<not> (\<exists>l'. async_server_step (handle_request beast open_file doc_root) l l')) \<and>
    (\<exists>l'. (async_server_step (handle_request beast open_file doc_root))\<^sup>*\<^sup>* l l' \<and> outstanding l' = 0)"
proof -
  let ?h = "handle_request beast open_file doc_root"
  from one_client_reach [OF assms] consider (accepting) "accepts_pending l = 1" "sessions l = []"
    | (none) "accepts_pending l = 0" "sessions l = []"
    | (one) s where "accepts_pending l = 0" "sessions l = [s]" "session_ok ?h s"
    by (auto simp: one_client_def dest: session_ok_reach)
  then show ?thesis
  proof cases
    case accepting
    then have s: "async_server_step ?h l (http_on_accept True (l\<lparr>accepts_pending := 0\<rparr>))"
      by (intro async_server_step.accepted [of True]) (simp add: accept_event_def)
    with accepting have "outstanding (http_on_accept True (l\<lparr>accepts_pending := 0\<rparr>)) = 0"
      by (simp add: outstanding_def http_on_accept_def)
    with s accepting show ?thesis by (auto simp: outstanding_def)
  next
    case none
    then have "\<not> async_server_step ?h l l'" for l'
      by (auto simp: async_server_step.simps accept_event_def)
    with none show ?thesis by (auto simp: outstanding_def accept_event_def)
  next
    case one
    then have at_most: "length (pending_ops s) \<le> 1" by (auto simp: session_ok_def)
    show ?thesis
    proof (cases "pending_ops s = []")
      case True
      with one have "\<not> async_server_step ?h l l'" for l'
        by (auto simp: async_server_step.simps accept_event_def http_step.simps)
      with one True show ?thesis by (auto simp: outstanding_def accept_event_def)
    next
      case False
      with one obtain s' where s': "http_step ?h s s'" "pending_ops s' = []" by (metis http_op_ends)
      with one have "async_server_step ?h l (l\<lparr>sessions := (sessions l)[0 := s']\<rparr>)"
        by (intro async_server_step.session) simp_all
      moreover have "outstanding (l\<lparr>sessions := (sessions l)[0 := s']\<rparr>) = 0" using one s' by (simp add: outstanding_def)
      ultimately show ?thesis using one False at_most by (auto simp: outstanding_def accept_event_def)
    qed
  qed
qed

theorem async_server_serves_one_witness:
  "\<exists>l. async_server_reach (handle_request ''Beast'' (\<lambda>p. No_such_file) ''www'') l \<and> sessions l = [run_session] \<and>
     accept_event False l = None"
proof -
  let ?h = "handle_request ''Beast'' (\<lambda>p. No_such_file) ''www''"
  let ?l = "http_on_accept False (run_listener\<lparr>accepts_pending := 0\<rparr>)"
  have "accept_event False run_listener = Some ?l" by (simp add: accept_event_def run_listener_def do_accept_def)
  then have r: "async_server_reach ?h ?l"
    by (rule async_server_reach.step [OF async_server_reach.init async_server_step.accepted])
  have s: "sessions ?l = [run_session]" by (simp add: http_on_accept_def run_listener_def do_accept_def)
  from async_server_serves_one [OF r] s have "accept_event False ?l = None" by simp
  with r s show ?thesis by blast
qed

text \<open>
  C31: the TLS server never stops serving. However the acceptor and the sessions take their steps,
  exactly one accept is pending, so that a client can connect and the service goes on running;
  and in each session at most one operation is pending, and a request is read only after
  the handshake of that session.
\<close>

theorem tls_server_goes_on:
  assumes "tls_server_reach (tls_handle_request beast missing closed_size open_file doc_root) l"
  shows "tls_accepting l = 1 \<and>
    (\<exists>l'. tls_accept_event None l = Some l' \<and> tls_sessions l' = tls_sessions l @ [tls_run]) \<and>
    (\<forall>s \<in> set (tls_sessions l). length (tls_pending s) \<le> 1 \<and> (tls_requests s \<noteq> [] \<longrightarrow> handshake_done s))"
proof -
  have ok: "tls_server_ok (tls_handle_request beast missing closed_size open_file doc_root) l"
    using assms by (rule tls_server_ok_reach)
  then have "\<forall>s \<in> set (tls_sessions l). length (tls_pending s) \<le> 1 \<and> (tls_requests s \<noteq> [] \<longrightarrow> handshake_done s)"
    by (fastforce simp: tls_server_ok_def tls_ok_def dest!: tls_ok_reach)
  with ok show ?thesis by (simp add: tls_server_ok_def tls_accept_event_def tls_on_accept_def tls_do_accept_def)
qed

theorem tls_server_goes_on_witness:
  "\<exists>l. tls_server_reach (tls_handle_request ''Beast'' ''No such file'' 0 (\<lambda>p. No_such_file) ''www'') l \<and>
     length (tls_sessions l) = 2 \<and> tls_accepting l = 1"
proof -
  let ?h = "tls_handle_request ''Beast'' ''No such file'' 0 (\<lambda>p. No_such_file) ''www''"
  obtain l where l: "tls_accept_event None tls_run_listener = Some l" "tls_sessions l = [tls_run]" "tls_accepting l = 1"
    by (simp add: tls_accept_event_def tls_run_listener_def tls_on_accept_def tls_do_accept_def)
  then have r: "tls_server_reach ?h l"
    by (intro tls_server_reach.step [OF tls_server_reach.init tls_server_step.accepted])
  from tls_server_goes_on [OF this] obtain l' where l': "tls_accept_event None l = Some l'" "tls_sessions l' = [tls_run, tls_run]"
    using l by auto
  then have "tls_server_reach ?h l'"
    by (intro tls_server_reach.step [OF r tls_server_step.accepted])
  with l' tls_server_goes_on [OF this] show ?thesis by auto
qed

text \<open>
  How the programs start. Each exits with 1 for a wrong number of arguments or an argument
  that is refused, and otherwise serves the document root as it was given with at least one
  thread; but the asynchronous one takes any number for a port, and listens on it modulo
  \<open>2 ^ 16\<close>.
\<close>

theorem async_main_settings:
  "(\<exists>lines. async_main make_address cast_int argv = Leaves 1 lines) \<or>
   (\<exists>name addr_arg port_arg root threads_arg addr p n.
      argv = [name, addr_arg, port_arg, root, threads_arg] \<and> make_address addr_arg = Inr addr \<and>
      cast_int port_arg = Inr p \<and> cast_int threads_arg = Inr n \<and>
      (\<exists>s. async_main make_address cast_int argv = Serves s [] \<and> serve_address s = addr \<and> serve_root s = root \<and>
         uint (serve_port s) = p mod 65536 \<and> serve_threads s = max 1 n))"
proof (cases "async_main make_address cast_int argv")
  case (Serves s lines)
  then have "length argv = 5" by (auto simp: async_main_def split: if_splits)
  then obtain a b c d e where argv: "argv = [a, b, c, d, e]"
    by (auto simp: length_Suc_conv eval_nat_numeral)
  with Serves show ?thesis
    by (auto simp: async_main_def attempt_Inr server_threads_def uint_word_of_int split: sum.splits)
qed (auto simp: async_main_def split: if_splits sum.splits)

text \<open>
  The synchronous server. Each connection that is accepted before the first failed accept
  gets a session of its own, whose outcome does not depend on the others; and the program
  ends only with exit code 1.
\<close>

theorem sync_main_sessions:
  "case sync_main make_address cast_ushort open_acceptor accepts handler argv of (outcomes, fin) \<Rightarrow>
     (\<forall>code lines. fin = Some (code, lines) \<longrightarrow> code = 1) \<and>
     (outcomes \<noteq> [] \<or> fin = None \<longrightarrow>
        outcomes = map (do_session (handler (argv ! 3)) False) (map projr (takeWhile (\<lambda>r. \<not> isl r) accepts)) \<and>
        (fin = None \<longleftrightarrow> (\<forall>r \<in> set accepts. \<not> isl r)))"
  by (auto simp: sync_main_def accept_loop_eq split: sum.splits if_splits)

end
