(* ===== verification/Http_Example.thy ===== *)
theory Http_Example
  imports Http_Main Http_Windows Net_Message
begin

text \<open>
  \<open>other_ressources/boost_beast/src/test.cpp\<close>: the library's own server over TLS, from which the
  plain and the TLS server of the repository were made. It is translated on its own and compared
  with the two: its request handler is the one of the plain server, and the rest of it runs as
  the TLS server does, apart from what is printed. So it marks where the two left their model:
  the plain one in accepting, the TLS one in answering for files it cannot open.
\<close>

section \<open>Handling a request\<close>

definition ex_mime_types :: "(string \<times> string) list" where
  "ex_mime_types =
     [(''.htm'', ''text/html''), (''.html'', ''text/html''), (''.php'', ''text/html''), (''.css'', ''text/css''),
      (''.txt'', ''text/plain''), (''.js'', ''application/javascript''), (''.json'', ''application/json''),
      (''.xml'', ''application/xml''), (''.swf'', ''application/x-shockwave-flash''), (''.flv'', ''video/x-flv''),
      (''.png'', ''image/png''), (''.jpe'', ''image/jpeg''), (''.jpeg'', ''image/jpeg''), (''.jpg'', ''image/jpeg''),
      (''.gif'', ''image/gif''), (''.bmp'', ''image/bmp''), (''.ico'', ''image/vnd.microsoft.icon''),
      (''.tiff'', ''image/tiff''), (''.tif'', ''image/tiff''), (''.svg'', ''image/svg+xml''), (''.svgz'', ''image/svg+xml'')]"

definition ex_mime_type :: "string \<Rightarrow> string" where
  "ex_mime_type path =
     (let ext = file_ext path
      in case filter (\<lambda>(e, t). iequals ext e) ex_mime_types of (e, t) # _ \<Rightarrow> t | [] \<Rightarrow> ''application/text'')"

definition ex_path_cat :: "string \<Rightarrow> string \<Rightarrow> string" where
  "ex_path_cat base path =
     (if base = [] then path
      else let result = base;
               result = (if last result = CHR ''/'' then butlast result else result)
           in result @ path)"

definition ex_path_cat_windows :: "string \<Rightarrow> string \<Rightarrow> string" where
  "ex_path_cat_windows base path =
     (if base = [] then path
      else let result = base;
               result = (if last result = CHR 0x5C then butlast result else result);
               result = result @ path
           in map (\<lambda>c. if c = CHR ''/'' then CHR 0x5C else c) result)"

definition ex_bad_request :: "string \<Rightarrow> request \<Rightarrow> string \<Rightarrow> response" where
  "ex_bad_request beast req why =
     \<lparr>res_status = Bad_request, res_version = version req, server_field = beast, content_type = ''text/html'',
      content_length = length why, res_keep_alive = keep_alive req, body = String_body why\<rparr>"

definition ex_not_found :: "string \<Rightarrow> request \<Rightarrow> string \<Rightarrow> response" where
  "ex_not_found beast req tgt =
     (let txt = ''The resource '' @ [CHR 0x27] @ tgt @ [CHR 0x27] @ '' was not found.''
      in \<lparr>res_status = Not_found, res_version = version req, server_field = beast, content_type = ''text/html'',
          content_length = length txt, res_keep_alive = keep_alive req, body = String_body txt\<rparr>)"

definition ex_server_error :: "string \<Rightarrow> request \<Rightarrow> string \<Rightarrow> response" where
  "ex_server_error beast req what =
     (let txt = ''An error occurred: '' @ [CHR 0x27] @ what @ [CHR 0x27]
      in \<lparr>res_status = Internal_server_error, res_version = version req, server_field = beast,
          content_type = ''text/html'', content_length = length txt, res_keep_alive = keep_alive req,
          body = String_body txt\<rparr>)"

text \<open>\<open>cat\<close> is the branch of \<open>path_cat\<close> for the host.\<close>

definition ex_handle_request ::
  "(string \<Rightarrow> string \<Rightarrow> string) \<Rightarrow> string \<Rightarrow> (string \<Rightarrow> opened) \<Rightarrow> string \<Rightarrow> request \<Rightarrow> response" where
  "ex_handle_request cat beast open_file doc_root req =
     (if verb_of req \<noteq> Get \<and> verb_of req \<noteq> Head then ex_bad_request beast req ''Unknown HTTP-method''
      else if target req = [] \<or> target req ! 0 \<noteq> CHR ''/'' \<or> sublist ''..'' (target req)
      then ex_bad_request beast req ''Illegal request-target''
      else
        let path = cat doc_root (target req);
            path = (if last (target req) = CHR ''/'' then path @ ''index.html'' else path)
        in case open_file (c_str path) of
             No_such_file \<Rightarrow> ex_not_found beast req (target req)
           | Open_error message \<Rightarrow> ex_server_error beast req message
           | Opened n \<Rightarrow>
               \<lparr>res_status = Status_ok, res_version = version req, server_field = beast,
                content_type = ex_mime_type path, content_length = n, res_keep_alive = keep_alive req,
                body = (if verb_of req = Head then Empty_body else File_body (c_str path))\<rparr>)"

section \<open>The session\<close>

record ex_session =
  ex_pending :: "tls_op list"
  ex_expires :: "nat option"
  ex_req :: "request option"
  ex_res :: "response option"
  ex_shaken :: bool
  ex_log :: "string list"
  ex_requests :: "request list"
  ex_responses :: "response list"
  ex_closes :: nat

definition ex_fail :: "tls_error \<Rightarrow> string \<Rightarrow> ex_session \<Rightarrow> ex_session" where
  "ex_fail ec what s =
     (if ec = Stream_truncated then s
      else case ec of Other_error message \<Rightarrow> s\<lparr>ex_log := ex_log s @ [what @ '': '' @ message]\<rparr>)"

definition ex_async :: "tls_op \<Rightarrow> ex_session \<Rightarrow> ex_session" where
  "ex_async op s = s\<lparr>ex_pending := ex_pending s @ [op], ex_expires := map_option Suc (ex_expires s)\<rparr>"

definition ex_run :: ex_session where
  "ex_run = ex_async Dispatched
     \<lparr>ex_pending = [], ex_expires = None, ex_req = None, ex_res = None, ex_shaken = False, ex_log = [],
      ex_requests = [], ex_responses = [], ex_closes = 0\<rparr>"

definition ex_on_run :: "ex_session \<Rightarrow> ex_session" where
  "ex_on_run s = ex_async Handshaking (s\<lparr>ex_expires := Some 0\<rparr>)"

definition ex_do_read :: "ex_session \<Rightarrow> ex_session" where
  "ex_do_read s = ex_async Tls_reading (s\<lparr>ex_req := None, ex_expires := Some 0\<rparr>)"

definition ex_on_handshake :: "tls_error option \<Rightarrow> ex_session \<Rightarrow> ex_session" where
  "ex_on_handshake ec s =
     (case ec of Some e \<Rightarrow> ex_fail e ''handshake'' s | None \<Rightarrow> ex_do_read (s\<lparr>ex_shaken := True\<rparr>))"

definition ex_do_close :: "ex_session \<Rightarrow> ex_session" where
  "ex_do_close s = ex_async Shutting_down (s\<lparr>ex_expires := Some 0, ex_closes := Suc (ex_closes s)\<rparr>)"

definition ex_send_lambda :: "response \<Rightarrow> ex_session \<Rightarrow> ex_session" where
  "ex_send_lambda res s = ex_async (Tls_writing res (need_eof res)) (s\<lparr>ex_res := Some res\<rparr>)"

definition ex_on_read :: "(request \<Rightarrow> response) \<Rightarrow> tls_event \<Rightarrow> ex_session \<Rightarrow> ex_session" where
  "ex_on_read handler ev s =
     (case ev of
        Tls_end_of_stream \<Rightarrow> ex_do_close s
      | Tls_failed ec \<Rightarrow> ex_fail ec ''read'' s
      | Tls_request req \<Rightarrow> ex_send_lambda (handler req) (s\<lparr>ex_req := Some req\<rparr>)
      | Succeeded \<Rightarrow> s)"

definition ex_on_write :: "bool \<Rightarrow> tls_error option \<Rightarrow> ex_session \<Rightarrow> ex_session" where
  "ex_on_write close ec s =
     (case ec of
        Some e \<Rightarrow> ex_fail e ''write'' s
      | None \<Rightarrow> if close then ex_do_close s else ex_do_read (s\<lparr>ex_res := None\<rparr>))"

definition ex_on_shutdown :: "tls_error option \<Rightarrow> ex_session \<Rightarrow> ex_session" where
  "ex_on_shutdown ec s = (case ec of Some e \<Rightarrow> ex_fail e ''shutdown'' s | None \<Rightarrow> s)"

fun ex_complete :: "(request \<Rightarrow> response) \<Rightarrow> tls_op \<Rightarrow> tls_event \<Rightarrow> ex_session \<Rightarrow> ex_session option" where
  "ex_complete handler Dispatched Succeeded s = Some (ex_on_run s)"
| "ex_complete handler Handshaking Succeeded s = Some (ex_on_handshake None s)"
| "ex_complete handler Handshaking (Tls_failed e) s = Some (ex_on_handshake (Some e) s)"
| "ex_complete handler Tls_reading (Tls_request req) s =
     Some (ex_on_read handler (Tls_request req) (s\<lparr>ex_requests := ex_requests s @ [req]\<rparr>))"
| "ex_complete handler Tls_reading Tls_end_of_stream s = Some (ex_on_read handler Tls_end_of_stream s)"
| "ex_complete handler Tls_reading (Tls_failed e) s = Some (ex_on_read handler (Tls_failed e) s)"
| "ex_complete handler (Tls_writing res close) Succeeded s =
     Some (ex_on_write close None (s\<lparr>ex_responses := ex_responses s @ [res]\<rparr>))"
| "ex_complete handler (Tls_writing res close) (Tls_failed e) s = Some (ex_on_write close (Some e) s)"
| "ex_complete handler Shutting_down Succeeded s = Some (ex_on_shutdown None s)"
| "ex_complete handler Shutting_down (Tls_failed e) s = Some (ex_on_shutdown (Some e) s)"
| "ex_complete handler _ _ s = None"

inductive ex_step :: "(request \<Rightarrow> response) \<Rightarrow> ex_session \<Rightarrow> ex_session \<Rightarrow> bool"
  for handler :: "request \<Rightarrow> response" where
  "ex_pending s = xs @ op # ys \<Longrightarrow>
     ex_complete handler op ev (s\<lparr>ex_pending := xs @ ys\<rparr>) = Some s' \<Longrightarrow> ex_step handler s s'"

section \<open>The listener\<close>

text \<open>The lines that the constructor prints, for what its four calls end in, and whether the acceptor listens.\<close>

definition ex_listener_constructor ::
  "tls_error option \<Rightarrow> tls_error option \<Rightarrow> tls_error option \<Rightarrow> tls_error option \<Rightarrow> string list \<times> bool" where
  "ex_listener_constructor open_ec option_ec bind_ec listen_ec =
     (case open_ec of Some ec \<Rightarrow> (fail_line ec ''open'', False) | None \<Rightarrow>
      case option_ec of Some ec \<Rightarrow> (fail_line ec ''set_option'', False) | None \<Rightarrow>
      case bind_ec of Some ec \<Rightarrow> (fail_line ec ''bind'', False) | None \<Rightarrow>
      case listen_ec of Some ec \<Rightarrow> (fail_line ec ''listen'', False) | None \<Rightarrow> ([], True))"

record ex_listener =
  ex_accepting :: nat
  ex_sessions :: "ex_session list"
  ex_listener_log :: "string list"

definition ex_do_accept :: "ex_listener \<Rightarrow> ex_listener" where
  "ex_do_accept l = l\<lparr>ex_accepting := Suc (ex_accepting l)\<rparr>"

definition ex_run_listener :: ex_listener where
  "ex_run_listener = ex_do_accept \<lparr>ex_accepting = 0, ex_sessions = [], ex_listener_log = []\<rparr>"

definition ex_on_accept :: "tls_error option \<Rightarrow> ex_listener \<Rightarrow> ex_listener" where
  "ex_on_accept ec l =
     ex_do_accept
       (case ec of
          Some e \<Rightarrow> l\<lparr>ex_listener_log := ex_listener_log l @ fail_line e ''accept''\<rparr>
        | None \<Rightarrow> l\<lparr>ex_sessions := ex_sessions l @ [ex_run]\<rparr>)"

text \<open>The acceptor and the sessions, each with its own strand, take their steps in any order.\<close>

inductive ex_server_step :: "(request \<Rightarrow> response) \<Rightarrow> ex_listener \<Rightarrow> ex_listener \<Rightarrow> bool"
  for handler :: "request \<Rightarrow> response" where
  accepted: "ex_accepting l = Suc n \<Longrightarrow> ex_server_step handler l (ex_on_accept ec (l\<lparr>ex_accepting := n\<rparr>))"
| session: "i < length (ex_sessions l) \<Longrightarrow> ex_step handler (ex_sessions l ! i) s' \<Longrightarrow>
     ex_server_step handler l (l\<lparr>ex_sessions := (ex_sessions l)[i := s']\<rparr>)"

inductive ex_server_reach :: "(request \<Rightarrow> response) \<Rightarrow> ex_listener \<Rightarrow> bool"
  for handler :: "request \<Rightarrow> response" where
  init: "ex_server_reach handler ex_run_listener"
| step: "ex_server_reach handler l \<Longrightarrow> ex_server_step handler l l' \<Longrightarrow> ex_server_reach handler l'"

section \<open>main\<close>

text \<open>
  \<open>atoi\<close> of the C library: blanks, a sign, digits up to the first other character; undefined,
  \<open>None\<close>, when the number does not fit an \<open>int\<close>.
\<close>

definition is_blank :: "char \<Rightarrow> bool" where
  "is_blank c \<longleftrightarrow> c \<in> {CHR '' '', CHR 0x09, CHR 0x0A, CHR 0x0B, CHR 0x0C, CHR 0x0D}"

definition digit_value :: "char \<Rightarrow> int" where
  "digit_value c = of_char c - 48"

definition atoi :: "string \<Rightarrow> int option" where
  "atoi txt =
     (let txt = dropWhile is_blank txt;
          negative = (txt \<noteq> [] \<and> hd txt = CHR ''-'');
          txt = (if txt \<noteq> [] \<and> (hd txt = CHR ''-'' \<or> hd txt = CHR ''+'') then tl txt else txt);
          digits = takeWhile (\<lambda>c. 0 \<le> digit_value c \<and> digit_value c \<le> 9) txt;
          n = foldl (\<lambda>n c. 10 * n + digit_value c) 0 digits;
          n = (if negative then - n else n)
      in if - (2 ^ 31) \<le> n \<and> n < 2 ^ 31 then Some n else None)"

text \<open>
  What \<open>main\<close> comes to: \<open>None\<close> after undefined behaviour, \<open>Inl\<close> when an exception leaves it
  (nothing is caught here), otherwise an exit code or the service with its settings.
\<close>

definition ex_main ::
  "(string \<Rightarrow> string + 'a) \<Rightarrow> string + unit \<Rightarrow> string list \<Rightarrow> (string + 'a settings launch) option" where
  "ex_main make_address load_certificate argv =
     (if length argv \<noteq> 5 then
        Some (Inr (Leaves 1 [''Usage: http-server-async-ssl <address> <port> <doc_root> <threads>'', ''Example:'',
          ''    http-server-async-ssl 0.0.0.0 8080 . 1'']))
      else
        case make_address (argv ! 1) of
          Inl e \<Rightarrow> Some (Inl e)
        | Inr addr \<Rightarrow>
            Option.bind (atoi (argv ! 2)) (\<lambda>prt.
            Option.bind (atoi (argv ! 4)) (\<lambda>demanded.
              Some (attempt load_certificate (\<lambda>_.
                Inr (Serves \<lparr>serve_address = addr, serve_port = word_of_int prt, serve_root = argv ! 3,
                       serve_threads = max 1 demanded\<rparr> []))))))"

section \<open>The example and the two servers\<close>

lemma ex_mime_type_eq: "ex_mime_type = mime_type"
proof
  fix path
  have "(case filter P xs of (e, t) # _ \<Rightarrow> t | [] \<Rightarrow> d) = (case find P xs of Some (e, t) \<Rightarrow> t | None \<Rightarrow> d)"
    for P and xs :: "(string \<times> string) list" and d
    by (induction xs) auto
  moreover have "ex_mime_types = mime_table" by (simp add: ex_mime_types_def mime_table_def)
  ultimately show "ex_mime_type path = mime_type path" by (simp add: ex_mime_type_def mime_type_def)
qed

lemma ex_path_cat_eq: "ex_path_cat = path_cat" "ex_path_cat_windows = path_cat_windows"
  by (auto simp: fun_eq_iff ex_path_cat_def path_cat_def ex_path_cat_windows_def path_cat_windows_def to_windows_def Let_def)

lemma ex_handle_request_eq:
  "ex_handle_request ex_path_cat beast open_file doc_root = handle_request beast open_file doc_root"
  "ex_handle_request ex_path_cat_windows beast open_file doc_root = handle_request_windows beast open_file doc_root"
proof -
  have target: "target req = [] \<or> target req ! 0 \<noteq> CHR ''/'' \<or> sublist ''..'' (target req) \<longleftrightarrow> \<not> legal_target (target req)"
    for req :: request by (auto simp: legal_target_def hd_conv_nth)
  show "ex_handle_request ex_path_cat beast open_file doc_root = handle_request beast open_file doc_root"
    unfolding fun_eq_iff ex_handle_request_def target
    by (auto simp: handle_request_unfold text_responses request_path_def ex_path_cat_eq ex_mime_type_eq ex_bad_request_def
        ex_not_found_def ex_server_error_def Let_def split: opened.splits)
  show "ex_handle_request ex_path_cat_windows beast open_file doc_root = handle_request_windows beast open_file doc_root"
    unfolding fun_eq_iff ex_handle_request_def target
    by (auto simp: handle_request_windows_unfold text_responses request_path_windows_def ex_path_cat_eq ex_mime_type_eq
        ex_bad_request_def ex_not_found_def ex_server_error_def Let_def split: opened.splits)
qed

interpretation example_http: http_responder "ex_handle_request ex_path_cat beast open_file doc_root" for beast open_file doc_root
  unfolding ex_handle_request_eq(1) by unfold_locales

text \<open>A session of the TLS server without the lines it prints on its own.\<close>

definition failures :: "string list \<Rightarrow> string list" where
  "failures lines = filter (\<lambda>l. hd l \<noteq> CHR ''['' \<and> hd l \<noteq> CHR ''R'') lines"

definition quieted :: "tls_session \<Rightarrow> ex_session" where
  "quieted t = \<lparr>ex_pending = tls_pending t, ex_expires = expires t, ex_req = tls_request t, ex_res = tls_response t,
     ex_shaken = handshake_done t, ex_log = failures (tls_reports t), ex_requests = tls_requests t,
     ex_responses = tls_responses t, ex_closes = closes t\<rparr>"

definition quieted_server :: "tls_listener \<Rightarrow> ex_listener" where
  "quieted_server l = \<lparr>ex_accepting = tls_accepting l, ex_sessions = map quieted (tls_sessions l), ex_listener_log = tls_log l\<rparr>"

lemmas ex_defs = ex_async_def ex_on_run_def ex_on_handshake_def ex_do_read_def ex_do_close_def ex_send_lambda_def
  ex_on_read_def ex_on_write_def ex_on_shutdown_def ex_fail_def

lemma quieted_run: "quieted tls_run = ex_run"
  by (simp add: quieted_def tls_run_def ex_run_def start_op_def ex_async_def failures_def)

lemma quieted_complete: "ex_complete handler op ev (quieted t) = map_option quieted (tls_complete handler op ev t)"
  by (cases "(handler, op, ev, t)" rule: tls_complete.cases)
    (auto simp: quieted_def ex_defs tls_defs failures_def split: tls_error.splits)

lemma quieted_pending: "ex_pending (quieted t) = tls_pending t" "(quieted t)\<lparr>ex_pending := ops\<rparr> = quieted (t\<lparr>tls_pending := ops\<rparr>)"
  by (simp_all add: quieted_def)

lemma ex_step_quieted: "ex_step handler (quieted t) s' \<longleftrightarrow> (\<exists>t'. tls_step handler t t' \<and> s' = quieted t')"
proof
  assume "ex_step handler (quieted t) s'"
  then show "\<exists>t'. tls_step handler t t' \<and> s' = quieted t'"
  proof cases
    case (1 xs op ys ev)
    then obtain t' where "tls_complete handler op ev (t\<lparr>tls_pending := xs @ ys\<rparr>) = Some t'" "s' = quieted t'"
      by (auto simp: quieted_pending quieted_complete)
    with 1(1) show ?thesis by (auto simp: quieted_pending intro: tls_step.intros)
  qed
next
  assume "\<exists>t'. tls_step handler t t' \<and> s' = quieted t'"
  then obtain t' where t': "tls_step handler t t'" "s' = quieted t'" by blast
  from t'(1) show "ex_step handler (quieted t) s'"
  proof cases
    case (1 xs op ys ev)
    then show ?thesis unfolding t'(2)
      by (intro ex_step.intros [of _ xs op ys _ ev]) (simp_all add: quieted_pending quieted_complete)
  qed
qed

lemma quieted_accept: "quieted_server (tls_on_accept ec l) = ex_on_accept ec (quieted_server l)"
  by (auto simp: quieted_server_def tls_on_accept_def ex_on_accept_def tls_do_accept_def ex_do_accept_def quieted_run
      split: option.splits)

lemma ex_server_step_quieted:
  "ex_server_step handler (quieted_server l) m \<longleftrightarrow> (\<exists>l'. tls_server_step handler l l' \<and> m = quieted_server l')"
proof
  assume "ex_server_step handler (quieted_server l) m"
  then show "\<exists>l'. tls_server_step handler l l' \<and> m = quieted_server l'"
  proof cases
    case (accepted n ec)
    then have "tls_accepting l = Suc n" "m = quieted_server (tls_on_accept ec (l\<lparr>tls_accepting := n\<rparr>))"
      unfolding quieted_accept by (simp_all add: quieted_server_def)
    then show ?thesis by (auto simp: tls_accept_event_def intro!: tls_server_step.accepted)
  next
    case (session i s')
    then have i: "i < length (tls_sessions l)" "ex_step handler (quieted (tls_sessions l ! i)) s'" by (simp_all add: quieted_server_def)
    from i(2) obtain t' where t': "tls_step handler (tls_sessions l ! i) t'" "s' = quieted t'" unfolding ex_step_quieted by blast
    with session have "m = quieted_server (l\<lparr>tls_sessions := (tls_sessions l)[i := t']\<rparr>)" by (simp add: quieted_server_def map_update)
    with tls_server_step.session [OF i(1) t'(1)] show ?thesis by blast
  qed
next
  assume "\<exists>l'. tls_server_step handler l l' \<and> m = quieted_server l'"
  then obtain l' where l': "tls_server_step handler l l'" "m = quieted_server l'" by blast
  from l'(1) show "ex_server_step handler (quieted_server l) m"
  proof cases
    case (accepted ec)
    then obtain n where n: "tls_accepting l = Suc n" "l' = tls_on_accept ec (l\<lparr>tls_accepting := n\<rparr>)"
      by (auto simp: tls_accept_event_def split: nat.splits)
    have "m = ex_on_accept ec ((quieted_server l)\<lparr>ex_accepting := n\<rparr>)"
      unfolding l'(2) n(2) quieted_accept by (simp add: quieted_server_def)
    moreover have "ex_accepting (quieted_server l) = Suc n" using n(1) by (simp add: quieted_server_def)
    ultimately show ?thesis by (simp add: ex_server_step.accepted)
  next
    case (session i t')
    then have "ex_step handler (ex_sessions (quieted_server l) ! i) (quieted t')"
      by (simp add: quieted_server_def ex_step_quieted) blast
    moreover have "m = (quieted_server l)\<lparr>ex_sessions := (ex_sessions (quieted_server l))[i := quieted t']\<rparr>"
      unfolding l'(2) session by (simp add: quieted_server_def map_update)
    moreover have "i < length (ex_sessions (quieted_server l))" using session(2) by (simp add: quieted_server_def)
    ultimately show ?thesis by (simp add: ex_server_step.session)
  qed
qed

lemma ex_run_listener_quieted: "ex_run_listener = quieted_server tls_run_listener"
  by (simp add: quieted_server_def ex_run_listener_def tls_run_listener_def ex_do_accept_def tls_do_accept_def)

lemma ex_reach_quieted: "ex_server_reach handler m \<longleftrightarrow> (\<exists>l. tls_server_reach handler l \<and> m = quieted_server l)"
proof
  show "\<exists>l. tls_server_reach handler l \<and> m = quieted_server l" if "ex_server_reach handler m"
    using that
  proof (induction rule: ex_server_reach.induct)
    case init
    then show ?case using ex_run_listener_quieted tls_server_reach.init by blast
  next
    case (step m m')
    then show ?case using ex_server_step_quieted by (blast intro: tls_server_reach.step)
  qed
  have "ex_server_reach handler (quieted_server l)" if "tls_server_reach handler l" for l
    using that
  proof (induction rule: tls_server_reach.induct)
    case init
    then show ?case using ex_server_reach.init [of handler] by (simp add: ex_run_listener_quieted)
  next
    case (step l l')
    then show ?case using ex_server_step_quieted by (blast intro: ex_server_reach.step)
  qed
  then show "ex_server_reach handler m" if "\<exists>l. tls_server_reach handler l \<and> m = quieted_server l"
    using that by blast
qed

section \<open>Properties\<close>

text \<open>
  C32: the example is what the plain and the TLS server have in common. Its request handler is the
  one of the plain server, on both kinds of hosts; and, for any handler, its acceptor and
  sessions run exactly as those of the TLS server do, in every order of steps, once the lines
  that the TLS server prints on its own are left out.
\<close>

theorem example_runs_as_tls:
  "ex_handle_request ex_path_cat beast open_file doc_root = handle_request beast open_file doc_root \<and>
   ex_handle_request ex_path_cat_windows beast open_file doc_root = handle_request_windows beast open_file doc_root \<and>
   (ex_server_reach handler m \<longleftrightarrow> (\<exists>l. tls_server_reach handler l \<and> m = quieted_server l))"
  by (intro conjI ex_handle_request_eq ex_reach_quieted)

text \<open>
  So, with its own handler, the example answers every request with the response of the plain
  server, after the handshake, and it never stops accepting: what either of the two servers
  of the repository does only in part.
\<close>

theorem example_serves:
  assumes "ex_server_reach (ex_handle_request ex_path_cat beast open_file doc_root) m" "s \<in> set (ex_sessions m)"
  shows "ex_accepting m = 1 \<and> length (ex_pending s) \<le> 1 \<and> (ex_requests s = [] \<or> ex_shaken s) \<and> ex_closes s \<le> 1 \<and>
    ex_responses s \<in> {map (handle_request beast open_file doc_root) (ex_requests s),
      map (handle_request beast open_file doc_root) (butlast (ex_requests s))}"
proof -
  let ?h = "handle_request beast open_file doc_root"
  from assms(1) obtain l where l: "tls_server_reach ?h l" "m = quieted_server l"
    unfolding ex_handle_request_eq ex_reach_quieted by blast
  with assms(2) obtain t where t: "t \<in> set (tls_sessions l)" "s = quieted t" by (auto simp: quieted_server_def)
  from tls_server_ok_reach [OF l(1)] t(1) have ok: "tls_accepting l = 1" "tls_ok ?h t"
    by (auto simp: tls_server_ok_def dest: tls_ok_reach)
  show ?thesis
    using ok by (auto simp: l(2) t(2) quieted_server_def quieted_def tls_ok_def)
qed

text \<open>
  A number that the library prints is read back by \<open>atoi\<close>, for every \<open>int\<close>.
\<close>

lemma digit_value_digit: "d < 10 \<Longrightarrow> digit_value (char_of (48 + d)) = int d"
proof -
  assume "d < 10"
  have "of_char c = int (of_char c)" for c by (simp only: of_nat_of_char)
  then have "of_char (char_of (48 + d) :: char) = int (of_char (char_of (48 + d) :: char))" .
  also have "of_char (char_of (48 + d) :: char) = 48 + d" using \<open>d < 10\<close> by (subst of_char_of) simp
  finally show ?thesis by (simp add: digit_value_def)
qed

lemma dec_nat_digits: "c \<in> set (dec_nat n) \<Longrightarrow> 0 \<le> digit_value c \<and> digit_value c \<le> 9"
proof (induction n rule: dec_nat.induct)
  case (1 n)
  then show ?case
    using digit_value_digit [of n] digit_value_digit [of "n mod 10"]
    by (subst (asm) (2) dec_nat.simps) (auto split: if_splits)
qed

lemma dec_nat_value: "foldl (\<lambda>n c. 10 * n + digit_value c) 0 (dec_nat n) = int n"
proof (induction n rule: dec_nat.induct)
  case (1 n)
  show ?case
  proof (cases "n < 10")
    case True
    then show ?thesis using digit_value_digit [of n] by (simp add: dec_nat.simps [of n])
  next
    case False
    then have "foldl (\<lambda>n c. 10 * n + digit_value c) 0 (dec_nat n) = 10 * int (n div 10) + int (n mod 10)"
      using 1 digit_value_digit [of "n mod 10"] by (simp add: dec_nat.simps [of n])
    then show ?thesis by (metis mult_div_mod_eq of_nat_add of_nat_mult of_nat_numeral)
  qed
qed

lemma dec_nat_start: "dec_nat n \<noteq> []" "\<not> is_blank (hd (dec_nat n))" "hd (dec_nat n) \<noteq> CHR ''-''" "hd (dec_nat n) \<noteq> CHR ''+''"
proof -
  show ne: "dec_nat n \<noteq> []" by (subst dec_nat.simps) simp
  then have "0 \<le> digit_value (hd (dec_nat n))" using dec_nat_digits [of "hd (dec_nat n)" n] by simp
  then show "\<not> is_blank (hd (dec_nat n))" "hd (dec_nat n) \<noteq> CHR ''-''" "hd (dec_nat n) \<noteq> CHR ''+''"
    by (auto simp: digit_value_def is_blank_def)
qed

theorem atoi_reads_back:
  assumes "- (2 ^ 31) \<le> i" "i < 2 ^ 31"
  shows "atoi (dec_int i) = Some i"
proof -
  have all: "takeWhile (\<lambda>c. 0 \<le> digit_value c \<and> digit_value c \<le> 9) (dec_nat n) = dec_nat n" for n
    using dec_nat_digits by (simp add: takeWhile_eq_all_conv)
  have keep: "dropWhile is_blank (dec_nat n) = dec_nat n" for n
    using dec_nat_start(1,2) [of n] by (cases "dec_nat n") simp_all
  show ?thesis
    using assms dec_nat_start(1,3,4) dec_nat_start(1,2)
    by (cases "i < 0") (simp_all add: atoi_def dec_int_def Let_def all keep dec_nat_value is_blank_def)
qed

theorem atoi_reads_back_witness: "atoi ''8080'' = Some 8080"
proof -
  have "dec_int 8080 = ''8080''" by (simp add: dec_int_def dec_nat.simps char_of_eq_iff)
  with atoi_reads_back [of 8080] show ?thesis by simp
qed

text \<open>
  Nothing is caught in \<open>main\<close>: an address that is none, or a certificate that cannot be loaded, ends the
  program with an exception, where the TLS server of the repository returns an exit code.
\<close>

theorem example_main_uncaught:
  assumes "ex_main make_address load_certificate argv = Some (Inl e)"
    "tls_main make_address cast_ushort cast_int load_certificate argv = Leaves code out"
  shows "code = 1 \<and> (make_address (argv ! 1) = Inl e \<or> load_certificate = Inl e)"
  using assms by (auto simp: ex_main_def tls_main_def Let_def attempt_Inl split: if_splits sum.splits option.splits bind_splits)

end
