(* ===== verification/Http_Clients.thy ===== *)
theory Http_Clients
  imports Main
begin

text \<open>
  The asynchronous HTTP clients: \<open>async_http_get_client.cpp\<close> and \<open>ssl_http_get_client.cpp\<close> of
  \<open>other_ressources/boost_beast/src/\<close>, and \<open>simple_http_client.cpp\<close> of
  \<open>other_ressources/async_io_with_cpp/\<close>. Each is a chain: the handler of an operation starts
  the next one. The first two stop at an error, the third one goes on.

  The locale \<open>chain\<close> states what the three have in common: with nothing pending, a handler
  leaves at most one operation, which is later in the chain. Standard output and standard
  error are one list of lines. (The file of the TLS client does not compile as it is: it
  binds handlers without placeholders, writes \<open>result_\<close> for \<open>response_\<close>, and calls a \<open>fail\<close>
  that it does not define, which is read as the one of the plain client.)
\<close>

section \<open>Chains of operations\<close>

datatype stage = Resolving | Connecting | Handshaking | Sending | Receiving | Shutting

text \<open>How an operation ends: well (a read with the text of the response), or with an error.\<close>

datatype outcome = Done string | Eof | Failed string

text \<open>Running a client: each outcome is that of the operation that is pending, if there is one.\<close>

primrec run_chain ::
  "(stage \<Rightarrow> 'r \<Rightarrow> 's \<Rightarrow> 's) \<Rightarrow> ('s \<Rightarrow> stage list) \<Rightarrow> ('s \<Rightarrow> 's) \<Rightarrow> 'r list \<Rightarrow> 's \<Rightarrow> 's" where
  "run_chain handler pending clear [] s = s"
| "run_chain handler pending clear (r # rs) s =
     (case pending s of [] \<Rightarrow> s | op # ops \<Rightarrow> run_chain handler pending clear rs (handler op r (clear s)))"

primrec stages_left :: "stage \<Rightarrow> nat" where
  "stages_left Resolving = 6"
| "stages_left Connecting = 5"
| "stages_left Handshaking = 4"
| "stages_left Sending = 3"
| "stages_left Receiving = 2"
| "stages_left Shutting = 1"

definition steps_left :: "stage list \<Rightarrow> nat" where
  "steps_left ops = sum_list (map stages_left ops)"

lemma steps_left_simps [simp]: "steps_left [] = 0" "steps_left [op] = stages_left op"
  by (simp_all add: steps_left_def)

lemma stages_left_pos [simp]: "stages_left op \<noteq> 0"
  by (cases op) simp_all

locale chain =
  fixes handler :: "stage \<Rightarrow> 'r \<Rightarrow> 's \<Rightarrow> 's"
    and pending :: "'s \<Rightarrow> stage list"
    and clear :: "'s \<Rightarrow> 's"
  assumes cleared: "pending (clear s) = []"
    and goes_on: "pending s = [] \<Longrightarrow>
      pending (handler op r s) = [] \<or>
      (\<exists>op'. pending (handler op r s) = [op'] \<and> stages_left op' < stages_left op)"
begin

abbreviation run :: "'r list \<Rightarrow> 's \<Rightarrow> 's" where
  "run \<equiv> run_chain handler pending clear"

lemma one_pending: "length (pending s) \<le> 1 \<Longrightarrow> length (pending (run rs s)) \<le> 1"
proof (induction rs arbitrary: s)
  case (Cons r rs)
  show ?case
  proof (cases "pending s")
    case (Cons op ops)
    have "length (pending (handler op r (clear s))) \<le> 1"
      using goes_on [where s = "clear s" and op = op and r = r, OF cleared] by auto
    with Cons Cons.IH show ?thesis by simp
  qed simp
qed simp

text \<open>Each completion makes the chain shorter, so the client comes to an end.\<close>

lemma ends: "length (pending s) \<le> 1 \<Longrightarrow> steps_left (pending s) \<le> length rs \<Longrightarrow> pending (run rs s) = []"
proof (induction rs arbitrary: s)
  case Nil
  then show ?case by (cases "pending s") (auto simp: steps_left_def)
next
  case (Cons r rs)
  show ?case
  proof (cases "pending s")
    case (Cons op ops)
    with Cons.prems have "stages_left op \<le> Suc (length rs)" by simp
    then have "length (pending (handler op r (clear s))) \<le> 1 \<and> steps_left (pending (handler op r (clear s))) \<le> length rs"
      using goes_on [where s = "clear s" and op = op and r = r, OF cleared] by auto
    with Cons Cons.IH show ?thesis by simp
  qed simp
qed

lemma finished: "pending s = [] \<Longrightarrow> run rs s = s"
  by (cases rs) simp_all

end

section \<open>The plain client\<close>

record get_request =
  get_version :: nat
  get_target :: string
  get_host :: string
  get_agent :: string

record client_session =
  cl_pending :: "stage list"
  cl_request :: "get_request option"
  cl_expires :: bool
  cl_sent :: "get_request list"
  cl_out :: "string list"
  cl_shut :: bool

definition cl_clear :: "client_session \<Rightarrow> client_session" where
  "cl_clear s = s\<lparr>cl_pending := []\<rparr>"

definition cl_begin :: "stage \<Rightarrow> client_session \<Rightarrow> client_session" where
  "cl_begin op s = s\<lparr>cl_pending := cl_pending s @ [op]\<rparr>"

definition cl_print :: "string \<Rightarrow> client_session \<Rightarrow> client_session" where
  "cl_print line s = s\<lparr>cl_out := cl_out s @ [line]\<rparr>"

definition blank_line :: string where
  "blank_line = [CHR 0x0A, CHR 0x0A]"

definition get_session :: "string \<Rightarrow> client_session" where
  "get_session line = \<lparr>cl_pending = [], cl_request = None, cl_expires = False, cl_sent = [], cl_out = [line], cl_shut = False\<rparr>"

definition get_run :: "string \<Rightarrow> string \<Rightarrow> string \<Rightarrow> nat \<Rightarrow> client_session \<Rightarrow> client_session" where
  "get_run beast host tgt ver s = cl_begin Resolving
     (s\<lparr>cl_request := Some \<lparr>get_version = ver, get_target = tgt, get_host = host, get_agent = beast\<rparr>\<rparr>)"

definition get_on_resolve :: "outcome \<Rightarrow> client_session \<Rightarrow> client_session" where
  "get_on_resolve r s =
     (case r of
        Done _ \<Rightarrow> cl_begin Connecting (s\<lparr>cl_expires := True\<rparr>)
      | _ \<Rightarrow> cl_print ''[SESSION]: Error during resolving the given host.'' s)"

definition get_on_connect :: "outcome \<Rightarrow> client_session \<Rightarrow> client_session" where
  "get_on_connect r s =
     (case r of
        Done _ \<Rightarrow> cl_begin Sending (s\<lparr>cl_expires := True\<rparr>)
      | _ \<Rightarrow> cl_print ''[SESSION]: Error during connection'' s)"

text \<open>A write that ends well has put the request on the stream.\<close>

definition request_sent :: "client_session \<Rightarrow> client_session" where
  "request_sent s = s\<lparr>cl_sent := cl_sent s @ (case cl_request s of None \<Rightarrow> [] | Some req \<Rightarrow> [req])\<rparr>"

definition get_on_write :: "outcome \<Rightarrow> client_session \<Rightarrow> client_session" where
  "get_on_write r s =
     (case r of
        Done _ \<Rightarrow> cl_begin Receiving s
      | _ \<Rightarrow> cl_print ''[SESSION]: Error during writeing'' s)"

definition get_on_read :: "outcome \<Rightarrow> client_session \<Rightarrow> client_session" where
  "get_on_read r s =
     (case r of
        Done response \<Rightarrow>
          cl_print ''[SESSION]: Successfully closed the socket''
            ((cl_print (''This is the message from the server: '' @ blank_line @ response) s)\<lparr>cl_shut := True\<rparr>)
      | _ \<Rightarrow> cl_print ''[SESSION]: Error during reading out'' s)"

fun get_handler :: "stage \<Rightarrow> outcome \<Rightarrow> client_session \<Rightarrow> client_session" where
  "get_handler Resolving r s = get_on_resolve r s"
| "get_handler Connecting r s = get_on_connect r s"
| "get_handler Sending (Done t) s = get_on_write (Done t) (request_sent s)"
| "get_handler Sending r s = get_on_write r s"
| "get_handler Receiving r s = get_on_read r s"
| "get_handler _ r s = s"

lemmas client_simps = cl_clear_def cl_begin_def cl_print_def request_sent_def

lemma client_fields [simp]:
  "cl_pending (cl_begin op s) = cl_pending s @ [op]" "cl_pending (cl_print line s) = cl_pending s"
  "cl_pending (request_sent s) = cl_pending s" "cl_pending (cl_clear s) = []"
  by (simp_all add: client_simps)

interpretation get_client: chain get_handler cl_pending cl_clear
proof unfold_locales
  fix op r and s :: client_session assume "cl_pending s = []"
  then show "cl_pending (get_handler op r s) = [] \<or>
      (\<exists>op'. cl_pending (get_handler op r s) = [op'] \<and> stages_left op' < stages_left op)"
    by (cases op; cases r)
      (simp_all add: get_on_resolve_def get_on_connect_def get_on_write_def get_on_read_def)
qed simp

section \<open>The client over TLS\<close>

text \<open>Setting the name of the server, which can fail, comes first.\<close>

definition ssl_run :: "bool \<Rightarrow> string \<Rightarrow> string \<Rightarrow> string \<Rightarrow> nat \<Rightarrow> client_session \<Rightarrow> client_session" where
  "ssl_run sni_ok beast host tgt ver s =
     (if \<not> sni_ok then cl_print ''[SESSION]: Error on .run()'' s else get_run beast host tgt ver s)"

definition ssl_on_resolve :: "outcome \<Rightarrow> client_session \<Rightarrow> client_session" where
  "ssl_on_resolve r s =
     (case r of
        Done _ \<Rightarrow> cl_begin Connecting (s\<lparr>cl_expires := True\<rparr>)
      | _ \<Rightarrow> cl_print ''[SESSION]: Error on on_resolve()'' s)"

definition ssl_on_connect :: "outcome \<Rightarrow> client_session \<Rightarrow> client_session" where
  "ssl_on_connect r s =
     (case r of Done _ \<Rightarrow> cl_begin Handshaking s | _ \<Rightarrow> cl_print ''[SESSION]: Error on on_connect()'' s)"

definition ssl_on_handshake :: "outcome \<Rightarrow> client_session \<Rightarrow> client_session" where
  "ssl_on_handshake r s =
     (case r of
        Done _ \<Rightarrow> cl_begin Sending (s\<lparr>cl_expires := True\<rparr>)
      | _ \<Rightarrow> cl_print ''[SESSION]: Error on on_handshake()'' s)"

definition ssl_on_write :: "outcome \<Rightarrow> client_session \<Rightarrow> client_session" where
  "ssl_on_write r s =
     (case r of Done _ \<Rightarrow> cl_begin Receiving s | _ \<Rightarrow> cl_print ''[SESSION]: Error on on_write()'' s)"

definition ssl_on_read :: "outcome \<Rightarrow> client_session \<Rightarrow> client_session" where
  "ssl_on_read r s =
     (case r of
        Done response \<Rightarrow> cl_begin Shutting
          ((cl_print (''This is the result of the server request:'' @ blank_line @ response @ [CHR 0x0A]) s)\<lparr>cl_expires := True\<rparr>)
      | _ \<Rightarrow> cl_print ''[SESSION]: Error on on_read()'' s)"

text \<open>Only the end of the stream is accepted; every other end, a good one too, is reported as a failure.\<close>

definition ssl_on_shutdown :: "outcome \<Rightarrow> client_session \<Rightarrow> client_session" where
  "ssl_on_shutdown r s =
     (case r of
        Eof \<Rightarrow> s
      | Done _ \<Rightarrow> cl_print (''ERROR: shutdown : '' @ ''Success'') s
      | Failed message \<Rightarrow> cl_print (''ERROR: shutdown : '' @ message) s)"

fun ssl_handler :: "stage \<Rightarrow> outcome \<Rightarrow> client_session \<Rightarrow> client_session" where
  "ssl_handler Resolving r s = ssl_on_resolve r s"
| "ssl_handler Connecting r s = ssl_on_connect r s"
| "ssl_handler Handshaking r s = ssl_on_handshake r s"
| "ssl_handler Sending (Done t) s = ssl_on_write (Done t) (request_sent s)"
| "ssl_handler Sending r s = ssl_on_write r s"
| "ssl_handler Receiving r s = ssl_on_read r s"
| "ssl_handler Shutting r s = ssl_on_shutdown r s"

interpretation ssl_client: chain ssl_handler cl_pending cl_clear
proof unfold_locales
  fix op r and s :: client_session assume "cl_pending s = []"
  then show "cl_pending (ssl_handler op r s) = [] \<or>
      (\<exists>op'. cl_pending (ssl_handler op r s) = [op'] \<and> stages_left op' < stages_left op)"
    by (cases op; cases r)
      (simp_all add: ssl_on_resolve_def ssl_on_connect_def ssl_on_handshake_def ssl_on_write_def ssl_on_read_def
        ssl_on_shutdown_def)
qed simp

section \<open>The client that goes on\<close>

text \<open>
  \<open>ClientApplication\<close> prints how each operation has ended and starts the next one in any
  case. What a handler prints of an operation: the message of its error code, and the number of
  bytes or the endpoint; a read has some data even if it ends with an error.
\<close>

record app_event =
  ev_message :: string
  ev_info :: string
  ev_data :: string

record client_application =
  app_pending :: "stage list"
  app_request :: string
  app_out :: "string list"

definition app_clear :: "client_application \<Rightarrow> client_application" where
  "app_clear s = s\<lparr>app_pending := []\<rparr>"

definition app_go :: "stage \<Rightarrow> string \<Rightarrow> client_application \<Rightarrow> client_application" where
  "app_go op line s = s\<lparr>app_out := app_out s @ [line], app_pending := app_pending s @ [op]\<rparr>"

definition client_application :: "string \<Rightarrow> client_application" where
  "client_application hostname =
     \<lparr>app_pending = [Resolving],
      app_request = ''GET / HTTP/1.1'' @ [CHR 0x0A] @ ''Host: '' @ hostname @ [CHR 0x0A] @ ''Connection: close'' @ blank_line,
      app_out = []\<rparr>"

definition app_on_resolve :: "app_event \<Rightarrow> client_application \<Rightarrow> client_application" where
  "app_on_resolve ev = app_go Connecting (''Resolve: '' @ ev_message ev)"

definition app_on_connect :: "app_event \<Rightarrow> client_application \<Rightarrow> client_application" where
  "app_on_connect ev = app_go Sending (''Connect: '' @ ev_message ev @ '', endpoint: '' @ ev_info ev)"

definition app_on_write :: "app_event \<Rightarrow> client_application \<Rightarrow> client_application" where
  "app_on_write ev = app_go Receiving (''Write: '' @ ev_message ev @ '', bytes transferred: '' @ ev_info ev)"

definition app_on_read :: "app_event \<Rightarrow> client_application \<Rightarrow> client_application" where
  "app_on_read ev s =
     s\<lparr>app_out := app_out s @ [''Read: '' @ ev_message ev @ '', bytes received: '' @ ev_info ev, ev_data ev]\<rparr>"

fun app_handler :: "stage \<Rightarrow> app_event \<Rightarrow> client_application \<Rightarrow> client_application" where
  "app_handler Resolving ev s = app_on_resolve ev s"
| "app_handler Connecting ev s = app_on_connect ev s"
| "app_handler Sending ev s = app_on_write ev s"
| "app_handler Receiving ev s = app_on_read ev s"
| "app_handler _ ev s = s"

lemmas app_simps = app_on_resolve_def app_on_connect_def app_on_write_def app_on_read_def app_go_def app_clear_def

interpretation app_client: chain app_handler app_pending app_clear
proof unfold_locales
  fix op ev and s :: client_application assume "app_pending s = []"
  then show "app_pending (app_handler op ev s) = [] \<or>
      (\<exists>op'. app_pending (app_handler op ev s) = [op'] \<and> stages_left op' < stages_left op)"
    by (cases op) (simp_all add: app_simps)
qed (simp add: app_clear_def)

lemma application_ignores_errors:
  "app_client.run (e1 # e2 # e3 # e4 # es) (client_application hostname) =
     (client_application hostname)\<lparr>app_pending := [], app_out :=
       [''Resolve: '' @ ev_message e1, ''Connect: '' @ ev_message e2 @ '', endpoint: '' @ ev_info e2,
        ''Write: '' @ ev_message e3 @ '', bytes transferred: '' @ ev_info e3,
        ''Read: '' @ ev_message e4 @ '', bytes received: '' @ ev_info e4, ev_data e4]\<rparr>"
  by (simp add: client_application_def app_simps app_client.finished)

section \<open>Properties\<close>

text \<open>What a chain of operations reports: the line of the first one that has failed, if any.\<close>

fun first_failure :: "string list \<Rightarrow> outcome list \<Rightarrow> string option" where
  "first_failure (line # lines) (Done t # rs) = first_failure lines rs"
| "first_failure (line # lines) (r # rs) = Some line"
| "first_failure _ _ = None"

definition get_errors :: "string list" where
  "get_errors = [''[SESSION]: Error during resolving the given host.'', ''[SESSION]: Error during connection'',
     ''[SESSION]: Error during writeing'', ''[SESSION]: Error during reading out'']"

definition ssl_errors :: "string list" where
  "ssl_errors = [''[SESSION]: Error on on_resolve()'', ''[SESSION]: Error on on_connect()'',
     ''[SESSION]: Error on on_handshake()'', ''[SESSION]: Error on on_write()'', ''[SESSION]: Error on on_read()'']"

definition all_done :: "outcome list \<Rightarrow> bool" where
  "all_done rs \<longleftrightarrow> list_all (\<lambda>r. \<exists>t. r = Done t) rs"

lemmas get_defs = get_run_def get_session_def get_on_resolve_def get_on_connect_def get_on_write_def get_on_read_def
  client_simps get_errors_def all_done_def

lemmas ssl_defs = ssl_run_def get_run_def get_session_def ssl_on_resolve_def ssl_on_connect_def ssl_on_handshake_def
  ssl_on_write_def ssl_on_read_def ssl_on_shutdown_def client_simps ssl_errors_def all_done_def

text \<open>
  The plain HTTP client. However its four operations end, it comes to an end with one
  report: the line of the first operation that failed, or else the response; the socket is shut down in
  the last case only, and the request has been sent exactly if the first three ended well.
\<close>
theorem get_client_report:
  "let s = get_client.run (r1 # r2 # r3 # r4 # rs) (get_run beast host tgt ver (get_session line))
   in cl_pending s = [] \<and>
    cl_out s = line #
      (case first_failure get_errors [r1, r2, r3, r4] of
         Some err \<Rightarrow> [err]
       | None \<Rightarrow> [''This is the message from the server: '' @ blank_line @ (case r4 of Done t \<Rightarrow> t | _ \<Rightarrow> []),
           ''[SESSION]: Successfully closed the socket'']) \<and>
    cl_shut s = all_done [r1, r2, r3, r4] \<and>
    cl_sent s = (if all_done [r1, r2, r3]
      then [\<lparr>get_version = ver, get_target = tgt, get_host = host, get_agent = beast\<rparr>] else [])"
  by (cases r1; cases r2; cases r3; cases r4) (simp_all add: Let_def get_defs get_client.finished)

text \<open>
  C34: the HTTP client over TLS. However its operations end, it comes to an end; the request
  is sent only after a handshake that ended well; an operation that fails is reported, and
  nothing is done after it. After a complete response, the shutdown is reported as a failure
  unless it ends with the end of the stream: one that succeeds is.
\<close>
theorem ssl_client_report:
  "let s = ssl_client.run (r1 # r2 # r3 # r4 # r5 # r6 # rs) (ssl_run True beast host tgt ver (get_session line))
   in cl_pending s = [] \<and>
    cl_out s = line #
      (case first_failure ssl_errors [r1, r2, r3, r4, r5] of
         Some err \<Rightarrow> [err]
       | None \<Rightarrow> (''This is the result of the server request:'' @ blank_line @ (case r5 of Done t \<Rightarrow> t | _ \<Rightarrow> []) @ [CHR 0x0A]) #
           (case r6 of Eof \<Rightarrow> [] | Done _ \<Rightarrow> [''ERROR: shutdown : Success''] | Failed m \<Rightarrow> [''ERROR: shutdown : '' @ m])) \<and>
    cl_sent s = (if all_done [r1, r2, r3, r4]
      then [\<lparr>get_version = ver, get_target = tgt, get_host = host, get_agent = beast\<rparr>] else [])"
  by (cases r1; (simp add: Let_def ssl_defs ssl_client.finished; fail)?;
      cases r2; (simp add: Let_def ssl_defs ssl_client.finished; fail)?;
      cases r3; (simp add: Let_def ssl_defs ssl_client.finished; fail)?;
      cases r4; (simp add: Let_def ssl_defs ssl_client.finished; fail)?;
      cases r5; cases r6; simp add: Let_def ssl_defs ssl_client.finished)

end
