(* ===== verification/Chat_Server.thy ===== *)
theory Chat_Server
  imports Main "HOL-Library.Sublist"
begin

text \<open>
  The chat server of \<open>other_ressources/async_io_with_cpp/simple_tcp_chat_server.cpp\<close>: a session
  per client with a queue of outgoing messages, and the server, which posts what one client
  says to all clients. One thread runs the I/O context.

  Sessions are indices into \<open>chat_sessions\<close>. The set \<open>clients_\<close> is kept as a list: the code
  goes over it in the unspecified order of a hash set, but posting to one session does not
  touch another one, so the order makes no difference. \<open>sent_msgs\<close>, \<open>joined\<close> and \<open>chat_log\<close>
  record the history: the texts that the completed write operations of a client's socket were given (kept
  by the socket, in \<open>chat_step\<close>; no handler touches it), the length of the log when the client was
  added, and the messages posted to all clients.
\<close>

section \<open>Sessions\<close>

datatype chat_op = Chat_read | Chat_write string

record chat_session =
  chat_pending :: "chat_op list"
  streambuf :: string
  outgoing_msgs :: "string list"
  chat_open :: bool
  sent_msgs :: "string list"
  joined :: nat

definition new_session :: "bool \<Rightarrow> chat_session" where
  "new_session sock_ok =
     \<lparr>chat_pending = [], streambuf = [], outgoing_msgs = [], chat_open = sock_ok, sent_msgs = [], joined = 0\<rparr>"

definition chat_async_write :: "chat_session \<Rightarrow> chat_session" where
  "chat_async_write s = s\<lparr>chat_pending := chat_pending s @ [Chat_write (hd (outgoing_msgs s))]\<rparr>"

definition chat_async_read :: "chat_session \<Rightarrow> chat_session" where
  "chat_async_read s = s\<lparr>chat_pending := chat_pending s @ [Chat_read]\<rparr>"

definition session_post :: "string \<Rightarrow> chat_session \<Rightarrow> chat_session" where
  "session_post message_to_client s =
     (let idle = (outgoing_msgs s = []);
          s' = s\<lparr>outgoing_msgs := outgoing_msgs s @ [message_to_client]\<rparr>
      in if idle then chat_async_write s' else s')"

text \<open>\<open>on_write\<close> without an error; popping an empty \<open>std::queue\<close> is undefined behaviour.\<close>

definition session_written :: "chat_session \<Rightarrow> chat_session option" where
  "session_written s =
     (case outgoing_msgs s of
        [] \<Rightarrow> None
      | m # ms \<Rightarrow>
          let s' = s\<lparr>outgoing_msgs := ms\<rparr>
          in Some (if ms \<noteq> [] then chat_async_write s' else s'))"

section \<open>Server\<close>

record chat_server =
  chat_sessions :: "chat_session list"
  clients :: "nat list"
  chat_log :: "string list"

definition new_chat_server :: chat_server where
  "new_chat_server = \<lparr>chat_sessions = [], clients = [], chat_log = []\<rparr>"

primrec post_clients :: "string \<Rightarrow> nat list \<Rightarrow> chat_session list \<Rightarrow> chat_session list" where
  "post_clients m [] ss = ss"
| "post_clients m (i # js) ss = post_clients m js (ss[i := session_post m (ss ! i)])"

definition server_post :: "string \<Rightarrow> chat_server \<Rightarrow> chat_server" where
  "server_post message srv =
     srv\<lparr>chat_sessions := post_clients message (clients srv) (chat_sessions srv),
         chat_log := chat_log srv @ [message]\<rparr>"

definition welcome_text :: string where
  "welcome_text = ''Welcome to the chat!'' @ [CHR 0x0A]"

definition newcomer_text :: string where
  "newcomer_text = ''We have a newcomer'' @ [CHR 0x0A]"

definition one_less :: string where
  "one_less = ''We are one less!'' @ [CHR 0x0A, CHR 0x0D]"

text \<open>
  The handler of \<open>async_accept\<close>. It does not look at its error code: \<open>sock_ok\<close> says whether
  the socket is connected. It ends with the next \<open>async_server_accept\<close>.
\<close>

definition chat_on_accept :: "bool \<Rightarrow> chat_server \<Rightarrow> chat_server" where
  "chat_on_accept sock_ok srv =
     (let i = length (chat_sessions srv);
          client = session_post welcome_text (new_session sock_ok);
          srv1 = server_post newcomer_text (srv\<lparr>chat_sessions := chat_sessions srv @ [client]\<rparr>);
          srv2 = srv1\<lparr>clients := clients srv1 @ [i]\<rparr>;
          started = chat_async_read ((chat_sessions srv2 ! i)\<lparr>joined := length (chat_log srv2)\<rparr>)
      in srv2\<lparr>chat_sessions := (chat_sessions srv2)[i := started]\<rparr>)"

text \<open>The error handler that \<open>start\<close> is given: \<open>erase\<close> says whether the client was in the set.\<close>

definition on_error :: "nat \<Rightarrow> chat_server \<Rightarrow> chat_server" where
  "on_error i srv =
     (if i \<in> set (clients srv)
      then server_post one_less (srv\<lparr>clients := removeAll i (clients srv)\<rparr>)
      else srv)"

definition chat_close :: "nat \<Rightarrow> chat_server \<Rightarrow> chat_server" where
  "chat_close i srv =
     srv\<lparr>chat_sessions := (chat_sessions srv)[i := (chat_sessions srv ! i)\<lparr>chat_open := False\<rparr>]\<rparr>"

text \<open>
  \<open>on_read\<close>. \<open>rdbuf()\<close> takes all characters out of the buffer, not only those up to the
  line's end, so the \<open>consume\<close> that follows finds nothing left to take. \<open>endpoint\<close> is the
  text of the client's address.
\<close>

definition chat_on_read :: "string \<Rightarrow> nat \<Rightarrow> bool \<Rightarrow> nat \<Rightarrow> chat_server \<Rightarrow> chat_server" where
  "chat_on_read endpoint i ec bytes_transferred srv =
     (if \<not> ec then
        let s = chat_sessions srv ! i;
            left = [];
            message = endpoint @ '': '' @ streambuf s;
            s' = s\<lparr>streambuf := drop bytes_transferred left\<rparr>;
            srv1 = server_post message (srv\<lparr>chat_sessions := (chat_sessions srv)[i := s']\<rparr>)
        in srv1\<lparr>chat_sessions := (chat_sessions srv1)[i := chat_async_read (chat_sessions srv1 ! i)]\<rparr>
      else on_error i (chat_close i srv))"

definition chat_on_write :: "nat \<Rightarrow> bool \<Rightarrow> chat_server \<Rightarrow> chat_server option" where
  "chat_on_write i ec srv =
     (if \<not> ec then
        map_option (\<lambda>s. srv\<lparr>chat_sessions := (chat_sessions srv)[i := s]\<rparr>)
          (session_written (chat_sessions srv ! i))
      else Some (on_error i (chat_close i srv)))"

section \<open>Steps\<close>

text \<open>
  A read completes when a line's end is in the buffer, with the number of characters up to
  it; the bytes that came with it may go further.
\<close>

definition start_op :: "nat \<Rightarrow> chat_op list \<Rightarrow> string \<Rightarrow> chat_server \<Rightarrow> chat_server" where
  "start_op i ops arrived srv =
     srv\<lparr>chat_sessions := (chat_sessions srv)[i := (chat_sessions srv ! i)
        \<lparr>chat_pending := ops, streambuf := streambuf (chat_sessions srv ! i) @ arrived\<rparr>]\<rparr>"

text \<open>A write that completes without an error has sent the text it was started with.\<close>

definition socket_sent :: "nat \<Rightarrow> bool \<Rightarrow> string \<Rightarrow> chat_server \<Rightarrow> chat_server" where
  "socket_sent i ec m srv =
     (let s = chat_sessions srv ! i
      in if ec then srv else srv\<lparr>chat_sessions := (chat_sessions srv)[i := s\<lparr>sent_msgs := sent_msgs s @ [m]\<rparr>]\<rparr>)"

inductive chat_step :: "chat_server \<Rightarrow> chat_server \<Rightarrow> bool" where
  accepted: "chat_step srv (chat_on_accept sock_ok srv)"
| read_done: "i < length (chat_sessions srv) \<Longrightarrow> chat_pending (chat_sessions srv ! i) = xs @ Chat_read # ys \<Longrightarrow>
     chat_step srv (chat_on_read endpoint i ec n (start_op i (xs @ ys) arrived srv))"
| write_done: "i < length (chat_sessions srv) \<Longrightarrow> chat_pending (chat_sessions srv ! i) = xs @ Chat_write m # ys \<Longrightarrow>
     chat_on_write i ec (socket_sent i ec m (start_op i (xs @ ys) [] srv)) = Some srv' \<Longrightarrow> chat_step srv srv'"

inductive chat_reach :: "chat_server \<Rightarrow> bool" where
  init: "chat_reach new_chat_server"
| step: "chat_reach srv \<Longrightarrow> chat_step srv srv' \<Longrightarrow> chat_reach srv'"

section \<open>The invariant\<close>

text \<open>Everything that was posted to a client: first what was written, then what is queued.\<close>

definition posted :: "chat_session \<Rightarrow> string list" where
  "posted s = sent_msgs s @ outgoing_msgs s"

fun is_chat_write :: "chat_op \<Rightarrow> bool" where
  "is_chat_write (Chat_write m) = True"
| "is_chat_write Chat_read = False"

definition chat_writes :: "chat_session \<Rightarrow> chat_op list" where
  "chat_writes s = filter is_chat_write (chat_pending s)"

definition chat_reads :: "chat_session \<Rightarrow> chat_op list" where
  "chat_reads s = filter (\<lambda>op. \<not> is_chat_write op) (chat_pending s)"

text \<open>What is written is the front of the queue; \<open>busy\<close>: and it is, when there is one.\<close>

definition busy :: "chat_session \<Rightarrow> bool" where
  "busy s \<longleftrightarrow> chat_writes s = (if outgoing_msgs s = [] then [] else [Chat_write (hd (outgoing_msgs s))])"

definition chat_session_ok :: "chat_session \<Rightarrow> bool" where
  "chat_session_ok s \<longleftrightarrow> (busy s \<or> chat_writes s = [] \<and> outgoing_msgs s \<noteq> []) \<and> length (chat_reads s) \<le> 1"

definition client_ok :: "string list \<Rightarrow> chat_session \<Rightarrow> bool" where
  "client_ok lg s \<longleftrightarrow> busy s \<and> posted s = welcome_text # drop (joined s) lg \<and> joined s \<le> length lg"

definition chat_ok :: "chat_server \<Rightarrow> bool" where
  "chat_ok srv \<longleftrightarrow>
     distinct (clients srv) \<and> (\<forall>i \<in> set (clients srv). i < length (chat_sessions srv)) \<and>
     (\<forall>i < length (chat_sessions srv). chat_session_ok (chat_sessions srv ! i)) \<and>
     (\<forall>i \<in> set (clients srv). client_ok (chat_log srv) (chat_sessions srv ! i))"

lemma chat_op_simps [simp]:
  "chat_writes (chat_async_read s) = chat_writes s" "chat_reads (chat_async_read s) = chat_reads s @ [Chat_read]"
  "chat_writes (chat_async_write s) = chat_writes s @ [Chat_write (hd (outgoing_msgs s))]"
  "chat_reads (chat_async_write s) = chat_reads s"
  "outgoing_msgs (chat_async_read s) = outgoing_msgs s" "outgoing_msgs (chat_async_write s) = outgoing_msgs s"
  "posted (chat_async_read s) = posted s" "posted (chat_async_write s) = posted s"
  "joined (chat_async_read s) = joined s" "joined (chat_async_write s) = joined s"
  by (simp_all add: chat_writes_def chat_reads_def chat_async_read_def chat_async_write_def posted_def)

lemma post_simps [simp]:
  "posted (session_post m s) = posted s @ [m]" "joined (session_post m s) = joined s"
  "chat_reads (session_post m s) = chat_reads s"
  by (simp_all add: session_post_def Let_def posted_def chat_async_write_def chat_reads_def)

lemma busy_post: "busy s \<Longrightarrow> busy (session_post m s)"
  by (auto simp: busy_def session_post_def Let_def chat_writes_def chat_async_write_def)

lemma session_ok_post: "chat_session_ok s \<Longrightarrow> chat_session_ok (session_post m s)"
  unfolding chat_session_ok_def
  using busy_post [of s m]
  by (auto simp: session_post_def Let_def chat_writes_def chat_async_write_def chat_reads_def)

lemma client_ok_post: "client_ok lg s \<Longrightarrow> client_ok (lg @ [m]) (session_post m s)"
  by (simp add: client_ok_def busy_post)

lemma length_post_clients [simp]: "length (post_clients m js ss) = length ss"
  by (induction js arbitrary: ss) auto

lemma post_clients_nth:
  "distinct js \<Longrightarrow> i < length ss \<Longrightarrow>
     post_clients m js ss ! i = (if i \<in> set js then session_post m (ss ! i) else ss ! i)"
proof (induction js arbitrary: ss)
  case (Cons j js)
  then show ?case by (cases "i = j") auto
qed simp

lemma server_post_simps [simp]:
  "clients (server_post m srv) = clients srv" "chat_log (server_post m srv) = chat_log srv @ [m]"
  "length (chat_sessions (server_post m srv)) = length (chat_sessions srv)"
  by (simp_all add: server_post_def)

lemma chat_ok_post: "chat_ok srv \<Longrightarrow> chat_ok (server_post m srv)"
  by (auto simp: chat_ok_def server_post_def post_clients_nth session_ok_post client_ok_post)

lemma chat_ok_update:
  assumes "chat_ok srv" "i < length (chat_sessions srv)" "chat_session_ok s'"
    and "i \<in> set (clients srv) \<Longrightarrow> client_ok (chat_log srv) s'"
  shows "chat_ok (srv\<lparr>chat_sessions := (chat_sessions srv)[i := s']\<rparr>)"
  using assms by (auto simp: chat_ok_def nth_list_update)

text \<open>A session that fails: whatever is pending in it now, it is no client any more.\<close>

lemma chat_ok_error:
  assumes "chat_ok srv" "i < length (chat_sessions srv)" "chat_session_ok s'"
  shows "chat_ok (on_error i (srv\<lparr>chat_sessions := (chat_sessions srv)[i := s']\<rparr>))"
proof (cases "i \<in> set (clients srv)")
  case True
  have "chat_ok (srv\<lparr>chat_sessions := (chat_sessions srv)[i := s'], clients := removeAll i (clients srv)\<rparr>)"
    using assms by (auto simp: chat_ok_def nth_list_update distinct_removeAll)
  with True show ?thesis by (simp add: on_error_def chat_ok_post)
next
  case False
  with assms chat_ok_update [OF assms] show ?thesis by (simp add: on_error_def)
qed

lemma chat_ok_accept: "chat_ok srv \<Longrightarrow> chat_ok (chat_on_accept sock_ok srv)"
proof -
  assume ok: "chat_ok srv"
  let ?i = "length (chat_sessions srv)"
  let ?new = "session_post welcome_text (new_session sock_ok)"
  have new: "chat_session_ok ?new" "busy ?new" "posted ?new = [welcome_text]" "chat_reads ?new = []"
    by (simp_all add: chat_session_ok_def busy_def session_post_def new_session_def chat_async_write_def
        chat_writes_def chat_reads_def posted_def)
  define srv1 where "srv1 = server_post newcomer_text (srv\<lparr>chat_sessions := chat_sessions srv @ [?new]\<rparr>)"
  have fresh: "?i \<notin> set (clients srv)" using ok by (auto simp: chat_ok_def)
  have "chat_ok (srv\<lparr>chat_sessions := chat_sessions srv @ [?new]\<rparr>)"
    using ok new(1) by (auto simp: chat_ok_def nth_append less_Suc_eq)
  then have ok1: "chat_ok srv1" unfolding srv1_def by (rule chat_ok_post)
  have s1: "chat_sessions srv1 ! ?i = ?new" "clients srv1 = clients srv" "length (chat_sessions srv1) = Suc ?i"
    using fresh ok by (simp_all add: srv1_def server_post_def post_clients_nth chat_ok_def)
  let ?started = "chat_async_read (?new\<lparr>joined := length (chat_log srv1)\<rparr>)"
  have st: "chat_session_ok ?started" "client_ok (chat_log srv1) ?started"
    using new by (simp_all add: chat_session_ok_def client_ok_def busy_def chat_writes_def chat_reads_def
        chat_async_read_def posted_def)
  have "chat_on_accept sock_ok srv =
      srv1\<lparr>clients := clients srv @ [?i], chat_sessions := (chat_sessions srv1)[?i := ?started]\<rparr>"
    using s1 by (simp add: chat_on_accept_def Let_def srv1_def)
  then show ?thesis
    using ok1 st s1 fresh ok by (auto simp: chat_ok_def nth_list_update)
qed

lemma chat_ok_read:
  assumes ok: "chat_ok srv" and i: "i < length (chat_sessions srv)"
    and p: "chat_pending (chat_sessions srv ! i) = xs @ Chat_read # ys"
  shows "chat_ok (chat_on_read endpoint i ec n (start_op i (xs @ ys) arrived srv))"
proof -
  let ?s = "chat_sessions srv ! i"
  have w: "chat_session_ok ?s" using ok i by (simp add: chat_ok_def)
  show ?thesis
  proof (cases ec)
    case True
    let ?s' = "?s\<lparr>chat_pending := xs @ ys, streambuf := streambuf ?s @ arrived, chat_open := False\<rparr>"
    have "chat_session_ok ?s'"
      using w p by (auto simp: chat_session_ok_def busy_def chat_writes_def chat_reads_def)
    from chat_ok_error [OF ok i this] True i show ?thesis
      by (simp add: chat_on_read_def chat_close_def start_op_def)
  next
    case False
    let ?s' = "?s\<lparr>chat_pending := xs @ ys, streambuf := []\<rparr>"
    let ?m = "endpoint @ '': '' @ streambuf ?s @ arrived"
    let ?mid = "srv\<lparr>chat_sessions := (chat_sessions srv)[i := ?s']\<rparr>"
    let ?out = "server_post ?m ?mid"
    have s': "chat_session_ok ?s'" "chat_reads ?s' = []"
      using w p by (auto simp: chat_session_ok_def busy_def chat_writes_def chat_reads_def)
    have "client_ok (chat_log srv) ?s'" if "i \<in> set (clients srv)"
      using ok that p by (auto simp: chat_ok_def client_ok_def busy_def chat_writes_def posted_def)
    from chat_ok_post [OF chat_ok_update [OF ok i s'(1) this]] have okm: "chat_ok ?out" .
    have r: "chat_reads (chat_sessions ?out ! i) = []"
      using s'(2) i ok by (simp add: server_post_def post_clients_nth chat_ok_def)
    have io: "i < length (chat_sessions ?out)" using i by simp
    have "chat_session_ok (chat_async_read (chat_sessions ?out ! i))"
      using okm io r by (auto simp: chat_ok_def chat_session_ok_def busy_def)
    moreover have "client_ok (chat_log ?out) (chat_async_read (chat_sessions ?out ! i))"
      if "i \<in> set (clients ?out)"
      using okm that by (auto simp: chat_ok_def client_ok_def busy_def)
    ultimately have "chat_ok (?out\<lparr>chat_sessions := (chat_sessions ?out)[i := chat_async_read (chat_sessions ?out ! i)]\<rparr>)"
      using okm io by (intro chat_ok_update)
    then show ?thesis using False i by (simp add: chat_on_read_def start_op_def Let_def)
  qed
qed

lemma chat_ok_write:
  assumes ok: "chat_ok srv" and i: "i < length (chat_sessions srv)"
    and p: "chat_pending (chat_sessions srv ! i) = xs @ Chat_write m # ys"
  shows "\<exists>srv'. chat_on_write i ec (socket_sent i ec m (start_op i (xs @ ys) [] srv)) = Some srv' \<and> chat_ok srv'"
proof -
  let ?s = "chat_sessions srv ! i"
  have w: "chat_session_ok ?s" using ok i by (simp add: chat_ok_def)
  then have one: "outgoing_msgs ?s \<noteq> []" "filter is_chat_write xs = []" "filter is_chat_write ys = []" "busy ?s"
    using p by (auto simp: chat_session_ok_def busy_def chat_writes_def append_eq_Cons_conv split: if_splits)
  have reads: "length (filter (\<lambda>op. \<not> is_chat_write op) (xs @ ys)) \<le> 1"
    using w p by (simp add: chat_session_ok_def chat_reads_def)
  show ?thesis
  proof (cases ec)
    case True
    let ?s' = "?s\<lparr>chat_pending := xs @ ys, chat_open := False\<rparr>"
    have "chat_session_ok ?s'"
      using one reads by (auto simp: chat_session_ok_def chat_writes_def chat_reads_def)
    from chat_ok_error [OF ok i this] True i show ?thesis
      by (simp add: chat_on_write_def chat_close_def start_op_def socket_sent_def)
  next
    case False
    from one(1) obtain q qs where q: "outgoing_msgs ?s = q # qs" by (cases "outgoing_msgs ?s") auto
    have m: "m = q" using one(2-4) p q by (simp add: busy_def chat_writes_def)
    let ?s' = "?s\<lparr>chat_pending := xs @ ys @ (if qs = [] then [] else [Chat_write (hd qs)]),
        outgoing_msgs := qs, sent_msgs := sent_msgs ?s @ [q]\<rparr>"
    have "busy ?s'" using one by (auto simp: busy_def chat_writes_def)
    moreover have "length (chat_reads ?s') \<le> 1" using reads by (simp add: chat_reads_def)
    ultimately have "chat_session_ok ?s'" by (simp add: chat_session_ok_def)
    moreover have "client_ok (chat_log srv) ?s'" if "i \<in> set (clients srv)"
      using ok that q \<open>busy ?s'\<close> by (auto simp: chat_ok_def client_ok_def posted_def)
    ultimately have "chat_ok (srv\<lparr>chat_sessions := (chat_sessions srv)[i := ?s']\<rparr>)"
      using ok i by (intro chat_ok_update)
    moreover have "session_written (?s\<lparr>chat_pending := xs @ ys, streambuf := streambuf ?s @ [], sent_msgs := sent_msgs ?s @ [m]\<rparr>) = Some ?s'"
      using q m by (auto simp: session_written_def Let_def chat_async_write_def intro!: chat_session.equality)
    ultimately show ?thesis using False i by (simp add: chat_on_write_def start_op_def socket_sent_def Let_def)
  qed
qed

lemma chat_ok_reach: "chat_reach srv \<Longrightarrow> chat_ok srv"
proof (induction rule: chat_reach.induct)
  case init
  show ?case by (simp add: chat_ok_def new_chat_server_def)
next
  case (step srv srv')
  from step.hyps(2) show ?case
  proof cases
    case (write_done i xs m ys ec)
    with chat_ok_write [OF step.IH write_done(1,2), of ec] show ?thesis by auto
  qed (use step.IH chat_ok_accept chat_ok_read in auto)
qed

section \<open>Properties\<close>

text \<open>
  C21: every client sees the same conversation. In every reachable state, the texts that the completed
  writes have sent to a client of the set, followed by what is queued for it, are the welcome text and then
  everything that was posted to all since it joined, in the one order of the server; exactly one write is
  pending while something is queued, of the front of the queue; and the texts that two clients get
  are suffixes of one another.
\<close>

theorem chat_total_order:
  assumes "chat_reach srv" "i \<in> set (clients srv)"
  shows "let s = chat_sessions srv ! i
     in sent_msgs s @ outgoing_msgs s = welcome_text # drop (joined s) (chat_log srv) \<and>
        filter is_chat_write (chat_pending s) = (if outgoing_msgs s = [] then [] else [Chat_write (hd (outgoing_msgs s))]) \<and>
        (\<forall>j \<in> set (clients srv). let t = chat_sessions srv ! j
           in joined s \<le> joined t \<longrightarrow> suffix (tl (sent_msgs t @ outgoing_msgs t)) (tl (sent_msgs s @ outgoing_msgs s)))"
proof -
  have ok: "posted (chat_sessions srv ! k) = welcome_text # drop (joined (chat_sessions srv ! k)) (chat_log srv)"
    "busy (chat_sessions srv ! k)" if "k \<in> set (clients srv)" for k
    using chat_ok_reach [OF assms(1)] that by (simp_all add: chat_ok_def client_ok_def)
  have "suffix (drop n xs) (drop m xs)" if "m \<le> n" for m n and xs :: "string list"
    using that by (metis drop_drop le_add_diff_inverse2 suffix_drop)
  then show ?thesis using ok assms(2) by (simp add: Let_def posted_def busy_def chat_writes_def)
qed

text \<open>
  The write loop of a session. At most one read and one write are pending in a session;
  a write always sends the front of the queue, which is not empty then, so the handler never
  pops an empty queue; and a client that is in the set is being written to exactly if
  something is queued for it.
\<close>

theorem chat_write_loop:
  assumes "chat_reach srv" "i < length (chat_sessions srv)"
  shows "let s = chat_sessions srv ! i
     in length (chat_reads s) \<le> 1 \<and> length (chat_writes s) \<le> 1 \<and>
        (\<forall>m. Chat_write m \<in> set (chat_pending s) \<longrightarrow> outgoing_msgs s \<noteq> [] \<and> m = hd (outgoing_msgs s) \<and>
           session_written s \<noteq> None) \<and>
        (i \<in> set (clients srv) \<longrightarrow> (chat_writes s \<noteq> [] \<longleftrightarrow> outgoing_msgs s \<noteq> []))"
proof -
  let ?s = "chat_sessions srv ! i"
  have ok: "chat_session_ok ?s" "i \<in> set (clients srv) \<longrightarrow> busy ?s"
    using chat_ok_reach [OF assms(1)] assms(2) by (simp_all add: chat_ok_def client_ok_def)
  have w: "Chat_write m \<in> set (chat_pending ?s) \<Longrightarrow> Chat_write m \<in> set (chat_writes ?s)" for m
    by (simp add: chat_writes_def)
  have "outgoing_msgs ?s \<noteq> [] \<and> m = hd (outgoing_msgs ?s) \<and> session_written ?s \<noteq> None"
    if "Chat_write m \<in> set (chat_pending ?s)" for m
    using ok(1) w [OF that]
    by (cases "outgoing_msgs ?s") (auto simp: chat_session_ok_def busy_def session_written_def Let_def split: if_splits)
  moreover have "length (chat_reads ?s) \<le> 1" "length (chat_writes ?s) \<le> 1"
    using ok(1) by (auto simp: chat_session_ok_def busy_def)
  moreover have "i \<in> set (clients srv) \<longrightarrow> (chat_writes ?s \<noteq> [] \<longleftrightarrow> outgoing_msgs ?s \<noteq> [])"
    using ok(2) by (auto simp: busy_def)
  ultimately show ?thesis by (simp add: Let_def)
qed

text \<open>A client that has joined.\<close>

lemma one_chatter:
  "chat_reach (chat_on_accept True new_chat_server) \<and> clients (chat_on_accept True new_chat_server) = [0] \<and>
   outgoing_msgs (chat_sessions (chat_on_accept True new_chat_server) ! 0) = [welcome_text] \<and>
   sent_msgs (chat_sessions (chat_on_accept True new_chat_server) ! 0) = [] \<and>
   length (chat_sessions (chat_on_accept True new_chat_server)) = 1"
  using chat_reach.step [OF chat_reach.init chat_step.accepted]
  by (auto simp: chat_on_accept_def Let_def new_chat_server_def server_post_def session_post_def new_session_def
        chat_async_write_def chat_async_read_def)

theorem chat_total_order_witness:
  "\<exists>srv. chat_reach srv \<and> sent_msgs (chat_sessions srv ! 0) @ outgoing_msgs (chat_sessions srv ! 0) = [welcome_text] \<and>
     drop (joined (chat_sessions srv ! 0)) (chat_log srv) = []"
proof -
  have "0 \<in> set (clients (chat_on_accept True new_chat_server))" using one_chatter by simp
  from chat_total_order [OF _ this] one_chatter show ?thesis
    by (intro exI [of _ "chat_on_accept True new_chat_server"]) (simp add: Let_def)
qed

theorem chat_write_loop_witness:
  "\<exists>srv. chat_reach srv \<and> length (chat_writes (chat_sessions srv ! 0)) = 1"
proof -
  let ?srv = "chat_on_accept True new_chat_server"
  have "0 < length (chat_sessions ?srv)" "chat_reach ?srv" using one_chatter by simp_all
  from chat_write_loop [OF this(2,1)] one_chatter have "length (chat_writes (chat_sessions ?srv ! 0)) = 1"
    by (simp add: Let_def) (metis One_nat_def Suc_leI le_antisym length_greater_0_conv)
  with \<open>chat_reach ?srv\<close> show ?thesis by blast
qed

end
