(* ===== verification/Terminal_Server.thy ===== *)
theory Terminal_Server
  imports Main "HOL-Library.Char_ord" "HOL-Library.List_Lexorder"
begin

text \<open>
  The terminal server of \<open>other_ressources/async_io_with_cpp/simple_terminal_server.cpp\<close>: the
  dispatcher with its commands, and a session that reads lines, dispatches them and writes
  the responses.

  A handler of a command is a function on the arguments and on the state of the machine it
  runs on (\<open>'w\<close>: the clock, the working directory), which it may change. Its result is a
  text, an exception with its text, or undefined behaviour. Number formatting, the clock and
  the file system are parameters. The file does not compile as it is (lines 57, 64, 73, 118, 125,
  132, 156, 202, 207, 244, 252: misspelt names, a brace, a stream returned for its text); the model reads
  these lines as they are meant, \<open>wrtie()\<close> as the call of \<open>write()\<close> that starts the first write.
\<close>

section \<open>Commands\<close>

datatype outcome = Text string | Raised string | Undefined

type_synonym 'w handler = "string list \<Rightarrow> 'w \<Rightarrow> outcome \<times> 'w"

record 'w dispatcher_entry =
  description :: string
  args_count :: nat
  handler :: "'w handler"

text \<open>\<open>std::map\<close>: the entries in the order of their keys, each key once.\<close>

type_synonym 'w dispatcher = "(string \<times> 'w dispatcher_entry) list"

text \<open>The tokenizer with a space as separator: the words, no empty ones.\<close>

fun split_words :: "string \<Rightarrow> string \<Rightarrow> string list" where
  "split_words acc [] = (if acc = [] then [] else [acc])"
| "split_words acc (c # cs) =
     (if c = CHR '' '' then (if acc = [] then split_words [] cs else acc # split_words [] cs)
      else split_words (acc @ [c]) cs)"

definition split :: "string \<Rightarrow> string list" where
  "split s = split_words [] s"

text \<open>\<open>attach\<close>: \<open>emplace\<close> keeps an entry that is there already. The pattern has a word.\<close>

definition attach :: "string \<Rightarrow> string \<Rightarrow> 'w handler \<Rightarrow> 'w dispatcher \<Rightarrow> 'w dispatcher" where
  "attach pattern descr f d =
     (let cmd = split pattern
      in if map_of d (hd cmd) \<noteq> None then d
         else insort_key fst (hd cmd, \<lparr>description = descr, args_count = length cmd - 1, handler = f\<rparr>) d)"

text \<open>The client_commands that \<open>main\<close> attaches; the actions that need the machine are parameters.\<close>

definition cd_handler :: "(string \<Rightarrow> 'w \<Rightarrow> string + 'w) \<Rightarrow> ('w \<Rightarrow> string) \<Rightarrow> 'w handler" where
  "cd_handler chdir cwd args w =
     (case args of
        [] \<Rightarrow> (Undefined, w)
      | a # _ \<Rightarrow>
          (case chdir a w of
             Inl e \<Rightarrow> (Raised e, w)
           | Inr w' \<Rightarrow> (Text (''Working directory: '' @ cwd w'), w')))"

definition mul_handler :: "(string \<Rightarrow> 'n option) \<Rightarrow> ('n \<Rightarrow> 'n \<Rightarrow> 'n) \<Rightarrow> ('n \<Rightarrow> string) \<Rightarrow> string \<Rightarrow> 'w handler" where
  "mul_handler parse_num mult show_num bad args w =
     (case args of
        x # y # _ \<Rightarrow>
          (case parse_num x of
             None \<Rightarrow> (Raised bad, w)
           | Some a \<Rightarrow>
               (case parse_num y of
                  None \<Rightarrow> (Raised bad, w)
                | Some b \<Rightarrow> (Text (show_num (mult a b)), w)))
      | _ \<Rightarrow> (Undefined, w))"

definition main_dispatcher ::
  "('w \<Rightarrow> string) \<Rightarrow> ('w \<Rightarrow> string) \<Rightarrow> ('w \<Rightarrow> string) \<Rightarrow> (string \<Rightarrow> 'w \<Rightarrow> string + 'w) \<Rightarrow> 'w handler \<Rightarrow> 'w dispatcher" where
  "main_dispatcher now cwd listing chdir mul =
     attach ''mul % %'' ''Multiply two numbers'' mul
     (attach ''cd'' ''Change current working directory'' (cd_handler chdir cwd)
     (attach ''dir'' ''Print working directorys content'' (\<lambda>args w. (Text (listing w), w))
     (attach ''pwd'' ''Print working directory'' (\<lambda>args w. (Text (cwd w), w))
     (attach ''date'' ''Print current date and time'' (\<lambda>args w. (Text (now w), w)) []))))"

section \<open>Dispatch\<close>

text \<open>\<open>args[0]\<close> of an empty vector is undefined behaviour.\<close>

definition parse :: "string \<Rightarrow> (string \<times> string list) option" where
  "parse s = (case split s of [] \<Rightarrow> None | name # args \<Rightarrow> Some (name, args))"

definition crlf :: string where
  "crlf = [CHR 0x0D, CHR 0x0A]"

definition lfcr :: string where
  "lfcr = [CHR 0x0A, CHR 0x0D]"

definition unknown_command :: "'w dispatcher \<Rightarrow> string" where
  "unknown_command d = ''Command not found. Available commands:'' @ lfcr @
     concat (map (\<lambda>(cmd, entry). ''- '' @ cmd @ '': '' @ description entry @ lfcr) d)"

text \<open>The response to a line; \<open>show_nat\<close> prints a number. \<open>None\<close> is undefined behaviour.\<close>

definition respond ::
  "(nat \<Rightarrow> string) \<Rightarrow> 'w dispatcher \<Rightarrow> string \<Rightarrow> 'w \<Rightarrow> (string \<times> 'w) option" where
  "respond show_nat d line w =
     (case parse line of
        None \<Rightarrow> None
      | Some (name, args) \<Rightarrow>
          (case map_of d name of
             None \<Rightarrow> Some (unknown_command d, w)
           | Some entry \<Rightarrow>
               if args_count entry = length args then
                 (case handler entry args w of
                    (Text t, w') \<Rightarrow> Some (t, w')
                  | (Raised e, w') \<Rightarrow> Some (''An error has occured: '' @ e, w')
                  | (Undefined, w') \<Rightarrow> None)
               else Some (''Wrong arguments count. Expected: '' @ show_nat (args_count entry) @
                          '' , provided: '' @ show_nat (length args), w)))"

text \<open>
  What a command is to be answered, and what it does to the machine: its first word is looked up, the
  number of the others compared, and the handler called, or the client told what is wrong.
\<close>

inductive answers :: "(nat \<Rightarrow> string) \<Rightarrow> 'w dispatcher \<Rightarrow> 'w \<Rightarrow> string \<Rightarrow> string \<Rightarrow> 'w \<Rightarrow> bool"
  for show_nat :: "nat \<Rightarrow> string" and d :: "'w dispatcher" and w :: 'w and line :: string where
  unknown: "split line = name # args \<Longrightarrow> name \<notin> fst ` set d \<Longrightarrow> answers show_nat d w line (unknown_command d) w"
| wrong_count: "split line = name # args \<Longrightarrow> map_of d name = Some e \<Longrightarrow> length args \<noteq> args_count e \<Longrightarrow>
     answers show_nat d w line (''Wrong arguments count. Expected: '' @ show_nat (args_count e) @
       '' , provided: '' @ show_nat (length args)) w"
| handled: "split line = name # args \<Longrightarrow> map_of d name = Some e \<Longrightarrow> length args = args_count e \<Longrightarrow>
     handler e args w = (Text t, w') \<Longrightarrow> answers show_nat d w line t w'"
| raised: "split line = name # args \<Longrightarrow> map_of d name = Some e \<Longrightarrow> length args = args_count e \<Longrightarrow>
     handler e args w = (Raised t, w') \<Longrightarrow> answers show_nat d w line (''An error has occured: '' @ t) w'"

lemma respond_answers:
  assumes "respond show_nat d line w = Some (r, w')"
  shows "answers show_nat d w line r w'"
proof -
  from assms obtain name args where p: "split line = name # args"
    by (auto simp: respond_def parse_def split: list.splits)
  show ?thesis
  proof (cases "map_of d name")
    case None
    with assms p answers.unknown [OF p] show ?thesis by (auto simp: respond_def parse_def map_of_eq_None_iff)
  next
    case (Some e)
    with assms p answers.wrong_count [OF p Some] answers.handled [OF p Some] answers.raised [OF p Some] show ?thesis
      by (auto simp: respond_def parse_def split: if_splits prod.splits outcome.splits)
  qed
qed

section \<open>Sessions\<close>

datatype term_op = Read_line | Write_text string

text \<open>
  \<open>lines_read\<close>, \<open>written\<close> and \<open>write_failed\<close> are what has gone through the socket: the first line in
  the buffer at each completed read, the texts that the completed writes were given, and whether one
  has failed. They are kept in \<open>term_step\<close>, no handler touches them.
\<close>

record 'w term_session =
  term_pending :: "term_op list"
  incoming_buffer :: string
  outgoing :: "string list"
  term_open :: bool
  machine :: 'w
  lines_read :: "string list"
  written :: "string list"
  write_failed :: bool

definition push_text :: "string \<Rightarrow> 'w term_session \<Rightarrow> 'w term_session" where
  "push_text s t = t\<lparr>outgoing := outgoing t @ [s @ crlf @ ''> '']\<rparr>"

definition term_write :: "'w term_session \<Rightarrow> 'w term_session" where
  "term_write t = t\<lparr>term_pending := term_pending t @ [Write_text (hd (outgoing t))]\<rparr>"

definition term_read :: "'w term_session \<Rightarrow> 'w term_session" where
  "term_read t = t\<lparr>term_pending := term_pending t @ [Read_line]\<rparr>"

definition start_session :: "'w \<Rightarrow> 'w term_session" where
  "start_session w =
     term_read (term_write (push_text ''Welcome to my terminal server!''
       \<lparr>term_pending = [], incoming_buffer = [], outgoing = [], term_open = True, machine = w,
        lines_read = [], written = [], write_failed = False\<rparr>))"

definition dispatch :: "(nat \<Rightarrow> string) \<Rightarrow> 'w dispatcher \<Rightarrow> string \<Rightarrow> 'w term_session \<Rightarrow> 'w term_session option" where
  "dispatch show_nat d line t =
     (case respond show_nat d line (machine t) of
        None \<Rightarrow> None
      | Some (response, w') \<Rightarrow>
          let t1 = push_text response (t\<lparr>machine := w'\<rparr>)
          in Some (if length (outgoing t1) = 1 then term_write t1 else t1))"

definition is_space :: "char \<Rightarrow> bool" where
  "is_space c \<longleftrightarrow> c \<in> {CHR '' '', CHR 0x09, CHR 0x0A, CHR 0x0B, CHR 0x0C, CHR 0x0D}"

definition trim :: "string \<Rightarrow> string" where
  "trim s = rev (dropWhile is_space (rev (dropWhile is_space s)))"

text \<open>
  \<open>on_read\<close> without an error: \<open>getline\<close> takes the line and its end out of the buffer; the
  \<open>consume\<close> after it takes the same number of characters once more, as far as there are any.
\<close>

definition term_on_read ::
  "(nat \<Rightarrow> string) \<Rightarrow> 'w dispatcher \<Rightarrow> nat \<Rightarrow> 'w term_session \<Rightarrow> 'w term_session option" where
  "term_on_read show_nat d bytes_transferred t =
     (let buf = incoming_buffer t;
          line = takeWhile (\<lambda>c. c \<noteq> CHR 0x0A) buf;
          rest = drop (Suc (length line)) buf;
          t1 = t\<lparr>incoming_buffer := drop bytes_transferred rest\<rparr>;
          line = trim line
      in map_option term_read (if line \<noteq> [] then dispatch show_nat d line t1 else Some t1))"

definition term_on_write :: "'w term_session \<Rightarrow> 'w term_session option" where
  "term_on_write t =
     (case outgoing t of
        [] \<Rightarrow> None
      | s # ss \<Rightarrow>
          let t1 = t\<lparr>outgoing := ss\<rparr>
          in Some (if ss \<noteq> [] then term_write t1 else t1))"

text \<open>Completions. A read completes when a line's end has arrived, with its position.\<close>

definition first_line :: "string \<Rightarrow> string" where
  "first_line buf = takeWhile (\<lambda>c. c \<noteq> CHR 0x0A) buf"

inductive term_step :: "(nat \<Rightarrow> string) \<Rightarrow> 'w dispatcher \<Rightarrow> 'w term_session \<Rightarrow> 'w term_session \<Rightarrow> bool"
  for show_nat :: "nat \<Rightarrow> string" and d :: "'w dispatcher" where
  arrived: "term_step show_nat d t (t\<lparr>incoming_buffer := incoming_buffer t @ bs\<rparr>)"
| read_done: "term_pending t = xs @ Read_line # ys \<Longrightarrow> CHR 0x0A \<in> set (incoming_buffer t) \<Longrightarrow>
     term_on_read show_nat d (Suc (length (first_line (incoming_buffer t))))
       (t\<lparr>term_pending := xs @ ys, lines_read := lines_read t @ [first_line (incoming_buffer t)]\<rparr>) = Some t' \<Longrightarrow>
     term_step show_nat d t t'"
| read_error: "term_pending t = xs @ Read_line # ys \<Longrightarrow>
     term_step show_nat d t (t\<lparr>term_pending := xs @ ys, term_open := False\<rparr>)"
| write_done: "term_pending t = xs @ Write_text s # ys \<Longrightarrow>
     term_on_write (t\<lparr>term_pending := xs @ ys, written := written t @ [s]\<rparr>) = Some t' \<Longrightarrow> term_step show_nat d t t'"
| write_error: "term_pending t = xs @ Write_text s # ys \<Longrightarrow>
     term_step show_nat d t (t\<lparr>term_pending := xs @ ys, write_failed := True\<rparr>)"

inductive term_reach :: "(nat \<Rightarrow> string) \<Rightarrow> 'w dispatcher \<Rightarrow> 'w \<Rightarrow> 'w term_session \<Rightarrow> bool"
  for show_nat :: "nat \<Rightarrow> string" and d :: "'w dispatcher" and w0 :: 'w where
  init: "term_reach show_nat d w0 (start_session w0)"
| step: "term_reach show_nat d w0 t \<Longrightarrow> term_step show_nat d t t' \<Longrightarrow> term_reach show_nat d w0 t'"

section \<open>The invariant\<close>

text \<open>
  The commands of a client are the lines that were read, trimmed, apart from empty ones. Commands carried
  out one after the other from the machine \<open>w0\<close>, with their responses and the machine they lead to.
\<close>

definition client_commands :: "'w term_session \<Rightarrow> string list" where
  "client_commands t = filter (\<lambda>l. l \<noteq> []) (map trim (lines_read t))"

inductive carried_out :: "(nat \<Rightarrow> string) \<Rightarrow> 'w dispatcher \<Rightarrow> 'w \<Rightarrow> string list \<Rightarrow> string list \<Rightarrow> 'w \<Rightarrow> bool"
  for show_nat :: "nat \<Rightarrow> string" and d :: "'w dispatcher" and w0 :: 'w where
  none: "carried_out show_nat d w0 [] [] w0"
| next_one: "carried_out show_nat d w0 ls rs w \<Longrightarrow> answers show_nat d w l r w' \<Longrightarrow>
     carried_out show_nat d w0 (ls @ [l]) (rs @ [r]) w'"

definition prompt :: "string \<Rightarrow> string" where
  "prompt s = s @ crlf @ ''> ''"

fun is_text_write :: "term_op \<Rightarrow> bool" where
  "is_text_write (Write_text s) = True"
| "is_text_write Read_line = False"

definition term_writes :: "'w term_session \<Rightarrow> term_op list" where
  "term_writes t = filter is_text_write (term_pending t)"

definition term_reads :: "'w term_session \<Rightarrow> term_op list" where
  "term_reads t = filter (\<lambda>op. \<not> is_text_write op) (term_pending t)"

text \<open>One write is pending while something is queued, of the front of the queue, unless a write has failed.\<close>

definition loop_ok :: "'w term_session \<Rightarrow> bool" where
  "loop_ok t \<longleftrightarrow> length (term_reads t) \<le> 1 \<and>
     (if write_failed t then term_writes t = [] \<and> outgoing t \<noteq> []
      else term_writes t = (if outgoing t = [] then [] else [Write_text (hd (outgoing t))]))"

text \<open>The commands of a session and its texts, sent or queued.\<close>

definition talk :: "'w term_session \<Rightarrow> string list \<times> string list" where
  "talk t = (client_commands t, written t @ outgoing t)"

lemmas term_defs = term_read_def term_write_def push_text_def term_writes_def term_reads_def prompt_def Let_def

lemma loop_ok_writes:
  "loop_ok t \<Longrightarrow> \<not> write_failed t \<Longrightarrow>
     filter is_text_write (term_pending t) = (if outgoing t = [] then [] else [Write_text (hd (outgoing t))])"
  by (simp add: loop_ok_def term_writes_def)

lemma loop_ok_start: "loop_ok (start_session w)"
  by (simp add: loop_ok_def start_session_def term_defs)

lemma loop_ok_machine [simp]:
  "loop_ok (t\<lparr>machine := w\<rparr>) = loop_ok t" "loop_ok (t\<lparr>incoming_buffer := b\<rparr>) = loop_ok t"
  "loop_ok (t\<lparr>lines_read := ls\<rparr>) = loop_ok t" "loop_ok (t\<lparr>term_pending := ops, term_open := c\<rparr>) = loop_ok (t\<lparr>term_pending := ops\<rparr>)"
  "talk (t\<lparr>machine := w\<rparr>) = talk t" "talk (t\<lparr>incoming_buffer := b\<rparr>) = talk t"
  by (simp_all add: loop_ok_def term_writes_def term_reads_def talk_def client_commands_def)

text \<open>A command of \<open>t\<close> is carried out, and \<open>t'\<close> comes of it; the line has been read already.\<close>

definition dispatched ::
  "(nat \<Rightarrow> string) \<Rightarrow> 'w dispatcher \<Rightarrow> string \<Rightarrow> string \<Rightarrow> 'w term_session \<Rightarrow> 'w term_session \<Rightarrow> bool" where
  "dispatched show_nat d line r t t' \<longleftrightarrow> answers show_nat d (machine t) line r (machine t') \<and>
     talk t' = (client_commands t @ [line], (written t @ outgoing t) @ [prompt r])"

lemma dispatch_effect:
  assumes "dispatch show_nat d line t = Some t'" "loop_ok t"
  shows "\<exists>r. answers show_nat d (machine t) line r (machine t') \<and> client_commands t' = client_commands t \<and>
    written t' @ outgoing t' = (written t @ outgoing t) @ [prompt r]"
    and "loop_ok t' \<and> term_reads t' = term_reads t"
proof -
  from assms(1) obtain r w' where "respond show_nat d line (machine t) = Some (r, w')"
    by (auto simp: dispatch_def split: option.splits)
  with assms(1) show "\<exists>r. answers show_nat d (machine t) line r (machine t') \<and> client_commands t' = client_commands t \<and>
      written t' @ outgoing t' = (written t @ outgoing t) @ [prompt r]"
    by (intro exI [of _ r]) (auto simp: dispatch_def term_defs client_commands_def dest: respond_answers)
  show "loop_ok t' \<and> term_reads t' = term_reads t"
    using assms by (cases "outgoing t") (auto simp: dispatch_def loop_ok_def term_defs split: option.splits)
qed

lemma loop_ok_read: "loop_ok t \<Longrightarrow> term_reads t = [] \<Longrightarrow> loop_ok (term_read t)"
  by (simp add: loop_ok_def term_defs split: if_splits)

lemma talk_read [simp]: "talk (term_read t) = talk t" "machine (term_read t) = machine t"
  by (simp_all add: talk_def term_read_def client_commands_def)

lemma term_on_read_effect:
  assumes r: "term_on_read show_nat d n (t\<lparr>lines_read := lines_read t @ [first_line (incoming_buffer t)]\<rparr>) = Some t'"
    and ok: "loop_ok t" "term_reads t = []"
  shows "loop_ok t' \<and> (machine t' = machine t \<and> talk t' = talk t \<or> (\<exists>line r. dispatched show_nat d line r t t'))"
proof -
  let ?line = "first_line (incoming_buffer t)"
  let ?t = "t\<lparr>lines_read := lines_read t @ [?line], incoming_buffer := drop n (drop (Suc (length ?line)) (incoming_buffer t))\<rparr>"
  have t1: "loop_ok ?t" "term_reads ?t = []" using ok by (simp_all add: term_reads_def)
  have buf: "t\<lparr>lines_read := ls, incoming_buffer := b\<rparr> = t\<lparr>incoming_buffer := b, lines_read := ls\<rparr>" for b ls
    by simp
  show ?thesis
  proof (cases "trim ?line = []")
    case True
    with r have "t' = term_read ?t" by (simp add: term_on_read_def first_line_def Let_def)
    with t1 True show ?thesis by (simp add: loop_ok_read) (simp add: talk_def client_commands_def)
  next
    case False
    with r obtain t2 where t2: "dispatch show_nat d (trim ?line) ?t = Some t2" "t' = term_read t2"
      by (auto simp: term_on_read_def first_line_def Let_def)
    have "loop_ok t'" using dispatch_effect(2) [OF t2(1) t1(1)] t1(2) t2(2) by (simp add: loop_ok_read)
    moreover obtain r where "answers show_nat d (machine t) (trim ?line) r (machine t2)" "client_commands t2 = client_commands ?t"
      "written t2 @ outgoing t2 = (written t @ outgoing t) @ [prompt r]" using dispatch_effect(1) [OF t2(1) t1(1)] by auto
    then have "dispatched show_nat d (trim ?line) r t t2" using False by (simp add: dispatched_def talk_def client_commands_def)
    then have "dispatched show_nat d (trim ?line) r t t'" unfolding dispatched_def t2(2) by simp
    ultimately show ?thesis by blast
  qed
qed

lemma pending_split:
  assumes "loop_ok t" "term_pending t = xs @ op # ys"
  shows "\<not> is_text_write op \<Longrightarrow> loop_ok (t\<lparr>term_pending := xs @ ys\<rparr>) \<and> term_reads (t\<lparr>term_pending := xs @ ys\<rparr>) = []"
    and "is_text_write op \<Longrightarrow> \<not> write_failed t \<and> outgoing t \<noteq> [] \<and> op = Write_text (hd (outgoing t)) \<and>
      filter is_text_write (xs @ ys) = [] \<and> length (filter (\<lambda>op. \<not> is_text_write op) (xs @ ys)) \<le> 1"
  using assms by (auto simp: loop_ok_def term_defs append_eq_Cons_conv split: if_splits)

lemma term_step_effect:
  assumes "term_step show_nat d t t'" "loop_ok t"
  shows "loop_ok t' \<and> (machine t' = machine t \<and> talk t' = talk t \<or> (\<exists>line r. dispatched show_nat d line r t t'))"
  using assms(1)
proof cases
  case (arrived bs)
  with assms(2) show ?thesis by simp
next
  case (read_done xs ys)
  from pending_split(1) [OF assms(2) read_done(1)] have ok: "loop_ok (t\<lparr>term_pending := xs @ ys\<rparr>)"
    "term_reads (t\<lparr>term_pending := xs @ ys\<rparr>) = []" by simp_all
  from term_on_read_effect [OF _ ok, of show_nat d _ t'] read_done(3) show ?thesis
    by (simp add: dispatched_def talk_def client_commands_def)
next
  case (read_error xs ys)
  with pending_split(1) [OF assms(2) read_error(2)] show ?thesis by (simp add: talk_def client_commands_def)
next
  case (write_done xs s ys)
  from pending_split(2) [OF assms(2) write_done(1)] have w: "\<not> write_failed t" "outgoing t \<noteq> []" "s = hd (outgoing t)"
    "filter is_text_write (xs @ ys) = []" "length (filter (\<lambda>op. \<not> is_text_write op) (xs @ ys)) \<le> 1" by simp_all
  then obtain ss where ss: "outgoing t = s # ss" by (cases "outgoing t") auto
  then have "t' = (let t1 = t\<lparr>term_pending := xs @ ys, written := written t @ [s], outgoing := ss\<rparr>
      in if ss \<noteq> [] then term_write t1 else t1)"
    using write_done(2) by (simp add: term_on_write_def Let_def)
  then have t': "t' = t\<lparr>term_pending := xs @ ys @ (if ss = [] then [] else [Write_text (hd ss)]),
      written := written t @ [s], outgoing := ss\<rparr>"
    by (cases ss) (simp_all add: term_write_def Let_def)
  from w have "filter is_text_write xs = []" "filter is_text_write ys = []" by simp_all
  with w(1,5) have "loop_ok t'" by (simp add: t' loop_ok_def term_writes_def term_reads_def)
  then show ?thesis using ss by (simp add: t' talk_def client_commands_def)
next
  case (write_error xs s ys)
  with pending_split(2) [OF assms(2) write_error(2)] show ?thesis
    by (simp add: loop_ok_def talk_def client_commands_def term_writes_def term_reads_def)
qed

definition term_ok :: "(nat \<Rightarrow> string) \<Rightarrow> 'w dispatcher \<Rightarrow> 'w \<Rightarrow> 'w term_session \<Rightarrow> bool" where
  "term_ok show_nat d w0 t \<longleftrightarrow> loop_ok t \<and>
     (\<exists>rs. carried_out show_nat d w0 (client_commands t) rs (machine t) \<and>
        written t @ outgoing t = map prompt (''Welcome to my terminal server!'' # rs))"

lemma term_ok_reach: "term_reach show_nat d w0 t \<Longrightarrow> term_ok show_nat d w0 t"
proof (induction rule: term_reach.induct)
  case init
  have "carried_out show_nat d w0 (client_commands (start_session w0)) [] (machine (start_session w0))"
    by (simp add: client_commands_def start_session_def term_defs carried_out.none)
  then show ?case
    using loop_ok_start [of w0] unfolding term_ok_def by (intro conjI exI [of _ "[]"]) (simp_all add: start_session_def term_defs)
next
  case (step t t')
  then obtain rs where rs: "carried_out show_nat d w0 (client_commands t) rs (machine t)"
    "written t @ outgoing t = map prompt (''Welcome to my terminal server!'' # rs)" "loop_ok t" by (auto simp: term_ok_def)
  from term_step_effect [OF step.hyps(2) rs(3)] show ?case
  proof (elim conjE disjE exE)
    assume "loop_ok t'" "machine t' = machine t" "talk t' = talk t"
    with rs show ?thesis by (auto simp: term_ok_def talk_def)
  next
    fix line r assume t': "loop_ok t'" "dispatched show_nat d line r t t'"
    then have "carried_out show_nat d w0 (client_commands t') (rs @ [r]) (machine t')"
      using rs(1) by (auto simp: dispatched_def talk_def intro: carried_out.next_one)
    with t' rs(2) show ?thesis unfolding term_ok_def
      by (intro conjI exI [of _ "rs @ [r]"]) (simp_all add: dispatched_def talk_def)
  qed
qed

section \<open>Properties\<close>

text \<open>
  A terminal session answers in order. What has been written to the client, followed by
  what is queued, is the greeting and then one response for each command that was read,
  in their order, each of them the response on the machine as the commands before it left it; and
  at most one read and one write are pending, the write being of the front of the queue.
\<close>

theorem terminal_answers_in_order:
  assumes "term_reach show_nat d w0 t"
  shows "(\<exists>rs. carried_out show_nat d w0 (client_commands t) rs (machine t) \<and>
      written t @ outgoing t = map prompt (''Welcome to my terminal server!'' # rs)) \<and>
    length (term_reads t) \<le> 1 \<and> length (term_writes t) \<le> 1 \<and>
    (\<forall>op \<in> set (term_writes t). outgoing t \<noteq> [] \<and> op = Write_text (hd (outgoing t)))"
  using term_ok_reach [OF assms] by (auto simp: term_ok_def loop_ok_def split: if_splits)

theorem terminal_answers_in_order_witness:
  "written (start_session ()) @ outgoing (start_session ()) = [prompt ''Welcome to my terminal server!'']"
  using terminal_answers_in_order [OF term_reach.init, of "\<lambda>n. []" "[]" "()"] by (simp add: start_session_def term_defs)

text \<open>
  A second command that arrives together with the first one is lost when its line is not
  longer: \<open>getline\<close> has taken the first line out of the buffer already, and \<open>consume\<close>
  takes as many characters again. Only the first line is answered, the buffer is empty.
\<close>

theorem pipelined_command_lost:
  assumes "CHR 0x0A \<notin> set l1" "length l2 \<le> length l1" "trim l1 \<noteq> []"
    and "incoming_buffer t = l1 @ [CHR 0x0A] @ l2 @ [CHR 0x0A]"
    and "term_on_read show_nat d (Suc (length l1)) t = Some t'"
  shows "incoming_buffer t' = [] \<and>
    (\<exists>r. respond show_nat d (trim l1) (machine t) = Some (r, machine t') \<and> outgoing t' = outgoing t @ [prompt r])"
proof -
  have "takeWhile (\<lambda>c. c \<noteq> CHR 0x0A) (incoming_buffer t) = l1"
    using assms(1,4) by (auto simp: takeWhile_append)
  moreover have "drop (Suc (length l1)) (incoming_buffer t) = l2 @ [CHR 0x0A]" using assms(4) by simp
  ultimately show ?thesis
    using assms(2,3,5)
    by (auto simp: term_on_read_def Let_def dispatch_def term_read_def push_text_def term_write_def prompt_def
        split: if_splits option.splits)
qed

theorem pipelined_command_lost_witness:
  "\<exists>t' r. term_on_read (\<lambda>n. []) [] 4 (start_session ()\<lparr>incoming_buffer := ''abc'' @ [CHR 0x0A] @ ''pwd'' @ [CHR 0x0A]\<rparr>) = Some t' \<and>
     incoming_buffer t' = [] \<and> outgoing t' = outgoing (start_session ()) @ [prompt r]"
proof -
  let ?t = "start_session ()\<lparr>incoming_buffer := ''abc'' @ [CHR 0x0A] @ ''pwd'' @ [CHR 0x0A]\<rparr>"
  have "term_on_read (\<lambda>n. []) [] 4 ?t \<noteq> None"
    by (simp add: term_on_read_def Let_def dispatch_def respond_def parse_def split_def trim_def is_space_def)
  then obtain t' where t': "term_on_read (\<lambda>n. []) [] 4 ?t = Some t'" by blast
  have "CHR 0x0A \<notin> set ''abc''" "length ''pwd'' \<le> length ''abc''" "trim ''abc'' \<noteq> []" by (simp_all add: trim_def is_space_def)
  moreover have "incoming_buffer ?t = ''abc'' @ [CHR 0x0A] @ ''pwd'' @ [CHR 0x0A]" by simp
  moreover have "term_on_read (\<lambda>n. []) [] (Suc (length ''abc'')) ?t = Some t'" using t' by (simp add: numeral_eq_Suc)
  ultimately have "incoming_buffer t' = [] \<and> (\<exists>r. respond (\<lambda>n. []) [] (trim ''abc'') (machine ?t) = Some (r, machine t') \<and>
      outgoing t' = outgoing ?t @ [prompt r])"
    by (rule pipelined_command_lost)
  with t' show ?thesis by auto
qed

text \<open>The dispatcher as a map.\<close>

lemma map_of_insort_key:
  "map_of d k = None \<Longrightarrow> map_of (insort_key fst (k, e) d) = (map_of d)(k \<mapsto> e)"
  by (induction d) (auto simp: fun_eq_iff split: if_splits)

lemma map_of_attach:
  "map_of (attach pattern descr f d) k =
     (if k = hd (split pattern) \<and> map_of d k = None
      then Some \<lparr>description = descr, args_count = length (split pattern) - 1, handler = f\<rparr> else map_of d k)"
  by (auto simp: attach_def Let_def map_of_insort_key)

lemma split_commands [simp]:
  "split ''cd'' = [''cd'']" "split ''mul % %'' = [''mul'', ''%'', ''%'']" "split ''pwd'' = [''pwd'']"
  "split ''dir'' = [''dir'']" "split ''date'' = [''date'']"
  by (simp_all add: split_def)

lemma lookup_cd:
  "map_of (main_dispatcher now cwd listing chdir mul) ''cd'' =
     Some \<lparr>description = ''Change current working directory'', args_count = 0, handler = cd_handler chdir cwd\<rparr>"
  by (simp add: main_dispatcher_def map_of_attach)

text \<open>
  The \<open>cd\<close> command cannot be used. It is attached without a place for an argument, so
  \<open>cd\<close> with arguments is refused and the directory stays; and \<open>cd\<close> alone is accepted, but
  its handler reads the first element of an empty vector.
\<close>

theorem cd_never_works:
  assumes "parse line = Some (''cd'', args)"
  shows "respond show_nat (main_dispatcher now cwd listing chdir mul) line w =
     (if args = [] then None
      else Some (''Wrong arguments count. Expected: '' @ show_nat 0 @ '' , provided: '' @ show_nat (length args), w))"
  using assms by (simp add: respond_def lookup_cd cd_handler_def)

theorem cd_never_works_witness:
  "respond (\<lambda>n. replicate n CHR ''I'') (main_dispatcher (\<lambda>w. []) (\<lambda>w. w) (\<lambda>w. []) (\<lambda>a w. Inr a) (\<lambda>args w. (Undefined, w)))
     ''cd etc'' ''home'' = Some (''Wrong arguments count. Expected:  , provided: I'', ''home'')"
proof -
  have "parse ''cd etc'' = Some (''cd'', [''etc''])" by (simp add: parse_def split_def)
  from cd_never_works [OF this, of "\<lambda>n. replicate n CHR ''I''" "\<lambda>w. []" "\<lambda>w. w" "\<lambda>w. []" "\<lambda>a w. Inr a" "\<lambda>args w. (Undefined, w)" "''home''"]
  show ?thesis by simp
qed

end
