(* ===== verification/Terminal_Shared.thy ===== *)
theory Terminal_Shared
  imports Terminal_Server
begin

text \<open>
  The server of \<open>other_ressources/async_io_with_cpp/simple_terminal_server.cpp\<close> with all its
  sessions. What a command can change, the working directory, belongs to the process, so the
  sessions share it: a session that takes a step works on the machine as the last step of any
  session left it. The sessions' commands turn out to be serialised: there is one order of
  them all in which each response is the one of its command.
\<close>

section \<open>The server\<close>

text \<open>The handler of an accept does not look at the error; it makes a session and accepts the next client.\<close>

record 'w term_server =
  term_accepting :: nat
  term_sessions :: "'w term_session list"
  term_log :: "string list"
  shared :: 'w

definition term_accept :: "'w term_server \<Rightarrow> 'w term_server" where
  "term_accept v = v\<lparr>term_accepting := Suc (term_accepting v)\<rparr>"

definition new_term_server :: "'w \<Rightarrow> 'w term_server" where
  "new_term_server w = term_accept
     \<lparr>term_accepting = 0, term_sessions = [], term_log = [''[SERVER]: Server initialized''], shared = w\<rparr>"

definition term_on_accept :: "bool \<Rightarrow> 'w term_server \<Rightarrow> 'w term_server" where
  "term_on_accept ec v = term_accept (v\<lparr>term_sessions := term_sessions v @ [start_session (shared v)]\<rparr>)"

inductive shared_step :: "(nat \<Rightarrow> string) \<Rightarrow> 'w dispatcher \<Rightarrow> 'w term_server \<Rightarrow> 'w term_server \<Rightarrow> bool"
  for show_nat :: "nat \<Rightarrow> string" and d :: "'w dispatcher" where
  accepted: "term_accepting v = Suc n \<Longrightarrow> shared_step show_nat d v (term_on_accept ec (v\<lparr>term_accepting := n\<rparr>))"
| session: "i < length (term_sessions v) \<Longrightarrow>
     term_step show_nat d ((term_sessions v ! i)\<lparr>machine := shared v\<rparr>) t' \<Longrightarrow>
     shared_step show_nat d v (v\<lparr>term_sessions := (term_sessions v)[i := t'], shared := machine t'\<rparr>)"

inductive shared_reach :: "(nat \<Rightarrow> string) \<Rightarrow> 'w dispatcher \<Rightarrow> 'w \<Rightarrow> 'w term_server \<Rightarrow> bool"
  for show_nat :: "nat \<Rightarrow> string" and d :: "'w dispatcher" and w0 :: 'w where
  init: "shared_reach show_nat d w0 (new_term_server w0)"
| step: "shared_reach show_nat d w0 v \<Longrightarrow> shared_step show_nat d v v' \<Longrightarrow> shared_reach show_nat d w0 v'"

section \<open>One order of all commands\<close>

text \<open>An entry of a history: the session, its line and the response to it.\<close>

type_synonym entry = "nat \<times> string \<times> string"

definition of_session :: "nat \<Rightarrow> entry list \<Rightarrow> (string \<times> string) list" where
  "of_session i hist = map snd (filter (\<lambda>e. fst e = i) hist)"

lemma of_session_simps [simp]:
  "of_session i [] = []"
  "of_session i (hist @ [(j, x)]) = of_session i hist @ (if j = i then [x] else [])"
  by (simp_all add: of_session_def)

definition greeting :: string where
  "greeting = ''Welcome to my terminal server!''"

text \<open>
  A history explains a server: its commands, carried out from the first machine, give its responses and the
  machine as it is now, and each session has the commands and texts of its own entries.
\<close>

definition explains ::
  "(nat \<Rightarrow> string) \<Rightarrow> 'w dispatcher \<Rightarrow> 'w \<Rightarrow> entry list \<Rightarrow> 'w term_server \<Rightarrow> bool" where
  "explains show_nat d w0 hist v \<longleftrightarrow>
     carried_out show_nat d w0 (map (fst \<circ> snd) hist) (map (snd \<circ> snd) hist) (shared v) \<and>
     (\<forall>i < length (term_sessions v). loop_ok (term_sessions v ! i) \<and> talk (term_sessions v ! i) =
        (map fst (of_session i hist), map prompt (greeting # map snd (of_session i hist)))) \<and>
     (\<forall>i. length (term_sessions v) \<le> i \<longrightarrow> of_session i hist = [])"

lemma explains_start: "explains show_nat d w0 [] (new_term_server w0)"
  by (simp add: explains_def new_term_server_def term_accept_def carried_out.none)

lemma explains_accept:
  assumes "explains show_nat d w0 hist v"
  shows "explains show_nat d w0 hist (term_on_accept ec (v\<lparr>term_accepting := n\<rparr>))"
proof -
  have "talk (start_session w) = ([], [prompt greeting])" for w :: 'a
    by (simp add: talk_def client_commands_def start_session_def term_defs greeting_def)
  with assms show ?thesis
    by (auto simp: explains_def term_on_accept_def term_accept_def nth_append less_Suc_eq loop_ok_start)
qed

lemma explains_session:
  assumes ex: "explains show_nat d w0 hist v" and i: "i < length (term_sessions v)"
    and st: "term_step show_nat d ((term_sessions v ! i)\<lparr>machine := shared v\<rparr>) t'"
  shows "\<exists>hist'. explains show_nat d w0 hist' (v\<lparr>term_sessions := (term_sessions v)[i := t'], shared := machine t'\<rparr>)"
proof -
  let ?t = "(term_sessions v ! i)\<lparr>machine := shared v\<rparr>"
  let ?v = "v\<lparr>term_sessions := (term_sessions v)[i := t'], shared := machine t'\<rparr>"
  have old: "loop_ok ?t" "talk ?t = (map fst (of_session i hist), map prompt (greeting # map snd (of_session i hist)))"
    using ex i by (simp_all add: explains_def)
  from term_step_effect [OF st old(1)] have loop: "loop_ok t'"
    and "machine t' = machine ?t \<and> talk t' = talk ?t \<or> (\<exists>line r. dispatched show_nat d line r ?t t')" by simp_all
  then show ?thesis
  proof (elim disjE exE)
    assume "machine t' = machine ?t \<and> talk t' = talk ?t"
    with old ex i loop have "explains show_nat d w0 hist ?v" by (simp add: explains_def nth_list_update)
    then show ?thesis ..
  next
    fix line r assume lr: "dispatched show_nat d line r ?t t'"
    let ?hist = "hist @ [(i, line, r)]"
    have "carried_out show_nat d w0 (map (fst \<circ> snd) ?hist) (map (snd \<circ> snd) ?hist) (machine t')"
      using ex lr by (auto simp: explains_def dispatched_def intro: carried_out.next_one)
    moreover have "talk t' = (map fst (of_session i ?hist), map prompt (greeting # map snd (of_session i ?hist)))"
      using old(2) lr by (simp add: talk_def dispatched_def)
    ultimately have "explains show_nat d w0 ?hist ?v" using ex i loop by (simp add: explains_def nth_list_update)
    then show ?thesis ..
  qed
qed

lemma shared_explained: "shared_reach show_nat d w0 v \<Longrightarrow> \<exists>hist. explains show_nat d w0 hist v"
proof (induction rule: shared_reach.induct)
  case init
  show ?case by (rule exI) (rule explains_start)
next
  case (step v v')
  from step.IH obtain hist where h: "explains show_nat d w0 hist v" ..
  from step.hyps(2) show ?case
    by cases (use explains_accept [OF h] explains_session [OF h] in blast)+
qed

lemma accepting_one: "shared_reach show_nat d w0 v \<Longrightarrow> term_accepting v = 1"
proof (induction rule: shared_reach.induct)
  case (step v v')
  from step.hyps(2) step.IH show ?case by cases (simp_all add: term_on_accept_def term_accept_def)
qed (simp add: new_term_server_def term_accept_def)

section \<open>Properties\<close>

text \<open>
  C22: the commands of all clients of the terminal server take effect one after the other.
  In every reachable state there is one order of all commands, the lines that the sessions have
  read, such that carrying them out from the first machine, each as \<open>answers\<close> says, gives exactly the
  recorded responses and the machine as it is; the completed writes of each client have sent, and its
  queue holds, the greeting and then the client's own responses in that order, each once; one write is pending
  while something is queued, of the front of the queue, unless a write of that client has failed; and one accept is pending.
\<close>
theorem terminal_serialised:
  assumes "shared_reach show_nat d w0 v"
  shows "\<exists>hist. carried_out show_nat d w0 (map (fst \<circ> snd) hist) (map (snd \<circ> snd) hist) (shared v) \<and>
    (\<forall>i < length (term_sessions v).
       client_commands (term_sessions v ! i) = map fst (of_session i hist) \<and>
       written (term_sessions v ! i) @ outgoing (term_sessions v ! i) = map prompt (greeting # map snd (of_session i hist)) \<and>
       (\<not> write_failed (term_sessions v ! i) \<longrightarrow> filter is_text_write (term_pending (term_sessions v ! i)) =
          (if outgoing (term_sessions v ! i) = [] then [] else [Write_text (hd (outgoing (term_sessions v ! i)))]))) \<and>
    (\<forall>e \<in> set hist. fst e < length (term_sessions v)) \<and> term_accepting v = 1"
proof -
  from shared_explained [OF assms] obtain hist where h: "explains show_nat d w0 hist v" ..
  have "fst e < length (term_sessions v)" if "e \<in> set hist" for e
  proof (rule ccontr)
    assume "\<not> ?thesis"
    with h have "of_session (fst e) hist = []" by (simp add: explains_def)
    with that show False by (auto simp: of_session_def filter_empty_conv)
  qed
  with h accepting_one [OF assms] show ?thesis
    by (intro exI [of _ hist]) (simp add: explains_def talk_def loop_ok_writes)
qed

theorem terminal_serialised_witness:
  "\<exists>(v :: nat term_server) hist. shared_reach (\<lambda>n. []) [] 0 v \<and> length (term_sessions v) = 1 \<and>
     carried_out (\<lambda>n. []) [] 0 (map (fst \<circ> snd) hist) (map (snd \<circ> snd) hist) (shared v) \<and>
     client_commands (term_sessions v ! 0) = map fst (of_session 0 hist)"
proof -
  let ?v = "term_on_accept False (new_term_server (0 :: nat)\<lparr>term_accepting := 0\<rparr>)"
  have "shared_step (\<lambda>n. []) [] (new_term_server (0 :: nat)) ?v"
    by (rule shared_step.accepted) (simp add: new_term_server_def term_accept_def)
  with shared_reach.init have r: "shared_reach (\<lambda>n. []) [] 0 ?v" by (rule shared_reach.step)
  have len: "length (term_sessions ?v) = 1" by (simp add: term_on_accept_def term_accept_def new_term_server_def)
  from terminal_serialised [OF r] obtain hist where
    "carried_out (\<lambda>n. []) [] 0 (map (fst \<circ> snd) hist) (map (snd \<circ> snd) hist) (shared ?v)"
    "client_commands (term_sessions ?v ! 0) = map fst (of_session 0 hist)" using len by auto
  with r len show ?thesis by (intro exI [of _ ?v] exI [of _ hist] conjI) simp_all
qed

end
