(* ===== verification/Echo_Server.thy ===== *)
theory Echo_Server
  imports Main
begin

text \<open>
  The sessions of two echo servers: \<open>simple_echo_server.cpp\<close>, which reads and writes in turn
  over one stream buffer, and \<open>tcp_echo_server_read_write_decoupled.cpp\<close>, which goes on
  reading while it writes and has a buffer for each direction (both in
  \<open>other_ressources/async_io_with_cpp/\<close>).

  A read of at least one byte appends what has arrived to its buffer; a write sends what its
  buffer holds when the write is started and consumes what it has sent when it completes,
  with an error after a part of it. A read into a full buffer completes with no byte and no error.
  (The second file does not compile as it is: \<open>read\<close> names the buffer \<open>streambuffer_\<close>, which is read as
  \<open>instreambuffer_\<close>, the one the constructor bounds; the closing brace of \<open>on_write\<close> is missing, and
  \<open>Server::accept\<close> leaves out underscores.)
\<close>

datatype echo_op = Echo_read | Echo_write string

fun is_echo_write :: "echo_op \<Rightarrow> bool" where
  "is_echo_write (Echo_write ds) = True"
| "is_echo_write Echo_read = False"

section \<open>Reading and writing in turn\<close>

text \<open>\<open>got\<close> and \<open>echoed\<close> record what has come in and gone out so far.\<close>

record echo_session =
  echo_pending :: "echo_op list"
  streambuffer :: string
  got :: string
  echoed :: string
  echo_log :: "string list"

definition echo_read :: "echo_session \<Rightarrow> echo_session" where
  "echo_read s = s\<lparr>echo_pending := echo_pending s @ [Echo_read]\<rparr>"

definition echo_write :: "echo_session \<Rightarrow> echo_session" where
  "echo_write s = s\<lparr>echo_pending := echo_pending s @ [Echo_write (streambuffer s)]\<rparr>"

definition echo_start :: echo_session where
  "echo_start = echo_read \<lparr>echo_pending = [], streambuffer = [], got = [], echoed = [],
     echo_log = [''[SERVER]: Session initialized.'']\<rparr>"

definition echo_on_read :: "bool \<Rightarrow> echo_session \<Rightarrow> echo_session" where
  "echo_on_read ec s =
     (if \<not> ec then echo_write s
      else s\<lparr>echo_log := echo_log s @ [''[SESSION]: An error occured during data receiving.'']\<rparr>)"

definition echo_on_write :: "bool \<Rightarrow> echo_session \<Rightarrow> echo_session" where
  "echo_on_write ec s =
     (if \<not> ec then echo_read s
      else s\<lparr>echo_log := echo_log s @ [''[SESSION]: An error occured during writing'']\<rparr>)"

definition echo_receive :: "string \<Rightarrow> echo_session \<Rightarrow> echo_session" where
  "echo_receive d s = s\<lparr>streambuffer := streambuffer s @ d, got := got s @ d\<rparr>"

definition echo_transmit :: "string \<Rightarrow> echo_session \<Rightarrow> echo_session" where
  "echo_transmit d s = s\<lparr>streambuffer := drop (length d) (streambuffer s), echoed := echoed s @ d\<rparr>"

inductive echo_step :: "echo_session \<Rightarrow> echo_session \<Rightarrow> bool" where
  arrived: "echo_pending s = xs @ Echo_read # ys \<Longrightarrow> d \<noteq> [] \<Longrightarrow>
     echo_step s (echo_on_read False (echo_receive d (s\<lparr>echo_pending := xs @ ys\<rparr>)))"
| read_failed: "echo_pending s = xs @ Echo_read # ys \<Longrightarrow>
     echo_step s (echo_on_read True (s\<lparr>echo_pending := xs @ ys\<rparr>))"
| written: "echo_pending s = xs @ Echo_write ds # ys \<Longrightarrow>
     echo_step s (echo_on_write False (echo_transmit ds (s\<lparr>echo_pending := xs @ ys\<rparr>)))"
| write_failed: "echo_pending s = xs @ Echo_write ds # ys \<Longrightarrow> k \<le> length ds \<Longrightarrow>
     echo_step s (echo_on_write True (echo_transmit (take k ds) (s\<lparr>echo_pending := xs @ ys\<rparr>)))"

inductive echo_reach :: "echo_session \<Rightarrow> bool" where
  init: "echo_reach echo_start"
| step: "echo_reach s \<Longrightarrow> echo_step s s' \<Longrightarrow> echo_reach s'"

definition echo_ok :: "echo_session \<Rightarrow> bool" where
  "echo_ok s \<longleftrightarrow> echoed s @ streambuffer s = got s \<and>
     (echo_pending s = [] \<or> echo_pending s = [Echo_read] \<and> streambuffer s = [] \<or>
      echo_pending s = [Echo_write (streambuffer s)])"

lemmas echo_defs = echo_read_def echo_write_def echo_on_read_def echo_on_write_def echo_receive_def
  echo_transmit_def echo_ok_def

lemma echo_step_ok: "echo_step s s' \<Longrightarrow> echo_ok s \<Longrightarrow> echo_ok s'"
  by (induction rule: echo_step.induct) (auto simp: echo_defs Cons_eq_append_conv append_eq_Cons_conv)

section \<open>Reading while writing\<close>

text \<open>\<open>copied\<close> records, for each write, how much of the incoming buffer it copied.\<close>

record dec_session =
  dec_pending :: "echo_op list"
  instreambuffer :: string
  outstreambuffer :: string
  writing :: bool
  dec_open :: bool
  dec_log :: "string list"
  dec_got :: string
  dec_echoed :: string
  copied :: "nat list"

definition in_limit :: nat where
  "in_limit = 65536"

definition dec_read :: "dec_session \<Rightarrow> dec_session" where
  "dec_read s = s\<lparr>dec_pending := dec_pending s @ [Echo_read]\<rparr>"

definition dec_start :: dec_session where
  "dec_start = dec_read \<lparr>dec_pending = [], instreambuffer = [], outstreambuffer = [], writing = False,
     dec_open = True, dec_log = [''[SERVER]: Session initialized.''], dec_got = [], dec_echoed = [], copied = []\<rparr>"

definition dec_close :: "dec_session \<Rightarrow> dec_session" where
  "dec_close s = s\<lparr>dec_open := False\<rparr>"

text \<open>The incoming data are copied to the outgoing buffer; they are not consumed.\<close>

definition dec_write :: "dec_session \<Rightarrow> dec_session" where
  "dec_write s =
     (let out = outstreambuffer s @ instreambuffer s
      in s\<lparr>writing := True, outstreambuffer := out, dec_pending := dec_pending s @ [Echo_write out],
           copied := copied s @ [length (instreambuffer s)]\<rparr>)"

definition dec_on_read :: "bool \<Rightarrow> nat \<Rightarrow> dec_session \<Rightarrow> dec_session" where
  "dec_on_read ec bytes_transferred s =
     (if \<not> ec \<and> bytes_transferred \<noteq> 0 then dec_read (if \<not> writing s then dec_write s else s)
      else (dec_close s)\<lparr>dec_log := dec_log s @
        [''[SESSION]: An error occured or the incoming buffer instance is completly full. Droped the session.'']\<rparr>)"

definition dec_on_write :: "bool \<Rightarrow> dec_session \<Rightarrow> dec_session" where
  "dec_on_write ec s =
     (let s = s\<lparr>writing := False\<rparr>
      in if ec then dec_close (s\<lparr>dec_log := dec_log s @
           [''[SESSION]: An error occured during writeing. Dropped the session!'']\<rparr>)
         else s)"

definition dec_receive :: "string \<Rightarrow> dec_session \<Rightarrow> dec_session" where
  "dec_receive d s = s\<lparr>instreambuffer := instreambuffer s @ d, dec_got := dec_got s @ d\<rparr>"

definition dec_transmit :: "string \<Rightarrow> dec_session \<Rightarrow> dec_session" where
  "dec_transmit d s = s\<lparr>outstreambuffer := drop (length d) (outstreambuffer s), dec_echoed := dec_echoed s @ d\<rparr>"

inductive dec_step :: "dec_session \<Rightarrow> dec_session \<Rightarrow> bool" where
  arrived: "dec_pending s = xs @ Echo_read # ys \<Longrightarrow> d \<noteq> [] \<Longrightarrow>
     length (instreambuffer s) + length d \<le> in_limit \<Longrightarrow>
     dec_step s (dec_on_read False (length d) (dec_receive d (s\<lparr>dec_pending := xs @ ys\<rparr>)))"
| full: "dec_pending s = xs @ Echo_read # ys \<Longrightarrow> length (instreambuffer s) = in_limit \<Longrightarrow>
     dec_step s (dec_on_read False 0 (s\<lparr>dec_pending := xs @ ys\<rparr>))"
| read_failed: "dec_pending s = xs @ Echo_read # ys \<Longrightarrow>
     dec_step s (dec_on_read True 0 (s\<lparr>dec_pending := xs @ ys\<rparr>))"
| written: "dec_pending s = xs @ Echo_write ds # ys \<Longrightarrow>
     dec_step s (dec_on_write False (dec_transmit ds (s\<lparr>dec_pending := xs @ ys\<rparr>)))"
| write_failed: "dec_pending s = xs @ Echo_write ds # ys \<Longrightarrow> k \<le> length ds \<Longrightarrow>
     dec_step s (dec_on_write True (dec_transmit (take k ds) (s\<lparr>dec_pending := xs @ ys\<rparr>)))"

inductive dec_reach :: "dec_session \<Rightarrow> bool" where
  init: "dec_reach dec_start"
| step: "dec_reach s \<Longrightarrow> dec_step s s' \<Longrightarrow> dec_reach s'"

definition prefixes_of :: "string \<Rightarrow> nat list \<Rightarrow> string" where
  "prefixes_of bs ks = concat (map (\<lambda>k. take k bs) ks)"

lemma prefixes_of_grow: "\<forall>k \<in> set ks. k \<le> length bs \<Longrightarrow> prefixes_of (bs @ ds) ks = prefixes_of bs ks"
  unfolding prefixes_of_def by (intro arg_cong [where f = concat] map_cong) simp_all

definition dec_writes :: "dec_session \<Rightarrow> echo_op list" where
  "dec_writes s = filter is_echo_write (dec_pending s)"

definition dec_ok :: "dec_session \<Rightarrow> bool" where
  "dec_ok s \<longleftrightarrow> instreambuffer s = dec_got s \<and> length (dec_got s) \<le> in_limit \<and>
     dec_writes s = (if writing s then [Echo_write (outstreambuffer s)] else []) \<and>
     (writing s \<or> dec_got s \<noteq> [] \<longrightarrow> copied s \<noteq> []) \<and>
     sorted_wrt (<) (copied s) \<and> (\<forall>k \<in> set (copied s). 0 < k \<and> k \<le> length (dec_got s)) \<and>
     dec_echoed s @ outstreambuffer s = prefixes_of (dec_got s) (copied s)"

lemmas dec_defs = dec_read_def dec_write_def dec_close_def dec_on_read_def dec_on_write_def dec_receive_def
  dec_transmit_def dec_writes_def Let_def

lemma dec_arrived_ok:
  assumes ok: "dec_ok s" and p: "dec_pending s = xs @ Echo_read # ys" and d: "d \<noteq> []"
    and l: "length (instreambuffer s) + length d \<le> in_limit"
  shows "dec_ok (dec_on_read False (length d) (dec_receive d (s\<lparr>dec_pending := xs @ ys\<rparr>)))"
proof -
  have old: "\<forall>k \<in> set (copied s). 0 < k \<and> k \<le> length (dec_got s)" using ok by (simp add: dec_ok_def)
  then have "\<forall>k \<in> set (copied s). k < length (dec_got s) + length d" using d by (cases d) fastforce+
  moreover have "prefixes_of (dec_got s @ d) (copied s) = prefixes_of (dec_got s) (copied s)"
    using old by (intro prefixes_of_grow) blast
  moreover have "prefixes_of (dec_got s @ d) (copied s @ [length (dec_got s) + length d])
      = prefixes_of (dec_got s @ d) (copied s) @ dec_got s @ d"
    by (simp add: prefixes_of_def)
  ultimately show ?thesis using ok p d l
    by (auto simp: dec_ok_def dec_defs sorted_wrt_append append_assoc [symmetric] simp del: append_assoc)
qed

lemma dec_step_ok: "dec_step s s' \<Longrightarrow> dec_ok s \<Longrightarrow> dec_ok s'"
proof (induction rule: dec_step.induct)
  case (arrived s xs ys d)
  then show ?case using dec_arrived_ok by blast
next
  case (full s xs ys)
  then show ?case by (simp add: dec_ok_def dec_defs)
next
  case (read_failed s xs ys)
  then show ?case by (simp add: dec_ok_def dec_defs)
next
  case (written s xs ds ys)
  then have "filter is_echo_write xs = []" "filter is_echo_write ys = []" "ds = outstreambuffer s" "writing s"
    by (auto simp: dec_ok_def dec_writes_def append_eq_Cons_conv split: if_splits)
  with written show ?case by (simp add: dec_ok_def dec_defs)
next
  case (write_failed s xs ds ys k)
  then have "filter is_echo_write xs = []" "filter is_echo_write ys = []" "ds = outstreambuffer s" "writing s"
    by (auto simp: dec_ok_def dec_writes_def append_eq_Cons_conv split: if_splits)
  with write_failed show ?case by (simp add: dec_ok_def dec_defs)
qed

section \<open>Properties\<close>

text \<open>
  The simple echo server sends back exactly what it gets: in every reachable state what it
  has sent, followed by what is in its buffer, is what it has received; one operation is
  pending at most, and while it waits for data everything received has been sent back.
\<close>
theorem echo_exact:
  assumes "echo_reach s"
  shows "echoed s @ streambuffer s = got s \<and> length (echo_pending s) \<le> 1 \<and>
    (echo_pending s = [Echo_read] \<longrightarrow> echoed s = got s)"
proof -
  from assms have "echo_ok s"
    by (induction rule: echo_reach.induct) (auto simp: echo_start_def echo_defs dest: echo_step_ok [unfolded echo_defs])
  then show ?thesis by (auto simp: echo_ok_def)
qed

text \<open>
  C39: the decoupled echo server repeats itself. In every reachable state of a session what its write operations have
  sent, followed by what its outgoing buffer holds, is the concatenation of ever longer prefixes of the input, at
  least one as soon as there is input: the incoming buffer is never consumed, so each write sends all that was ever
  received once more. At most one write is pending, of exactly what the outgoing buffer holds; and a session
  takes at most 65536 bytes of input over its whole life.
\<close>
theorem decoupled_echo:
  assumes "dec_reach s"
  shows "\<exists>ks. sorted_wrt (<) ks \<and> (\<forall>k \<in> set ks. 0 < k \<and> k \<le> length (dec_got s)) \<and>
      (dec_got s \<noteq> [] \<longrightarrow> ks \<noteq> []) \<and>
      dec_echoed s @ outstreambuffer s = concat (map (\<lambda>k. take k (dec_got s)) ks) \<and>
      filter is_echo_write (dec_pending s) = (if writing s then [Echo_write (outstreambuffer s)] else []) \<and>
      instreambuffer s = dec_got s \<and> length (dec_got s) \<le> 65536"
proof -
  from assms have "dec_ok s"
  proof (induction rule: dec_reach.induct)
    case init
    show ?case by (simp add: dec_ok_def dec_start_def dec_defs prefixes_of_def in_limit_def)
  next
    case (step s s')
    then show ?case using dec_step_ok by blast
  qed
  then show ?thesis by (intro exI [of _ "copied s"]) (simp add: dec_ok_def dec_writes_def prefixes_of_def in_limit_def)
qed

theorem echo_exact_witness:
  "\<exists>s :: echo_session. echo_pending s = [Echo_read] \<and> got s = ''ab'' \<and> echoed s = ''ab''"
proof -
  let ?s = "\<lambda>p buf out. \<lparr>echo_pending = [p], streambuffer = buf, got = ''ab'', echoed = out,
    echo_log = [''[SERVER]: Session initialized.'']\<rparr>"
  have "echo_reach (?s (Echo_write ''ab'') ''ab'' '''')"
    using echo_reach.step [OF echo_reach.init echo_step.arrived [of echo_start "[]" "[]" "''ab''"]]
    by (simp add: echo_start_def echo_defs)
  from echo_reach.step [OF this echo_step.written [of _ "[]" "''ab''" "[]"]]
  have "echo_reach (?s Echo_read '''' ''ab'')" by (simp add: echo_defs)
  from echo_exact [OF this] show ?thesis by (intro exI [of _ "?s Echo_read '''' ''ab''"]) simp
qed

theorem decoupled_echo_witness:
  "\<exists>(s :: dec_session) ks. dec_got s = ''ab'' \<and> dec_echoed s = ''aab'' \<and> sorted_wrt (<) ks \<and>
     concat (map (\<lambda>k. take k ''ab'') ks) = ''aab''"
proof -
  let ?s = "\<lambda>p i out w e cs. \<lparr>dec_pending = p, instreambuffer = i, outstreambuffer = out, writing = w,
     dec_open = True, dec_log = [''[SERVER]: Session initialized.''], dec_got = i, dec_echoed = e, copied = cs\<rparr>"
  note ev = dec_start_def dec_defs in_limit_def numeral_2_eq_2
  have "dec_reach (?s [Echo_write ''a'', Echo_read] ''a'' ''a'' True '''' [1])"
    using dec_reach.step [OF dec_reach.init dec_step.arrived [of dec_start "[]" "[]" "''a''"]] by (simp add: ev)
  from dec_reach.step [OF this dec_step.written [of _ "[]" "''a''" "[Echo_read]"]]
  have "dec_reach (?s [Echo_read] ''a'' '''' False ''a'' [1])" by (simp add: ev)
  from dec_reach.step [OF this dec_step.arrived [of _ "[]" "[]" "''b''"]]
  have "dec_reach (?s [Echo_write ''ab'', Echo_read] ''ab'' ''ab'' True ''a'' [1, 2])" by (simp add: ev)
  from dec_reach.step [OF this dec_step.written [of _ "[]" "''ab''" "[Echo_read]"]]
  have "dec_reach (?s [Echo_read] ''ab'' '''' False ''aab'' [1, 2])" by (simp add: ev)
  from decoupled_echo [OF this] obtain ks where
    "sorted_wrt (<) ks" "concat (map (\<lambda>k. take k ''ab'') ks) = ''aab''" by auto
  then show ?thesis
    by (intro exI [of _ "?s [Echo_read] ''ab'' '''' False ''aab'' [1, 2]"] exI [of _ ks]) simp
qed

end
