(* ===== verification/Circular_Buffer.thy ===== *)
theory Circular_Buffer
  imports Net_Prelude
begin

text \<open>
  The ring buffer of
  \<open>other_ressources/async_io_with_cpp/tcp_echo_server_circularbuffer_multithreaded.cpp\<close> and its
  view.

  A buffer of \<open>boost::asio\<close> is a region of the array: the position of its first element and
  its length. \<open>Capacity\<close> is the length of the array. The indices are \<open>size_t\<close> values that
  only grow, and are reduced modulo the capacity when they are used. (The parameter \<open>n\<close> of
  \<open>commit\<close> is missing in the file, which therefore does not compile; the view calls it
  with an argument.)
\<close>

section \<open>The buffer\<close>

record circular_buffer =
  buffer :: "char list"
  head :: u64
  tail :: u64

type_synonym region = "nat \<times> nat"

definition capacity :: "circular_buffer \<Rightarrow> nat" where
  "capacity b = length (buffer b)"

definition buf_size :: "circular_buffer \<Rightarrow> u64" where
  "buf_size b = tail b - head b"

definition make_sequence :: "nat \<Rightarrow> u64 \<Rightarrow> u64 \<Rightarrow> region list" where
  "make_sequence cap from until =
     (let n = unat (until - from);
          first = unat from mod cap;
          last = unat until mod cap
      in if first \<le> last then [(first, n)]
         else let ending = cap - first in [(first, ending), (0, n - ending)])"

definition prepare :: "u64 \<Rightarrow> circular_buffer \<Rightarrow> region list res" where
  "prepare n b =
     (if word_of_nat (capacity b) < buf_size b + n then Inl Length_error
      else Inr (make_sequence (capacity b) (tail b) (tail b + n)))"

definition commit :: "u64 \<Rightarrow> circular_buffer \<Rightarrow> circular_buffer" where
  "commit n b = b\<lparr>tail := tail b + n\<rparr>"

definition consume :: "u64 \<Rightarrow> circular_buffer \<Rightarrow> circular_buffer" where
  "consume n b = b\<lparr>head := head b + n\<rparr>"

definition data :: "circular_buffer \<Rightarrow> region list" where
  "data b = make_sequence (capacity b) (head b) (tail b)"

text \<open>The array is not initialised by the constructor: what it holds is an argument.\<close>

definition new_buffer :: "char list \<Rightarrow> circular_buffer" where
  "new_buffer mem = \<lparr>buffer = mem, head = 0, tail = 0\<rparr>"

section \<open>Using the regions\<close>

text \<open>The positions of a sequence of regions, in order; one outside of the array is undefined behaviour.\<close>

definition positions :: "region list \<Rightarrow> nat list" where
  "positions rs = concat (map (\<lambda>(off, n). [off..<off + n]) rs)"

primrec store_at :: "nat list \<Rightarrow> char list \<Rightarrow> char list \<Rightarrow> char list" where
  "store_at [] ds mem = mem"
| "store_at (p # ps) ds mem = store_at ps (tl ds) (mem[p := hd ds])"

text \<open>Preparing room for some characters, storing them there, committing them.\<close>

definition put :: "char list \<Rightarrow> circular_buffer \<Rightarrow> circular_buffer res" where
  "put ds b =
     bind_res (prepare (word_of_nat (length ds)) b) (\<lambda>rs.
       if list_all (\<lambda>p. p < capacity b) (positions rs)
       then Inr (commit (word_of_nat (length ds)) (b\<lparr>buffer := store_at (positions rs) ds (buffer b)\<rparr>))
       else Inl UB_OutOfBounds)"

text \<open>The characters a write operation finds in the data regions.\<close>

definition readable :: "circular_buffer \<Rightarrow> char list res" where
  "readable b =
     (if list_all (\<lambda>p. p < capacity b) (positions (data b))
      then Inr (map (\<lambda>p. buffer b ! p) (positions (data b))) else Inl UB_OutOfBounds)"

text \<open>
  A write operation that takes at most \<open>n\<close> characters: it reads the first cells of the data regions, and
  what it has taken is consumed.
\<close>

definition take_out :: "nat \<Rightarrow> circular_buffer \<Rightarrow> (char list \<times> circular_buffer) res" where
  "take_out n b =
     (let ps = take n (positions (data b))
      in if list_all (\<lambda>p. p < capacity b) ps
         then Inr (map (\<lambda>p. buffer b ! p) ps, consume (word_of_nat (length ps)) b) else Inl UB_OutOfBounds)"

section \<open>The regions of a range of indices\<close>

text \<open>The ring: the cells that a range of indices stands for.\<close>

definition ring :: "nat \<Rightarrow> nat \<Rightarrow> nat \<Rightarrow> nat list" where
  "ring cap from n = map (\<lambda>i. (from + i) mod cap) [0..<n]"

lemma positions_simps [simp]:
  "positions [] = []" "positions ((off, n) # rs) = [off..<off + n] @ positions rs"
  by (simp_all add: positions_def)

lemma ring_split: "m \<le> n \<Longrightarrow> ring cap from n = ring cap from m @ ring cap (from + m) (n - m)"
proof -
  assume "m \<le> n"
  then have "[0..<n] = [0..<m] @ map (\<lambda>i. i + m) [0..<n - m]"
    by (simp add: map_add_upt) (metis le_add_diff_inverse upt_add_eq_append zero_le)
  then show ?thesis by (simp add: ring_def comp_def add.assoc add.commute [of m])
qed

lemma ring_flat:
  assumes "from mod cap + n \<le> cap" "0 < cap"
  shows "ring cap from n = [from mod cap..<from mod cap + n]"
proof (rule nth_equalityI)
  fix i assume "i < length (ring cap from n)"
  then have "i < n" by (simp add: ring_def)
  with assms show "ring cap from n ! i = [from mod cap..<from mod cap + n] ! i"
    by (simp add: ring_def) (metis add_less_cancel_left less_le_trans mod_add_left_eq mod_less)
qed (simp add: ring_def)

text \<open>
  A range of at most the capacity is turned into its ring, except when it is as long as the
  capacity and does not start at a multiple of it: then there is one region, and it goes
  past the end of the array. The indices may wrap around 2^64, if the capacity divides it.
\<close>

definition good_capacity :: "nat \<Rightarrow> bool" where
  "good_capacity cap \<longleftrightarrow> 0 < cap \<and> cap \<le> 2 ^ 63 \<and> cap dvd 2 ^ 64"

lemma good_capacity_power:
  assumes "k \<le> 63"
  shows "good_capacity (2 ^ k)"
proof -
  have "(2 :: nat) ^ k \<le> 2 ^ 63" by (rule power_increasing [OF assms]) simp
  moreover have "(2 :: nat) ^ k dvd 2 ^ 64" by (rule le_imp_power_dvd) (use assms in linarith)
  ultimately show ?thesis unfolding good_capacity_def by (intro conjI) simp_all
qed

lemma good_capacity_4: "good_capacity (length ''....'')"
proof -
  have "length ''....'' = (2 :: nat) ^ 2" by simp
  then show ?thesis using good_capacity_power [of 2] by (simp only:)
qed

lemma unat_index [simp]: "n \<le> 2 ^ 63 \<Longrightarrow> unat (word_of_nat n :: u64) = n"
  by (simp add: unsigned_of_nat take_bit_nat_eq_self)

lemma mod_index:
  "good_capacity cap \<Longrightarrow> n \<le> 2 ^ 63 \<Longrightarrow> unat (from + word_of_nat n :: u64) mod cap = (unat from + n) mod cap"
  by (simp add: good_capacity_def unat_word_ariths mod_mod_cancel)

lemma make_sequence_ring:
  assumes "good_capacity cap" "n \<le> cap" "n < cap \<or> unat from mod cap = 0"
  shows "positions (make_sequence cap from (from + word_of_nat n)) = ring cap (unat from) n"
proof -
  let ?f = "unat from mod cap"
  have cap: "0 < cap" "n \<le> 2 ^ 63" using assms(1,2) by (auto simp: good_capacity_def)
  note until = mod_index [OF assms(1) cap(2), of "from"]
  have fc: "?f < cap" using cap(1) by simp
  show ?thesis
  proof (cases "?f + n < cap")
    case True
    then have "(unat from + n) mod cap = ?f + n" by (metis mod_add_left_eq mod_less)
    with True cap show ?thesis by (simp add: make_sequence_def Let_def until ring_flat)
  next
    case False
    have wrap: "(unat from + n) mod cap = ?f + n - cap"
    proof -
      have "(unat from + n) mod cap = (?f + n) mod cap" by (simp add: mod_add_left_eq)
      also have "\<dots> = (?f + n - cap) mod cap" using False by (simp add: le_mod_geq)
      also have "\<dots> = ?f + n - cap" using assms(2) fc False by (intro mod_less) linarith
      finally show ?thesis .
    qed
    show ?thesis
    proof (cases "?f = 0")
      case True
      with False assms(2) have "n = cap" by simp
      with True cap wrap show ?thesis by (simp add: make_sequence_def Let_def until ring_flat)
    next
      case f: False
      with assms(3) have "n < cap" by simp
      with False f have loop: "\<not> ?f \<le> ?f + n - cap" by (simp add: not_less not_le)
      have e: "cap - ?f \<le> n" using False by simp
      have "(unat from + (cap - ?f)) mod cap = 0"
      proof -
        have "(unat from + (cap - ?f)) mod cap = (?f + (cap - ?f)) mod cap" by (simp add: mod_add_left_eq)
        then show ?thesis using fc by simp
      qed
      moreover have "n - (cap - ?f) \<le> cap" using assms(2) by linarith
      ultimately have "ring cap (unat from + (cap - ?f)) (n - (cap - ?f)) = [0..<n - (cap - ?f)]"
        using cap(1) ring_flat [of "unat from + (cap - ?f)" cap "n - (cap - ?f)"] by (simp del: diff_diff_right)
      moreover have "ring cap (unat from) (cap - ?f) = [?f..<cap]"
        using ring_flat [of "unat from" cap "cap - ?f"] cap fc by simp
      ultimately show ?thesis
        using ring_split [OF e, of cap "unat from"] loop fc cap by (simp add: make_sequence_def Let_def until wrap)
    qed
  qed
qed

lemma make_sequence_past_end:
  assumes "good_capacity cap" "unat from mod cap \<noteq> 0"
  shows "make_sequence cap from (from + word_of_nat cap) = [(unat from mod cap, cap)]"
proof -
  have "cap \<le> 2 ^ 63" using assms(1) by (simp add: good_capacity_def)
  then show ?thesis using mod_index [OF assms(1), of cap "from"] by (simp add: make_sequence_def Let_def)
qed

section \<open>The buffer as a queue of characters\<close>

text \<open>
  Runs of puts and takes, on a buffer, and on a list of characters, which is what the buffer
  stands for: a put appends, a take removes from the front, as many as there are.
\<close>

datatype buffer_op = Put "char list" | Take nat

primrec run_buffer ::
  "(char list \<Rightarrow> 'b \<Rightarrow> 'b res) \<Rightarrow> (nat \<Rightarrow> 'b \<Rightarrow> (char list \<times> 'b) res) \<Rightarrow> buffer_op list \<Rightarrow> 'b \<Rightarrow>
     (char list \<times> 'b) res" where
  "run_buffer write_to take_from [] b = Inr ([], b)"
| "run_buffer write_to take_from (op # ops) b =
     (case op of
        Put ds \<Rightarrow> bind_res (write_to ds b) (run_buffer write_to take_from ops)
      | Take n \<Rightarrow> bind_res (take_from n b) (\<lambda>(out, b1).
          bind_res (run_buffer write_to take_from ops b1) (\<lambda>(more, b'). Inr (out @ more, b'))))"

primrec run_queue :: "buffer_op list \<Rightarrow> char list \<Rightarrow> char list \<times> char list" where
  "run_queue [] q = ([], q)"
| "run_queue (op # ops) q =
     (case op of
        Put ds \<Rightarrow> run_queue ops (q @ ds)
      | Take n \<Rightarrow> (let (out, q') = run_queue ops (drop n q) in (take n q @ out, q')))"

primrec input_of :: "buffer_op list \<Rightarrow> char list" where
  "input_of [] = []"
| "input_of (op # ops) = (case op of Put ds \<Rightarrow> ds | Take n \<Rightarrow> []) @ input_of ops"

lemma run_queue_fifo: "fst (run_queue ops q) @ snd (run_queue ops q) = q @ input_of ops"
proof (induction ops arbitrary: q)
  case (Cons op ops)
  show ?case
  proof (cases op)
    case (Take n)
    with Cons [of "drop n q"] show ?thesis by (simp add: case_prod_beta)
  qed (simp add: Cons)
qed simp

text \<open>There is always less inside than \<open>limit\<close>; \<open>filled\<close> is how much there is at the beginning.\<close>

primrec never_full :: "nat \<Rightarrow> nat \<Rightarrow> buffer_op list \<Rightarrow> bool" where
  "never_full limit filled [] \<longleftrightarrow> True"
| "never_full limit filled (op # ops) \<longleftrightarrow>
     (case op of
        Put ds \<Rightarrow> filled + length ds < limit \<and> never_full limit (filled + length ds) ops
      | Take n \<Rightarrow> never_full limit (filled - n) ops)"

text \<open>What clients of a dynamic buffer rely on.\<close>

locale dynamic_buffer =
  fixes ok :: "'b \<Rightarrow> bool"
    and limit :: "'b \<Rightarrow> nat"
    and contents :: "'b \<Rightarrow> char list"
    and write_to :: "char list \<Rightarrow> 'b \<Rightarrow> 'b res"
    and take_from :: "nat \<Rightarrow> 'b \<Rightarrow> (char list \<times> 'b) res"
  assumes write_ok: "ok b \<Longrightarrow> length (contents b) + length ds < limit b \<Longrightarrow>
      \<exists>b'. write_to ds b = Inr b' \<and> ok b' \<and> limit b' = limit b \<and> contents b' = contents b @ ds"
    and take_ok: "ok b \<Longrightarrow> length (contents b) < limit b \<Longrightarrow>
      \<exists>b'. take_from n b = Inr (take n (contents b), b') \<and> ok b' \<and> limit b' = limit b \<and> contents b' = drop n (contents b)"
begin

lemma run_refines:
  "ok b \<Longrightarrow> length (contents b) < limit b \<Longrightarrow> never_full (limit b) (length (contents b)) ops \<Longrightarrow>
     \<exists>b'. run_buffer write_to take_from ops b = Inr (fst (run_queue ops (contents b)), b') \<and> ok b' \<and>
       contents b' = snd (run_queue ops (contents b)) \<and> length (contents b') < limit b'"
proof (induction ops arbitrary: b)
  case (Cons op ops)
  show ?case
  proof (cases op)
    case (Put ds)
    with Cons.prems write_ok [of b ds] obtain b1 where
      b1: "write_to ds b = Inr b1" "ok b1" "limit b1 = limit b" "contents b1 = contents b @ ds" by auto
    with Cons.IH [of b1] Cons.prems(3) Put show ?thesis by simp
  next
    case (Take n)
    from take_ok [OF Cons.prems(1,2), of n] obtain b1 where b1: "take_from n b = Inr (take n (contents b), b1)"
      "ok b1" "limit b1 = limit b" "contents b1 = drop n (contents b)" by blast
    have "length (contents b1) < limit b1" "never_full (limit b1) (length (contents b1)) ops"
      using Cons.prems(2,3) b1(3,4) Take by simp_all
    from Cons.IH [OF b1(2) this] obtain b' where
      "run_buffer write_to take_from ops b1 = Inr (fst (run_queue ops (contents b1)), b')" "ok b'"
      "contents b' = snd (run_queue ops (contents b1))" "length (contents b') < limit b'" by blast
    with b1(1,4) Take show ?thesis by (simp add: case_prod_beta)
  qed
qed simp

end

section \<open>The code's buffer provides it\<close>

definition contents :: "circular_buffer \<Rightarrow> char list" where
  "contents b = map (\<lambda>p. buffer b ! p) (ring (capacity b) (unat (head b)) (unat (buf_size b)))"

definition buffer_ok :: "circular_buffer \<Rightarrow> bool" where
  "buffer_ok b \<longleftrightarrow> good_capacity (capacity b) \<and> unat (buf_size b) \<le> capacity b"

definition room :: "nat \<Rightarrow> circular_buffer \<Rightarrow> bool" where
  "room n b \<longleftrightarrow> unat (buf_size b) + n \<le> capacity b \<and> (n < capacity b \<or> unat (tail b) mod capacity b = 0)"

lemma length_contents [simp]: "length (contents b) = unat (buf_size b)"
  by (simp add: contents_def ring_def)

lemma ring_below: "0 < cap \<Longrightarrow> list_all (\<lambda>p. p < cap) (ring cap from n)"
  by (auto simp: ring_def list_all_iff)

lemma distinct_ring:
  assumes "n \<le> cap"
  shows "distinct (ring cap from n)"
proof -
  have less: "\<not> i < j" if "j < n" "(from + i) mod cap = (from + j) mod cap" for i j
  proof
    assume "i < j"
    with that(2) have "cap dvd from + j - (from + i)" by (metis add_le_cancel_left less_imp_le mod_eq_dvd_iff_nat)
    with \<open>i < j\<close> have "cap \<le> j - i" by (intro dvd_imp_le) simp_all
    with that(1) assms \<open>i < j\<close> show False by simp
  qed
  have "i = j" if "i < n" "j < n" "(from + i) mod cap = (from + j) mod cap" for i j
    using less [of j i] less [of i j] that by (metis nat_neq_iff)
  then show ?thesis by (auto simp: ring_def distinct_map inj_on_def)
qed

lemma length_store_at [simp]: "length (store_at ps ds mem) = length mem"
  by (induction ps arbitrary: ds mem) simp_all

lemma store_at_other: "p \<notin> set ps \<Longrightarrow> store_at ps ds mem ! p = mem ! p"
  by (induction ps arbitrary: ds mem) auto

lemma store_at_reads:
  "distinct ps \<Longrightarrow> length ps = length ds \<Longrightarrow> list_all (\<lambda>p. p < length mem) ps \<Longrightarrow>
     map (\<lambda>p. store_at ps ds mem ! p) ps = ds"
proof (induction ps arbitrary: ds mem)
  case Nil
  then show ?case by simp
next
  case (Cons p ps)
  then obtain d ds' where "ds = d # ds'" by (cases ds) auto
  with Cons show ?case by (simp add: store_at_other)
qed

lemma ring_mod: "from mod cap = until mod cap \<Longrightarrow> ring cap from n = ring cap until n"
  by (simp add: ring_def) (metis mod_add_left_eq)

lemma ring_length [simp]: "length (ring cap from n) = n"
  by (simp add: ring_def)

lemma tail_index:
  assumes "buffer_ok b"
  shows "(unat (head b) + unat (buf_size b)) mod capacity b = unat (tail b) mod capacity b"
proof -
  have "unat (buf_size b) \<le> 2 ^ 63" using assms by (simp add: buffer_ok_def good_capacity_def)
  with mod_index [of "capacity b" "unat (buf_size b)" "head b"] assms show ?thesis
    by (simp add: buffer_ok_def buf_size_def)
qed

lemma prepare_fits:
  assumes "buffer_ok b" "n < 2 ^ 63"
  shows "prepare (word_of_nat n) b =
    (if capacity b < unat (buf_size b) + n then Inl Length_error
     else Inr (make_sequence (capacity b) (tail b) (tail b + word_of_nat n)))"
proof -
  have c: "capacity b \<le> 2 ^ 63" "unat (buf_size b) \<le> capacity b"
    using assms(1) by (auto simp: buffer_ok_def good_capacity_def)
  then have "unat (buf_size b + word_of_nat n) = unat (buf_size b) + n"
    using assms(2) by (simp add: unat_word_ariths)
  with c show ?thesis by (simp add: prepare_def word_less_nat_alt)
qed

text \<open>With room, the characters are appended; without it, nothing is stored.\<close>

lemma put_stores:
  assumes ok: "buffer_ok b" and room: "room (length ds) b"
  shows "put ds b = Inr (commit (word_of_nat (length ds))
    (b\<lparr>buffer := store_at (ring (capacity b) (unat (tail b)) (length ds)) ds (buffer b)\<rparr>))"
proof -
  have n: "length ds \<le> capacity b" "unat (buf_size b) + length ds \<le> capacity b" using room by (auto simp: room_def)
  have g: "good_capacity (capacity b)" using ok by (simp add: buffer_ok_def)
  have r: "positions (make_sequence (capacity b) (tail b) (tail b + word_of_nat (length ds)))
      = ring (capacity b) (unat (tail b)) (length ds)"
    using make_sequence_ring [OF g n(1)] room by (simp add: room_def)
  show ?thesis
  proof (cases "length ds < 2 ^ 63")
    case True
    with n g r prepare_fits [OF ok True] show ?thesis by (simp add: put_def ring_below good_capacity_def)
  next
    case False
    with n g have "capacity b = length ds" "length ds = 2 ^ 63" "buf_size b = 0"
      by (auto simp: good_capacity_def unat_eq_zero [symmetric])
    with g r show ?thesis by (simp add: put_def prepare_def ring_below good_capacity_def)
  qed
qed

lemma contents_stored:
  assumes ok: "buffer_ok b" and n: "unat (buf_size b) + length ds \<le> capacity b"
    and b': "b' = commit (word_of_nat (length ds))
      (b\<lparr>buffer := store_at (ring (capacity b) (unat (tail b)) (length ds)) ds (buffer b)\<rparr>)"
  shows "buffer_ok b' \<and> contents b' = contents b @ ds"
proof -
  let ?cap = "capacity b" and ?h = "unat (head b)" and ?s = "unat (buf_size b)" and ?n = "length ds"
  let ?mem = "store_at (ring ?cap (unat (tail b)) ?n) ds (buffer b)"
  have g: "0 < ?cap" "?cap \<le> 2 ^ 63" using ok by (simp_all add: buffer_ok_def good_capacity_def)
  have size: "unat (buf_size b') = ?s + ?n"
  proof -
    have "buf_size b' = buf_size b + word_of_nat ?n" by (simp add: b' buf_size_def commit_def)
    moreover have "?s + ?n < 2 ^ 64" using n g(2) by simp
    moreover have "?n \<le> 2 ^ 63" using n g(2) by linarith
    ultimately show ?thesis by (simp add: unat_word_ariths)
  qed
  have cap': "capacity b' = ?cap" "head b' = head b" "buffer b' = ?mem"
    by (simp_all add: b' capacity_def commit_def)
  have ring: "ring ?cap (unat (tail b)) ?n = ring ?cap (?h + ?s) ?n"
    using ring_mod [OF tail_index [OF ok]] by simp
  have split: "ring ?cap ?h (?s + ?n) = ring ?cap ?h ?s @ ring ?cap (?h + ?s) ?n"
    using ring_split [of ?s "?s + ?n" ?cap ?h] by simp
  have d: "distinct (ring ?cap ?h ?s @ ring ?cap (?h + ?s) ?n)"
    using distinct_ring [OF n, of ?h] split by simp
  have old: "map (\<lambda>p. ?mem ! p) (ring ?cap ?h ?s) = contents b"
    using d by (auto simp: contents_def ring intro!: store_at_other)
  have new: "map (\<lambda>p. ?mem ! p) (ring ?cap (?h + ?s) ?n) = ds"
    unfolding ring using d ring_below [OF g(1)] by (intro store_at_reads) (simp_all add: capacity_def)
  show ?thesis
    using ok n size old new by (simp add: buffer_ok_def cap') (simp add: contents_def cap' size split)
qed

lemma put_fails:
  assumes ok: "buffer_ok b" and n: "length ds < 2 ^ 63" and no: "\<not> room (length ds) b"
  shows "put ds b =
    Inl (if capacity b < unat (buf_size b) + length ds then Length_error else UB_OutOfBounds)"
proof (cases "capacity b < unat (buf_size b) + length ds")
  case True
  then show ?thesis by (simp add: put_def prepare_fits [OF ok n])
next
  case False
  with no have e: "length ds = capacity b" "unat (tail b) mod capacity b \<noteq> 0" by (auto simp: room_def)
  let ?f = "unat (tail b) mod capacity b"
  have seq: "make_sequence (capacity b) (tail b) (tail b + word_of_nat (capacity b)) = [(?f, capacity b)]"
    using ok e(2) by (intro make_sequence_past_end) (simp_all add: buffer_ok_def)
  have "0 < capacity b" using ok by (simp add: buffer_ok_def good_capacity_def)
  then have "?f + capacity b - 1 \<in> set [?f..<?f + capacity b]" by auto
  moreover have "\<not> ?f + capacity b - 1 < capacity b" using e(2) by linarith
  ultimately have "\<not> list_all (\<lambda>p. p < capacity b) [?f..<?f + capacity b]"
    unfolding list_all_iff by blast
  with False e n show ?thesis by (simp add: put_def prepare_fits [OF ok] seq)
qed

lemma consume_drops:
  assumes ok: "buffer_ok b" and n: "n \<le> length (contents b)"
  shows "buffer_ok (consume (word_of_nat n) b) \<and> contents (consume (word_of_nat n) b) = drop n (contents b)"
proof -
  let ?cap = "capacity b" and ?h = "unat (head b)" and ?s = "unat (buf_size b)"
  have n: "n \<le> ?s" using n by simp
  have g: "good_capacity ?cap" "n \<le> 2 ^ 63"
    using ok n by (auto simp: buffer_ok_def good_capacity_def)
  have s: "unat (buf_size b - word_of_nat n) = ?s - n"
    using n g(2) by (simp add: unat_sub_if')
  have same: "capacity (consume (word_of_nat n) b) = ?cap" "buffer (consume (word_of_nat n) b) = buffer b"
    "head (consume (word_of_nat n) b) = head b + word_of_nat n"
    "buf_size (consume (word_of_nat n) b) = buf_size b - word_of_nat n"
    by (simp_all add: consume_def capacity_def buf_size_def)
  have "ring ?cap (unat (head b + word_of_nat n)) (?s - n) = ring ?cap (?h + n) (?s - n)"
    using mod_index [OF g] by (intro ring_mod) simp
  then have "contents (consume (word_of_nat n) b) = drop n (contents b)"
    using ring_split [OF n, of ?cap ?h] by (simp add: contents_def same s drop_map)
  moreover have "buffer_ok (consume (word_of_nat n) b)"
    using ok unfolding buffer_ok_def same s by linarith
  ultimately show ?thesis by simp
qed

text \<open>What a write operation reads is the content, unless the buffer is full from the middle of the array on.\<close>

lemma readable_result:
  assumes ok: "buffer_ok b"
  shows "readable b =
    (if unat (buf_size b) = capacity b \<and> unat (head b) mod capacity b \<noteq> 0 then Inl UB_OutOfBounds
     else Inr (contents b))"
proof -
  let ?cap = "capacity b" and ?n = "unat (buf_size b)" and ?f = "unat (head b) mod capacity b"
  have g: "good_capacity ?cap" "0 < ?cap" "?n \<le> ?cap"
    using ok by (simp_all add: buffer_ok_def good_capacity_def)
  have t: "tail b = head b + word_of_nat ?n" by (simp add: buf_size_def)
  show ?thesis
  proof (cases "?n = ?cap \<and> ?f \<noteq> 0")
    case True
    with g(1) t have "data b = [(?f, ?cap)]"
      using make_sequence_past_end [of ?cap "head b"] by (simp add: data_def)
    moreover have "?f + ?cap - 1 \<in> set [?f..<?f + ?cap]" using g(2) by auto
    moreover have "\<not> ?f + ?cap - 1 < ?cap" using True by linarith
    ultimately have "\<not> list_all (\<lambda>p. p < ?cap) (positions (data b))"
      unfolding list_all_iff by auto
    with True show ?thesis by (simp add: readable_def)
  next
    case False
    then have "?n < ?cap \<or> ?f = 0" using g(3) by linarith
    then have "positions (data b) = ring ?cap (unat (head b)) ?n"
      using make_sequence_ring [OF g(1,3)] t by (simp add: data_def)
    with False g(2) show ?thesis by (auto simp: readable_def ring_below contents_def)
  qed
qed

text \<open>Below the capacity the data regions are the cells of the content, and a take takes it from the front.\<close>

lemma positions_data:
  assumes "buffer_ok b" "unat (buf_size b) < capacity b"
  shows "positions (data b) = ring (capacity b) (unat (head b)) (unat (buf_size b))"
proof -
  have t: "tail b = head b + word_of_nat (unat (buf_size b))" by (simp add: buf_size_def)
  show ?thesis
    using make_sequence_ring [of "capacity b" "unat (buf_size b)" "head b"] assms t by (simp add: data_def buffer_ok_def)
qed

lemma take_out_result:
  assumes ok: "buffer_ok b" and n: "unat (buf_size b) < capacity b"
  shows "\<exists>b'. take_out n b = Inr (take n (contents b), b') \<and> buffer_ok b' \<and> capacity b' = capacity b \<and>
    contents b' = drop n (contents b)"
proof -
  let ?k = "min n (unat (buf_size b))"
  let ?b' = "consume (word_of_nat ?k) b"
  have "0 < capacity b" using n by simp
  then have "list_all (\<lambda>p. p < capacity b) (take n (positions (data b)))"
    using ring_below [of "capacity b"] by (auto simp: positions_data [OF assms] list_all_iff dest: in_set_takeD)
  then have "take_out n b = Inr (take n (contents b), ?b')"
    by (simp add: take_out_def Let_def positions_data [OF assms] contents_def take_map min.commute)
  moreover have "buffer_ok ?b' \<and> contents ?b' = drop ?k (contents b)" using consume_drops [OF ok, of ?k] by simp
  moreover have "drop ?k (contents b) = drop n (contents b)" by (cases "n \<le> unat (buf_size b)") simp_all
  ultimately show ?thesis by (intro exI [of _ ?b']) (simp add: consume_def capacity_def)
qed

interpretation circ: dynamic_buffer buffer_ok capacity contents put take_out
proof unfold_locales
  fix b and ds :: "char list" assume ok: "buffer_ok b" and n: "length (contents b) + length ds < capacity b"
  then have "room (length ds) b" by (simp add: room_def)
  moreover have "capacity (commit k (b\<lparr>buffer := store_at ps ds (buffer b)\<rparr>)) = capacity b" for k ps
    by (simp add: commit_def capacity_def)
  ultimately show "\<exists>b'. put ds b = Inr b' \<and> buffer_ok b' \<and> capacity b' = capacity b \<and> contents b' = contents b @ ds"
    using put_stores [OF ok] contents_stored [OF ok _ refl, of ds] n by simp
qed (simp add: take_out_result)

section \<open>The view\<close>

text \<open>
  A view holds a reference to a buffer, here its address in a store of buffers; it is copied
  into each asynchronous operation, and all copies act on the one buffer.
\<close>

type_synonym buffer_store = "nat \<Rightarrow> circular_buffer"

definition view_prepare :: "u64 \<Rightarrow> nat \<Rightarrow> buffer_store \<Rightarrow> region list res" where
  "view_prepare n v st = prepare n (st v)"

definition view_commit :: "u64 \<Rightarrow> nat \<Rightarrow> buffer_store \<Rightarrow> buffer_store" where
  "view_commit n v st = st(v := commit n (st v))"

definition view_consume :: "u64 \<Rightarrow> nat \<Rightarrow> buffer_store \<Rightarrow> buffer_store" where
  "view_consume n v st = st(v := consume n (st v))"

definition view_data :: "nat \<Rightarrow> buffer_store \<Rightarrow> region list" where
  "view_data v st = data (st v)"

definition view_size :: "nat \<Rightarrow> buffer_store \<Rightarrow> u64" where
  "view_size v st = buf_size (st v)"

definition view_max_size :: "nat \<Rightarrow> buffer_store \<Rightarrow> nat" where
  "view_max_size v st = capacity (st v)"

section \<open>Properties\<close>

text \<open>
  C23: a circular buffer over an array of a proper capacity (at most 2^63, dividing 2^64, for
  example a power of two) is a queue of characters. Whatever puts (through the regions of \<open>prepare\<close>) and takes (through the
  regions of \<open>data\<close>) follow each other, and however often the indices go around the array, as long
  as one cell stays free every operation is defined, and the takes give, and \<open>data\<close> shows in the end, what they
  would on a list: the characters in the order they were put in, none lost or repeated. (When the buffer is
  full, from the middle of the array on, the region of \<open>data\<close> leaves the array: \<open>readable_result\<close>.)
\<close>
theorem circular_fifo:
  assumes "good_capacity (length mem)" "never_full (length mem) 0 ops"
  shows "\<exists>b. run_buffer put take_out ops (new_buffer mem) = Inr (fst (run_queue ops []), b) \<and>
    readable b = Inr (snd (run_queue ops [])) \<and>
    fst (run_queue ops []) @ snd (run_queue ops []) = input_of ops"
proof -
  let ?b = "new_buffer mem"
  have new: "buffer_ok ?b" "contents ?b = []" "capacity ?b = length mem" "0 < length mem"
    using assms(1) by (simp_all add: buffer_ok_def new_buffer_def capacity_def buf_size_def contents_def ring_def good_capacity_def)
  have "length (contents ?b) < capacity ?b" "never_full (capacity ?b) (length (contents ?b)) ops"
    using assms(2) new(3,4) by (simp_all add: new(2) del: length_contents)
  from circ.run_refines [OF new(1) this] obtain b where
    b: "run_buffer put take_out ops ?b = Inr (fst (run_queue ops []), b)" "buffer_ok b" "contents b = snd (run_queue ops [])"
      "length (contents b) < capacity b" unfolding new(2) by blast
  have "readable b = Inr (contents b)" using readable_result [OF b(2)] b(4) by simp
  with b run_queue_fifo [of ops "[]"] show ?thesis by auto
qed

text \<open>
  Putting characters into a circular buffer fails with the length error exactly when they
  do not fit, changes nothing but the cells behind the end otherwise, and has undefined
  behaviour in one case that the check of \<open>prepare\<close> admits: when as many characters as the
  whole capacity are put into an empty buffer whose indices have moved on to the middle of
  the array, the one region returned goes past the end of the array.
\<close>
theorem circular_put:
  assumes "buffer_ok b" "length ds < 2 ^ 63"
  shows "put ds b =
    (if capacity b < unat (buf_size b) + length ds then Inl Length_error
     else if length ds = capacity b \<and> unat (tail b) mod capacity b \<noteq> 0 then Inl UB_OutOfBounds
     else Inr (commit (word_of_nat (length ds))
       (b\<lparr>buffer := store_at (ring (capacity b) (unat (tail b)) (length ds)) ds (buffer b)\<rparr>)))"
  using put_stores [OF assms(1), of ds] put_fails [OF assms] by (auto simp: room_def)

theorem circular_fifo_witness:
  "\<exists>b. run_buffer put take_out [Put ''abc'', Take 2, Put ''de'', Take 9, Put ''f''] (new_buffer ''....'') = Inr (''abcde'', b) \<and>
     readable b = Inr ''f''"
proof -
  have "never_full (length ''....'') 0 [Put ''abc'', Take 2, Put ''de'', Take 9, Put ''f'']" by simp
  from circular_fifo [OF good_capacity_4 this] show ?thesis by simp
qed

theorem circular_put_witness:
  "put ''abcd'' \<lparr>buffer = ''....'', head = 1, tail = 1\<rparr> = Inl UB_OutOfBounds"
proof -
  let ?b = "\<lparr>buffer = ''....'', head = 1, tail = 1\<rparr>"
  have "buffer_ok ?b" using good_capacity_4 by (simp add: buffer_ok_def capacity_def buf_size_def)
  from circular_put [OF this, of "''abcd''"] show ?thesis
    by (simp add: capacity_def buf_size_def)
qed

end
