(* ===== verification/Context_Group.thy ===== *)
theory Context_Group
  imports Net_Prelude
begin

text \<open>
  \<open>IoContextGroup\<close> of
  \<open>other_ressources/async_io_with_cpp/tcp_echo_server_circularbuffer_multithreaded.cpp\<close>: a
  vector of shared pointers to I/O contexts, with a work guard and a thread for each, that
  hands them out in turn. A shared pointer is the number of its context, or \<open>None\<close> when it is
  null. (The file writes \<open>index\<close> for the member \<open>index_\<close>.)
\<close>

section \<open>The group\<close>

text \<open>\<open>group_joined\<close>: the number of threads in the vector, which have all been joined.\<close>

record io_context_group =
  group_contexts :: "nat option list"
  group_guards :: "nat list"
  group_joined :: nat
  group_index :: u64

text \<open>
  One round of the constructor: \<open>emplace_back()\<close> without an argument appends a null pointer,
  and the next line asks the last pointer of the vector for its executor.
\<close>

fun emplace_contexts :: "nat \<Rightarrow> io_context_group \<Rightarrow> io_context_group res" where
  "emplace_contexts 0 g = Inr g"
| "emplace_contexts (Suc k) g =
     (let g' = g\<lparr>group_contexts := group_contexts g @ [None]\<rparr>
      in case last (group_contexts g') of
           None \<Rightarrow> Inl UB_NullDeref
         | Some c \<Rightarrow> emplace_contexts k (g'\<lparr>group_guards := group_guards g' @ [c]\<rparr>))"

definition empty_group :: io_context_group where
  "empty_group = \<lparr>group_contexts = [], group_guards = [], group_joined = 0, group_index = 0\<rparr>"

definition new_group :: "nat \<Rightarrow> io_context_group res" where
  "new_group n = emplace_contexts n empty_group"

definition query :: "io_context_group \<Rightarrow> (nat \<times> io_context_group) res" where
  "query g =
     (if group_contexts g = [] then Inl UB_OutOfBounds
      else case group_contexts g ! (unat (group_index g) mod length (group_contexts g)) of
        None \<Rightarrow> Inl UB_NullDeref
      | Some c \<Rightarrow> Inr (c, g\<lparr>group_index := group_index g + 1\<rparr>))"

text \<open>
  \<open>run\<close> starts a thread for each context and joins all threads of the vector; a thread that has
  been joined before cannot be joined again. The thread of a context with a guard does not
  end: \<open>None\<close> when \<open>run\<close> does not return.
\<close>

definition group_run :: "io_context_group \<Rightarrow> io_context_group option res" where
  "group_run g =
     (if None \<in> set (group_contexts g) then Inl UB_NullDeref
      else if 0 < group_joined g then Inl Std_terminate
      else if list_ex (\<lambda>c. Some c \<in> set (group_contexts g)) (group_guards g) then Inr None
      else Inr (Some (g\<lparr>group_joined := group_joined g + length (group_contexts g)\<rparr>)))"

section \<open>What the constructor makes, and what it is meant to make\<close>

text \<open>Any number of contexts but none ends in the dereference of a null pointer.\<close>

lemma new_group_eq: "new_group n = (if n = 0 then Inr empty_group else Inl UB_NullDeref)"
  by (cases n) (simp_all add: new_group_def Let_def)

definition group_of :: "nat \<Rightarrow> io_context_group" where
  "group_of n = \<lparr>group_contexts = map Some [0..<n], group_guards = [0..<n], group_joined = 0, group_index = 0\<rparr>"

lemma query_group_of:
  "group_contexts g = map Some [0..<n] \<Longrightarrow> 0 < n \<Longrightarrow>
     query g = Inr (unat (group_index g) mod n, g\<lparr>group_index := group_index g + 1\<rparr>)"
  by (simp add: query_def)

fun queries :: "nat \<Rightarrow> io_context_group \<Rightarrow> nat list res" where
  "queries 0 g = Inr []"
| "queries (Suc k) g =
     bind_res (query g) (\<lambda>(c, g'). bind_res (queries k g') (\<lambda>cs. Inr (c # cs)))"

lemma queries_from:
  "group_contexts g = map Some [0..<n] \<Longrightarrow> 0 < n \<Longrightarrow> unat (group_index g) + k < 2 ^ 64 \<Longrightarrow>
     queries k g = Inr (map (\<lambda>j. (unat (group_index g) + j) mod n) [0..<k])"
proof (induction k arbitrary: g)
  case 0
  then show ?case by simp
next
  case (Suc k)
  let ?g = "g\<lparr>group_index := group_index g + 1\<rparr>"
  have i: "unat (group_index g + 1) = unat (group_index g) + 1" using Suc.prems(3) by (simp add: unat_word_ariths)
  with Suc.prems Suc.IH [of ?g] have
    "queries k ?g = Inr (map (\<lambda>j. (unat (group_index g) + j) mod n) [1..<Suc k])"
    by (simp add: map_Suc_upt [symmetric] comp_def del: upt_Suc)
  moreover have "[0..<Suc k] = 0 # [1..<Suc k]" by (simp add: upt_conv_Cons del: upt_Suc)
  ultimately show ?case using query_group_of [OF Suc.prems(1,2)] by (simp del: upt_Suc)
qed

section \<open>Properties\<close>

text \<open>
  A group as it is meant to be hands out its I/O contexts in turn: of the first queries, the
  i-th gets context i modulo the number of contexts, so each gets the same number of
  sessions, up to one. Its \<open>run\<close> does not return, because the guards are never released.
\<close>

theorem round_robin:
  assumes "0 < n" "k < 2 ^ 64"
  shows "queries k (group_of n) = Inr (map (\<lambda>i. i mod n) [0..<k]) \<and> group_run (group_of n) = Inr None"
proof
  show "queries k (group_of n) = Inr (map (\<lambda>i. i mod n) [0..<k])"
    using queries_from [of "group_of n" n k] assms by (simp add: group_of_def)
  have "0 \<in> set [0..<n]" using assms(1) by simp
  then show "group_run (group_of n) = Inr None"
    by (auto simp: group_run_def group_of_def list_ex_iff)
qed

theorem round_robin_witness: "queries 5 (group_of 3) = Inr [0, 1, 2, 0, 1]"
  using round_robin [of 3 5] by (simp add: upt_rec)

end
