(* ===== verification/Circular_Echo.thy ===== *)
theory Circular_Echo
  imports Circular_Buffer Context_Group
begin

text \<open>
  The session and the server of
  \<open>other_ressources/async_io_with_cpp/tcp_echo_server_circularbuffer_multithreaded.cpp\<close>, on
  top of its circular buffer: reading and writing go on at the same time, over one buffer.

  A read operation asks the buffer for all the room that is left when it is started, stores
  what arrives there and commits it when it completes; a write operation takes the data
  regions when it is started, and consumes what it has sent when it completes, after a part of
  them if with an error. The characters sent are read from the array when the write completes,
  so that a read that stored among them meanwhile would be seen. An operation started on
  a closed socket can only fail (\<open>live\<close> is false); one started before may still complete. (The
  file writes \<open>buffer.size()\<close> for \<open>buffer_.size()\<close>, leaves out a brace in \<open>on_write\<close>,
  and initialises a member that does not exist.)
\<close>

section \<open>The session\<close>

datatype ring_op = Ring_read bool "region list" | Ring_write bool "region list"

fun is_ring_write :: "ring_op \<Rightarrow> bool" where
  "is_ring_write (Ring_write live rs) = True"
| "is_ring_write (Ring_read live rs) = False"

record ring_session =
  ring_pending :: "ring_op list"
  ring_buffer :: circular_buffer
  ring_writing :: bool
  ring_open :: bool
  ring_log :: "string list"
  ring_got :: string
  ring_echoed :: string

definition ring_read :: "ring_session \<Rightarrow> ring_session res" where
  "ring_read s =
     (let b = ring_buffer s
      in bind_res (prepare (word_of_nat (capacity b - unat (buf_size b))) b) (\<lambda>rs.
           Inr (s\<lparr>ring_pending := ring_pending s @ [Ring_read (ring_open s) rs]\<rparr>)))"

definition ring_start :: "char list \<Rightarrow> ring_session res" where
  "ring_start mem = ring_read
     \<lparr>ring_pending = [], ring_buffer = new_buffer mem, ring_writing = False, ring_open = True,
      ring_log = [''[SERVER]: Session initialized.''], ring_got = [], ring_echoed = []\<rparr>"

definition ring_write :: "ring_session \<Rightarrow> ring_session" where
  "ring_write s = s\<lparr>ring_writing := True,
     ring_pending := ring_pending s @ [Ring_write (ring_open s) (data (ring_buffer s))]\<rparr>"

definition ring_close :: "ring_session \<Rightarrow> ring_session" where
  "ring_close s = s\<lparr>ring_open := False\<rparr>"

definition ring_on_read :: "bool \<Rightarrow> nat \<Rightarrow> ring_session \<Rightarrow> ring_session res" where
  "ring_on_read ec bytes_transferred s =
     (if \<not> ec \<and> bytes_transferred \<noteq> 0 then ring_read (if \<not> ring_writing s then ring_write s else s)
      else Inr ((ring_close s)\<lparr>ring_log := ring_log s @
        [''[SESSION]: An error occured or the incoming buffer instance is completly full. Droped the session.'']\<rparr>))"

definition ring_on_write :: "bool \<Rightarrow> ring_session \<Rightarrow> ring_session res" where
  "ring_on_write ec s =
     (let s = s\<lparr>ring_writing := False\<rparr>
      in Inr (if \<not> ec then (if buf_size (ring_buffer s) \<noteq> 0 then ring_write s else s)
              else ring_close (s\<lparr>ring_log := ring_log s @
                [''[SESSION]: An error occured during writeing. Dropped the session!'']\<rparr>)))"

section \<open>The operations at work\<close>

definition ring_receive :: "region list \<Rightarrow> char list \<Rightarrow> ring_session \<Rightarrow> ring_session res" where
  "ring_receive rs d s =
     (let b = ring_buffer s; ps = take (length d) (positions rs)
      in if list_all (\<lambda>p. p < capacity b) ps
         then Inr (s\<lparr>ring_buffer := commit (word_of_nat (length d)) (b\<lparr>buffer := store_at ps d (buffer b)\<rparr>),
                     ring_got := ring_got s @ d\<rparr>)
         else Inl UB_OutOfBounds)"

definition ring_transmit :: "region list \<Rightarrow> nat \<Rightarrow> ring_session \<Rightarrow> ring_session res" where
  "ring_transmit rs k s =
     (let b = ring_buffer s; ps = take k (positions rs)
      in if list_all (\<lambda>p. p < capacity b) ps
         then Inr (s\<lparr>ring_buffer := consume (word_of_nat k) b,
                     ring_echoed := ring_echoed s @ map (\<lambda>p. buffer b ! p) ps\<rparr>)
         else Inl UB_OutOfBounds)"

datatype ring_event = Arrived "char list" | Full | Read_error | Sent | Send_error nat

fun ring_complete :: "ring_op \<Rightarrow> ring_event \<Rightarrow> ring_session \<Rightarrow> ring_session res option" where
  "ring_complete (Ring_read live rs) (Arrived d) s =
     (if live \<and> d \<noteq> [] \<and> length d \<le> length (positions rs)
      then Some (bind_res (ring_receive rs d s) (ring_on_read False (length d))) else None)"
| "ring_complete (Ring_read live rs) Full s =
     (if positions rs = [] then Some (ring_on_read False 0 s) else None)"
| "ring_complete (Ring_read live rs) Read_error s = Some (ring_on_read True 0 s)"
| "ring_complete (Ring_write live rs) Sent s =
     (if live then Some (bind_res (ring_transmit rs (length (positions rs)) s) (ring_on_write False)) else None)"
| "ring_complete (Ring_write live rs) (Send_error k) s =
     (if k \<le> length (positions rs) \<and> (live \<or> k = 0)
      then Some (bind_res (ring_transmit rs k s) (ring_on_write True)) else None)"
| "ring_complete _ _ s = None"

inductive ring_step :: "ring_session \<Rightarrow> ring_session res \<Rightarrow> bool" where
  "ring_pending s = xs @ op # ys \<Longrightarrow> ring_complete op ev (s\<lparr>ring_pending := xs @ ys\<rparr>) = Some r \<Longrightarrow> ring_step s r"

inductive ring_reach :: "char list \<Rightarrow> ring_session \<Rightarrow> bool" for mem where
  init: "ring_start mem = Inr s \<Longrightarrow> ring_reach mem s"
| step: "ring_reach mem s \<Longrightarrow> ring_step s (Inr s') \<Longrightarrow> ring_reach mem s'"

section \<open>Regions that are in use\<close>

text \<open>The regions of a read are the free cells after the tail; those of a write the first ones that hold data.\<close>

definition free_cells :: "circular_buffer \<Rightarrow> region list \<Rightarrow> bool" where
  "free_cells b rs \<longleftrightarrow> positions rs = ring (capacity b) (unat (tail b)) (length (positions rs)) \<and>
     length (positions rs) + unat (buf_size b) \<le> capacity b"

definition data_cells :: "circular_buffer \<Rightarrow> region list \<Rightarrow> bool" where
  "data_cells b rs \<longleftrightarrow> positions rs = ring (capacity b) (unat (head b)) (length (positions rs)) \<and>
     0 < length (positions rs) \<and> length (positions rs) \<le> unat (buf_size b)"

lemma capacity_simps [simp]:
  "capacity (commit n b) = capacity b" "capacity (consume n b) = capacity b"
  "capacity (b\<lparr>buffer := store_at ps ds (buffer b)\<rparr>) = capacity b"
  by (simp_all add: capacity_def commit_def consume_def)

lemma take_ring: "k \<le> n \<Longrightarrow> take k (ring cap from n) = ring cap from k"
  by (simp add: ring_def take_map)

lemma buffer_ok_pos: "buffer_ok b \<Longrightarrow> 0 < capacity b"
  by (simp add: buffer_ok_def good_capacity_def)

lemma prepare_rest:
  assumes ok: "buffer_ok b"
  shows "\<exists>rs. prepare (word_of_nat (capacity b - unat (buf_size b))) b = Inr rs \<and>
    (0 < unat (buf_size b) \<or> unat (tail b) mod capacity b = 0 \<longrightarrow>
       free_cells b rs \<and> length (positions rs) = capacity b - unat (buf_size b))"
proof -
  let ?n = "capacity b - unat (buf_size b)"
  have g: "good_capacity (capacity b)" "unat (buf_size b) \<le> capacity b" "0 < capacity b" "capacity b \<le> 2 ^ 63"
    using ok by (simp_all add: buffer_ok_def good_capacity_def)
  have len: "unat (word_of_nat ?n :: u64) = ?n" by (rule unat_index) (use g(4) in linarith)
  have fits: "\<not> word_of_nat (capacity b) < buf_size b + word_of_nat ?n"
    using g(2) by (simp add: of_nat_diff)
  have "positions (make_sequence (capacity b) (tail b) (tail b + word_of_nat ?n)) = ring (capacity b) (unat (tail b)) ?n"
    if "0 < unat (buf_size b) \<or> unat (tail b) mod capacity b = 0"
    by (rule make_sequence_ring [OF g(1)]) (use that g(2,3) in linarith)+
  with fits g(2) show ?thesis by (simp add: prepare_def free_cells_def)
qed

lemma data_cells_data:
  assumes ok: "buffer_ok b" and s: "0 < unat (buf_size b)"
    and full: "unat (buf_size b) < capacity b \<or> unat (head b) mod capacity b = 0"
  shows "data_cells b (data b)"
proof -
  have g: "good_capacity (capacity b)" "unat (buf_size b) \<le> capacity b" using ok by (simp_all add: buffer_ok_def)
  have t: "tail b = head b + word_of_nat (unat (buf_size b))" by (simp add: buf_size_def)
  have "positions (data b) = ring (capacity b) (unat (head b)) (unat (buf_size b))"
    using make_sequence_ring [OF g full] t by (simp add: data_def)
  with s show ?thesis by (simp add: data_cells_def)
qed

lemma receive_result:
  assumes ok: "buffer_ok (ring_buffer s)" and f: "free_cells (ring_buffer s) rs" and d: "length d \<le> length (positions rs)"
  obtains b where "ring_receive rs d s = Inr (s\<lparr>ring_buffer := b, ring_got := ring_got s @ d\<rparr>)"
    "buffer_ok b" "contents b = contents (ring_buffer s) @ d" "head b = head (ring_buffer s)"
    "capacity b = capacity (ring_buffer s)"
proof -
  let ?b = "ring_buffer s"
  let ?ps = "ring (capacity ?b) (unat (tail ?b)) (length d)"
  let ?b' = "commit (word_of_nat (length d)) (?b\<lparr>buffer := store_at ?ps d (buffer ?b)\<rparr>)"
  have ps: "take (length d) (positions rs) = ?ps" using f d take_ring by (metis free_cells_def)
  have "list_all (\<lambda>p. p < capacity ?b) ?ps" by (rule ring_below [OF buffer_ok_pos [OF ok]])
  then have r: "ring_receive rs d s = Inr (s\<lparr>ring_buffer := ?b', ring_got := ring_got s @ d\<rparr>)"
    by (simp add: ring_receive_def Let_def ps)
  have "unat (buf_size ?b) + length d \<le> capacity ?b" using f d by (simp add: free_cells_def)
  note stored = contents_stored [OF ok this refl]
  show ?thesis
    by (rule that [OF r stored [THEN conjunct1] stored [THEN conjunct2]]) (simp_all add: commit_def capacity_def)
qed

lemma transmit_result:
  assumes ok: "buffer_ok (ring_buffer s)" and f: "data_cells (ring_buffer s) rs" and k: "k \<le> length (positions rs)"
  obtains b where "ring_transmit rs k s = Inr (s\<lparr>ring_buffer := b, ring_echoed := ring_echoed s @ take k (contents (ring_buffer s))\<rparr>)"
    "buffer_ok b" "contents b = drop k (contents (ring_buffer s))" "tail b = tail (ring_buffer s)"
    "capacity b = capacity (ring_buffer s)"
proof -
  let ?b = "ring_buffer s"
  have le: "k \<le> unat (buf_size ?b)" using f k by (simp add: data_cells_def)
  have ps: "take k (positions rs) = ring (capacity ?b) (unat (head ?b)) k" using f k take_ring by (metis data_cells_def)
  have "list_all (\<lambda>p. p < capacity ?b) (ring (capacity ?b) (unat (head ?b)) k)"
    by (rule ring_below [OF buffer_ok_pos [OF ok]])
  moreover have "map (\<lambda>p. buffer ?b ! p) (ring (capacity ?b) (unat (head ?b)) k) = take k (contents ?b)"
    using le by (simp add: contents_def take_map take_ring)
  ultimately have r: "ring_transmit rs k s =
      Inr (s\<lparr>ring_buffer := consume (word_of_nat k) ?b, ring_echoed := ring_echoed s @ take k (contents ?b)\<rparr>)"
    by (simp add: ring_transmit_def Let_def ps)
  note dropped = consume_drops [OF ok, of k, unfolded length_contents, OF le]
  show ?thesis
    by (rule that [OF r dropped [THEN conjunct1] dropped [THEN conjunct2]]) (simp_all add: consume_def capacity_def)
qed

section \<open>The invariant\<close>

definition ring_reads :: "ring_session \<Rightarrow> ring_op list" where
  "ring_reads s = filter (\<lambda>op. \<not> is_ring_write op) (ring_pending s)"

definition ring_writes :: "ring_session \<Rightarrow> ring_op list" where
  "ring_writes s = filter is_ring_write (ring_pending s)"

definition echo_so_far :: "ring_session \<Rightarrow> bool" where
  "echo_so_far s \<longleftrightarrow> buffer_ok (ring_buffer s) \<and> ring_echoed s @ contents (ring_buffer s) = ring_got s"

definition write_side :: "ring_session \<Rightarrow> bool" where
  "write_side s \<longleftrightarrow>
     (if ring_writing s then \<exists>live rs. ring_writes s = [Ring_write live rs] \<and> (live \<longrightarrow> data_cells (ring_buffer s) rs)
      else ring_writes s = [])"

definition read_side :: "ring_session \<Rightarrow> bool" where
  "read_side s \<longleftrightarrow> ring_reads s = [] \<and> \<not> ring_open s \<or>
     (\<exists>live rs. ring_reads s = [Ring_read live rs] \<and> (live \<longrightarrow> free_cells (ring_buffer s) rs) \<and>
        (ring_open s \<longrightarrow> live \<and>
          (\<not> ring_writing s \<longrightarrow> length (positions rs) < capacity (ring_buffer s) \<or>
             unat (head (ring_buffer s)) mod capacity (ring_buffer s) = 0)))"

text \<open>
  An open session that is not writing has sent everything, and the read it waits for
  cannot fill the buffer unless the head is at the start of the array: the one case in which
  the data would not be two regions inside the array never arises.
\<close>

definition ring_ok :: "ring_session \<Rightarrow> bool" where
  "ring_ok s \<longleftrightarrow> echo_so_far s \<and> write_side s \<and> read_side s \<and>
     (ring_open s \<longrightarrow> ring_writing s \<or> contents (ring_buffer s) = [])"

lemmas ring_inv_defs = ring_ok_def echo_so_far_def write_side_def read_side_def ring_reads_def ring_writes_def

lemma data_cells_grow:
  assumes "data_cells b rs" "head b' = head b" "capacity b' = capacity b" "contents b' = contents b @ d"
  shows "data_cells b' rs"
  using assms(1-3) arg_cong [OF assms(4), of length] by (simp add: data_cells_def)

lemma free_cells_shrink:
  assumes "free_cells b rs" "tail b' = tail b" "capacity b' = capacity b" "contents b' = drop k (contents b)"
  shows "free_cells b' rs"
  using assms(1-3) arg_cong [OF assms(4), of length] by (simp add: free_cells_def) linarith

lemma ring_read_ok:
  assumes "echo_so_far s" "write_side s" "ring_writing s" "ring_reads s = []" "ring_open s \<Longrightarrow> contents (ring_buffer s) \<noteq> []"
  shows "\<exists>s'. ring_read s = Inr s' \<and> ring_ok s'"
proof -
  let ?b = "ring_buffer s"
  from assms(1) have "buffer_ok ?b" by (simp add: echo_so_far_def)
  from prepare_rest [OF this] obtain rs where rs:
    "prepare (word_of_nat (capacity ?b - unat (buf_size ?b))) ?b = Inr rs"
    "0 < unat (buf_size ?b) \<Longrightarrow> free_cells ?b rs" by blast
  have pos: "0 < unat (buf_size ?b)" if "ring_open s" using assms(5) [OF that] by (metis length_contents length_greater_0_conv)
  have "free_cells ?b rs" if "ring_open s" by (rule rs(2) [OF pos [OF that]])
  with rs(1) assms(1-4) show ?thesis by (auto simp: ring_read_def Let_def ring_inv_defs)
qed

lemma ring_write_ok:
  assumes "echo_so_far s" "write_side s" "\<not> ring_writing s"
    and "ring_open s \<Longrightarrow> 0 < unat (buf_size (ring_buffer s)) \<and>
      (unat (buf_size (ring_buffer s)) < capacity (ring_buffer s) \<or> unat (head (ring_buffer s)) mod capacity (ring_buffer s) = 0)"
  shows "echo_so_far (ring_write s) \<and> write_side (ring_write s)"
  using assms data_cells_data [of "ring_buffer s"] by (auto simp: ring_write_def ring_inv_defs)

lemma ring_write_simps [simp]:
  "ring_writing (ring_write s)" "ring_buffer (ring_write s) = ring_buffer s" "ring_open (ring_write s) = ring_open s"
  "ring_reads (ring_write s) = ring_reads s"
  by (simp_all add: ring_write_def ring_reads_def)

lemma ring_start_ok:
  assumes "good_capacity (length mem)"
  shows "\<exists>s. ring_start mem = Inr s \<and> ring_ok s"
proof -
  let ?b = "new_buffer mem"
  have ok: "buffer_ok ?b" using assms by (simp add: buffer_ok_def new_buffer_def capacity_def buf_size_def)
  have z: "unat (tail ?b) mod capacity ?b = 0" "unat (head ?b) mod capacity ?b = 0" "contents ?b = []"
    by (simp_all add: new_buffer_def contents_def buf_size_def ring_def)
  from prepare_rest [OF ok] z(1) obtain rs where
    "prepare (word_of_nat (capacity ?b - unat (buf_size ?b))) ?b = Inr rs" "free_cells ?b rs" by blast
  with ok z(2,3) show ?thesis by (auto simp: ring_start_def ring_read_def Let_def ring_inv_defs)
qed

lemma ring_on_read_ok:
  assumes s: "echo_so_far s" "write_side s" "ring_reads s = []" and n: "0 < n" "contents (ring_buffer s) \<noteq> []"
    and full: "ring_open s \<Longrightarrow> \<not> ring_writing s \<Longrightarrow> unat (buf_size (ring_buffer s)) < capacity (ring_buffer s) \<or>
      unat (head (ring_buffer s)) mod capacity (ring_buffer s) = 0"
  shows "\<exists>s'. ring_on_read False n s = Inr s' \<and> ring_ok s'"
proof (cases "ring_writing s")
  case True
  from ring_read_ok [OF s(1,2) True s(3)] n True show ?thesis by (simp add: ring_on_read_def)
next
  case False
  from n(2) have "0 < unat (buf_size (ring_buffer s))" by (metis length_contents length_greater_0_conv)
  with full False have "echo_so_far (ring_write s) \<and> write_side (ring_write s)"
    by (intro ring_write_ok [OF s(1,2) False]) simp
  then have "echo_so_far (ring_write s)" "write_side (ring_write s)" by simp_all
  from ring_read_ok [OF this] s(3) n False show ?thesis by (simp add: ring_on_read_def)
qed

lemma ring_on_read_fails:
  assumes "echo_so_far s" "write_side s" "ring_reads s = []" "ec \<or> n = 0"
  shows "\<exists>s'. ring_on_read ec n s = Inr s' \<and> ring_ok s'"
  using assms by (auto simp: ring_on_read_def ring_close_def ring_inv_defs)

lemma ring_on_write_ok:
  assumes s: "echo_so_far s" "ring_writes s = []" "read_side s" "ring_writing s"
    and size: "unat (buf_size (ring_buffer s)) < capacity (ring_buffer s)"
    and gap: "\<And>rs. ring_reads s = [Ring_read True rs] \<Longrightarrow> length (positions rs) < capacity (ring_buffer s)"
  shows "\<exists>s'. ring_on_write False s = Inr s' \<and> ring_ok s'"
proof -
  let ?t = "s\<lparr>ring_writing := False\<rparr>"
  have t: "echo_so_far ?t" "write_side ?t" "\<not> ring_writing ?t"
    using s(1,2) by (simp_all add: ring_inv_defs)
  show ?thesis
  proof (cases "buf_size (ring_buffer s) = 0")
    case True
    then have "contents (ring_buffer s) = []" by (metis length_contents length_0_conv unat_0)
    with True t s(3) gap show ?thesis by (auto simp: ring_on_write_def Let_def ring_inv_defs)
  next
    case False
    then have "0 < unat (buf_size (ring_buffer ?t))" by (simp add: unat_gt_0)
    with size have "echo_so_far (ring_write ?t) \<and> write_side (ring_write ?t)" by (intro ring_write_ok [OF t]) simp
    moreover have "read_side (ring_write ?t)" using s(3,4) by (auto simp: read_side_def ring_reads_def ring_write_def)
    ultimately show ?thesis using False by (simp add: ring_on_write_def ring_ok_def)
  qed
qed

lemma ring_on_write_fails:
  assumes "echo_so_far s" "ring_writes s = []" "read_side s"
  shows "\<exists>s'. ring_on_write True s = Inr s' \<and> ring_ok s'"
  using assms by (auto simp: ring_on_write_def ring_close_def ring_inv_defs)

lemma read_alone:
  assumes "ring_ok s" "ring_pending s = xs @ Ring_read live rs # ys"
  defines "t \<equiv> s\<lparr>ring_pending := xs @ ys\<rparr>"
  shows "ring_reads s = [Ring_read live rs] \<and> ring_reads t = [] \<and> echo_so_far t \<and> write_side t"
  using assms by (auto simp: ring_inv_defs append_eq_Cons_conv split: if_splits)

lemma write_alone:
  assumes "ring_ok s" "ring_pending s = xs @ Ring_write live rs # ys"
  defines "t \<equiv> s\<lparr>ring_pending := xs @ ys\<rparr>"
  shows "(live \<longrightarrow> data_cells (ring_buffer s) rs) \<and> ring_writing s \<and> ring_writes t = [] \<and> echo_so_far t \<and>
    read_side t \<and> ring_reads t = ring_reads s"
  using assms by (auto simp: ring_inv_defs append_eq_Cons_conv split: if_splits)

lemma arrived_ok:
  assumes ok: "ring_ok s" and p: "ring_pending s = xs @ Ring_read True rs # ys"
    and d: "d \<noteq> []" "length d \<le> length (positions rs)"
  shows "\<exists>s'. bind_res (ring_receive rs d (s\<lparr>ring_pending := xs @ ys\<rparr>)) (ring_on_read False (length d)) = Inr s' \<and> ring_ok s'"
proof -
  let ?t = "s\<lparr>ring_pending := xs @ ys\<rparr>"
  note t = read_alone [OF ok p]
  have f: "free_cells (ring_buffer ?t) rs"
    and gap: "ring_open s \<Longrightarrow> \<not> ring_writing s \<Longrightarrow> length (positions rs) < capacity (ring_buffer s) \<or>
      unat (head (ring_buffer s)) mod capacity (ring_buffer s) = 0"
    using ok t by (auto simp: ring_ok_def read_side_def)
  have "buffer_ok (ring_buffer ?t)" using t by (simp add: echo_so_far_def)
  from receive_result [OF this f d(2)] obtain b where b:
    "ring_receive rs d ?t = Inr (?t\<lparr>ring_buffer := b, ring_got := ring_got ?t @ d\<rparr>)"
    "buffer_ok b" "contents b = contents (ring_buffer s) @ d" "head b = head (ring_buffer s)"
    "capacity b = capacity (ring_buffer s)" by auto
  let ?u = "?t\<lparr>ring_buffer := b, ring_got := ring_got ?t @ d\<rparr>"
  have "echo_so_far ?u" using t b by (simp add: echo_so_far_def)
  moreover have "write_side ?u"
    using t data_cells_grow [OF _ b(4,5,3)] by (auto simp: write_side_def ring_writes_def split: if_splits)
  moreover have "ring_reads ?u = []" using t by (simp add: ring_reads_def)
  moreover have "unat (buf_size b) = length d" if "ring_open s" "\<not> ring_writing s"
    using that ok arg_cong [OF b(3), of length] by (simp add: ring_ok_def)
  ultimately have "\<exists>s'. ring_on_read False (length d) ?u = Inr s' \<and> ring_ok s'"
    using b d gap by (intro ring_on_read_ok) auto
  with b(1) show ?thesis by simp
qed

lemma transmitted_ok:
  assumes ok: "ring_ok s" and p: "ring_pending s = xs @ Ring_write True rs # ys" and k: "k \<le> length (positions rs)"
  obtains u where "ring_transmit rs k (s\<lparr>ring_pending := xs @ ys\<rparr>) = Inr u" "echo_so_far u" "ring_writes u = []" "read_side u"
    "ring_writing u" "0 < k \<Longrightarrow> unat (buf_size (ring_buffer u)) < capacity (ring_buffer u)"
    "\<And>rs'. 0 < k \<Longrightarrow> ring_reads u = [Ring_read True rs'] \<Longrightarrow> length (positions rs') < capacity (ring_buffer u)"
proof -
  let ?t = "s\<lparr>ring_pending := xs @ ys\<rparr>"
  note t = write_alone [OF ok p]
  then have w: "data_cells (ring_buffer ?t) rs" and bok: "buffer_ok (ring_buffer ?t)" by (simp_all add: echo_so_far_def)
  from transmit_result [OF bok w k] obtain b where b:
    "ring_transmit rs k ?t = Inr (?t\<lparr>ring_buffer := b, ring_echoed := ring_echoed ?t @ take k (contents (ring_buffer ?t))\<rparr>)"
    "buffer_ok b" "contents b = drop k (contents (ring_buffer s))" "tail b = tail (ring_buffer s)"
    "capacity b = capacity (ring_buffer s)" by auto
  let ?u = "?t\<lparr>ring_buffer := b, ring_echoed := ring_echoed ?t @ take k (contents (ring_buffer ?t))\<rparr>"
  have size: "unat (buf_size b) = unat (buf_size (ring_buffer s)) - k" using arg_cong [OF b(3), of length] by simp
  have le: "k \<le> unat (buf_size (ring_buffer s))" "unat (buf_size (ring_buffer s)) \<le> capacity (ring_buffer s)"
    using w k bok by (simp_all add: data_cells_def buffer_ok_def)
  have r: "ring_reads ?u = ring_reads s" "read_side ?t" "ring_writing ?t" using t by (simp_all add: ring_reads_def)
  have "read_side ?u"
    using r free_cells_shrink [OF _ b(4,5,3)] by (auto simp: read_side_def ring_reads_def)
  moreover have "echo_so_far ?u" using t b(2,3) by (simp add: echo_so_far_def)
  moreover have gap: "length (positions rs') < capacity (ring_buffer ?u)" if "0 < k" "ring_reads ?u = [Ring_read True rs']" for rs'
  proof -
    from that(2) r(1) ok have "free_cells (ring_buffer s) rs'" by (auto simp: ring_ok_def read_side_def)
    with that(1) le b(5) show ?thesis by (auto simp: free_cells_def)
  qed
  moreover have "ring_writes ?u = []" "ring_writing ?u" using t by (simp_all add: ring_writes_def)
  moreover have "unat (buf_size (ring_buffer ?u)) < capacity (ring_buffer ?u)" if "0 < k"
    using that size le b(5) by simp
  ultimately show ?thesis by (intro that [OF b(1)])
qed

lemma ring_step_ok:
  assumes "ring_ok s" "ring_step s r"
  shows "\<exists>s'. r = Inr s' \<and> ring_ok s'"
  using assms(2)
proof cases
  case (1 xs op ys ev)
  note ok = assms(1)
  show ?thesis
  proof (cases op)
    case (Ring_read live rs)
    note p = 1(1) [unfolded Ring_read]
    note t = read_alone [OF ok p]
    show ?thesis using 1(2) Ring_read t arrived_ok [OF ok, of xs rs ys] p
      by (cases ev) (auto split: if_splits intro!: ring_on_read_fails)
  next
    case (Ring_write live rs)
    note p = 1(1) [unfolded Ring_write]
    note t = write_alone [OF ok p]
    show ?thesis
    proof (cases live)
      case True
      with p have p: "ring_pending s = xs @ Ring_write True rs # ys" by simp
      show ?thesis
      proof (cases ev)
        case Sent
        with 1(2) Ring_write True have r: "r = bind_res (ring_transmit rs (length (positions rs))
            (s\<lparr>ring_pending := xs @ ys\<rparr>)) (ring_on_write False)" by simp
        have "0 < length (positions rs)" using t True by (simp add: data_cells_def)
        with transmitted_ok [OF ok p le_refl] r ring_on_write_ok show ?thesis by (metis bind_res.simps(2))
      next
        case (Send_error k)
        with 1(2) Ring_write True have k: "k \<le> length (positions rs)" and r: "r = bind_res
            (ring_transmit rs k (s\<lparr>ring_pending := xs @ ys\<rparr>)) (ring_on_write True)" by (auto split: if_splits)
        from transmitted_ok [OF ok p k] r ring_on_write_fails show ?thesis by (metis bind_res.simps(2))
      qed (use 1(2) Ring_write in simp_all)
    next
      case False
      then have r: "r = bind_res (ring_transmit rs 0 (s\<lparr>ring_pending := xs @ ys\<rparr>)) (ring_on_write True)"
        using 1(2) Ring_write by (cases ev) (auto split: if_splits)
      have "ring_transmit rs 0 (s\<lparr>ring_pending := xs @ ys\<rparr>) = Inr (s\<lparr>ring_pending := xs @ ys\<rparr>)"
        by (simp add: ring_transmit_def consume_def)
      with r ring_on_write_fails t show ?thesis by simp
    qed
  qed
qed

lemma good_capacity_65536: "good_capacity 65536"
proof -
  have "good_capacity (2 ^ 16)" by (rule good_capacity_power) simp
  then show ?thesis by simp
qed

lemma ring_ok_reach: "ring_reach mem s \<Longrightarrow> good_capacity (length mem) \<Longrightarrow> ring_ok s"
proof (induction rule: ring_reach.induct)
  case (init s)
  with ring_start_ok show ?case by fastforce
next
  case (step s s')
  with ring_step_ok [of s "Inr s'"] show ?case by simp
qed

section \<open>The server\<close>

text \<open>The socket of the next session is associated with a context of the group; \<open>arrays\<close> of sessions come in \<open>mem\<close>.\<close>

record ring_server =
  srv_group :: io_context_group
  srv_socket :: "nat option"
  srv_accepting :: nat
  srv_sessions :: "(nat \<times> ring_session) list"

definition srv_accept :: "ring_server \<Rightarrow> ring_server res" where
  "srv_accept v =
     bind_res (query (srv_group v)) (\<lambda>(c, g).
       Inr (v\<lparr>srv_group := g, srv_socket := Some c, srv_accepting := srv_accepting v + 1\<rparr>))"

definition ring_new_server :: "io_context_group \<Rightarrow> ring_server res" where
  "ring_new_server g = srv_accept \<lparr>srv_group = g, srv_socket = None, srv_accepting = 0, srv_sessions = []\<rparr>"

text \<open>The handler of an accept does not look at the error, and starts no other accept.\<close>

definition srv_on_accept :: "bool \<Rightarrow> char list \<Rightarrow> ring_server \<Rightarrow> ring_server res" where
  "srv_on_accept ec mem v =
     (case srv_socket v of
        None \<Rightarrow> Inl UB_OutOfBounds
      | Some c \<Rightarrow> bind_res (ring_start mem) (\<lambda>s. Inr (v\<lparr>srv_sessions := srv_sessions v @ [(c, s)]\<rparr>)))"

lemma server_serves_one:
  assumes "0 < n" "good_capacity (length mem)"
  shows "\<exists>v s v'. ring_new_server (group_of n) = Inr v \<and> srv_accepting v = 1 \<and>
    srv_on_accept ec mem (v\<lparr>srv_accepting := 0\<rparr>) = Inr v' \<and> srv_sessions v' = [(0, s)] \<and> srv_accepting v' = 0"
proof -
  from ring_start_ok [OF assms(2)] obtain s where "ring_start mem = Inr s" by blast
  with assms(1) show ?thesis
    by (simp add: ring_new_server_def srv_accept_def query_def group_of_def srv_on_accept_def)
qed

section \<open>Properties\<close>

text \<open>
  C24: the echo server over the circular buffer sends back exactly what it gets. In every
  reachable state what it has sent, followed by the contents of the buffer, is what it has
  received; whatever completes next, no handler fails and no operation touches a cell outside
  of the array, although the buffer would hand out such cells when it is full and its head is
  not at the start; at most one read and one write are pending; and an open session that is
  not writing has echoed everything.
\<close>
theorem circular_echo:
  assumes "ring_reach mem s" "length mem = 65536"
  shows "ring_echoed s @ contents (ring_buffer s) = ring_got s \<and>
    (\<forall>r. ring_step s r \<longrightarrow> (\<exists>s'. r = Inr s')) \<and>
    length (filter is_ring_write (ring_pending s)) \<le> 1 \<and>
    length (filter (\<lambda>op. \<not> is_ring_write op) (ring_pending s)) \<le> 1 \<and>
    (ring_open s \<and> filter is_ring_write (ring_pending s) = [] \<longrightarrow> ring_echoed s = ring_got s)"
proof -
  have "good_capacity (length mem)" using good_capacity_65536 assms(2) by simp
  with assms(1) have ok: "ring_ok s" by (rule ring_ok_reach)
  then have "length (ring_reads s) \<le> 1" "length (ring_writes s) \<le> 1"
    "ring_open s \<Longrightarrow> ring_writes s = [] \<Longrightarrow> contents (ring_buffer s) = []" "ring_echoed s @ contents (ring_buffer s) = ring_got s"
    by (auto simp: ring_ok_def read_side_def write_side_def echo_so_far_def split: if_splits)
  with ring_step_ok [OF ok] show ?thesis by (auto simp: ring_reads_def ring_writes_def)
qed

theorem circular_echo_witness:
  "\<exists>s. ring_reach (replicate 65536 CHR ''.'') s \<and> ring_echoed s @ contents (ring_buffer s) = ring_got s \<and>
     (\<exists>s'. ring_step s (Inr s'))"
proof -
  let ?mem = "replicate 65536 CHR ''.''"
  have "good_capacity (length ?mem)" using good_capacity_65536 by simp
  from ring_start_ok [OF this] obtain s where s: "ring_start ?mem = Inr s" "ring_ok s" by blast
  from s(1) obtain rs where p: "ring_pending s = [] @ Ring_read True rs # []"
    by (auto simp: ring_start_def ring_read_def Let_def bind_res_Inr_iff)
  from s(1) have r: "ring_reach ?mem s" by (rule ring_reach.init)
  have "\<exists>s'. ring_step s (Inr s')"
    using ring_step.intros [OF p, of Read_error] by (fastforce simp: ring_on_read_def)
  with r circular_echo [OF r] show ?thesis by auto
qed

end
