(* ===== verification/Echo_One_Context.thy ===== *)
theory Echo_One_Context
  imports Circular_Echo
begin

text \<open>
  The echo server of \<open>other_ressources/async_io_with_cpp/\<close>
  \<open>tcp_echo_server_efficient_data_read_write.cpp\<close>, with a circular buffer and one I/O service.
  (Its server and \<open>main\<close> are in the theory on the programs of the echo servers.)

  The buffer, its view and the session are translated from this file, over the state of the
  multithreaded server; then they are shown to be the same operations, so that everything
  shown there holds here.
\<close>

section \<open>The buffer\<close>

definition one_size :: "circular_buffer \<Rightarrow> u64" where
  "one_size b = tail b - head b"

definition one_max_size :: "circular_buffer \<Rightarrow> u64" where
  "one_max_size b = word_of_nat (length (buffer b))"

text \<open>The indices are reduced modulo the capacity, in place, before the two cases are told apart.\<close>

definition one_make_sequence :: "circular_buffer \<Rightarrow> u64 \<Rightarrow> u64 \<Rightarrow> region list" where
  "one_make_sequence b from until =
     (let cap = length (buffer b);
          n = until - from;
          from = unat from mod cap;
          until = unat until mod cap
      in if from \<le> until then [(from, unat n)]
         else [(from, cap - from), (0, unat n - (cap - from))])"

definition one_prepare :: "u64 \<Rightarrow> circular_buffer \<Rightarrow> region list res" where
  "one_prepare n b =
     (if one_size b + n > one_max_size b then Inl Length_error
      else Inr (one_make_sequence b (tail b) (tail b + n)))"

definition one_commit :: "u64 \<Rightarrow> circular_buffer \<Rightarrow> circular_buffer" where
  "one_commit n b = b\<lparr>tail := tail b + n\<rparr>"

definition one_consume :: "u64 \<Rightarrow> circular_buffer \<Rightarrow> circular_buffer" where
  "one_consume n b = b\<lparr>head := head b + n\<rparr>"

definition one_data :: "circular_buffer \<Rightarrow> region list" where
  "one_data b = one_make_sequence b (head b) (tail b)"

lemma one_buffer_eq:
  "one_size = buf_size" "one_prepare = prepare" "one_commit = commit" "one_consume = consume" "one_data = data"
  by (simp_all add: fun_eq_iff one_size_def one_prepare_def one_commit_def one_consume_def one_data_def
      one_make_sequence_def one_max_size_def buf_size_def prepare_def commit_def consume_def data_def
      make_sequence_def capacity_def Let_def)

section \<open>The view\<close>

definition one_view_prepare :: "u64 \<Rightarrow> nat \<Rightarrow> buffer_store \<Rightarrow> region list res" where
  "one_view_prepare n v st = one_prepare n (st v)"

definition one_view_commit :: "u64 \<Rightarrow> nat \<Rightarrow> buffer_store \<Rightarrow> buffer_store" where
  "one_view_commit n v st = st(v := one_commit n (st v))"

definition one_view_consume :: "u64 \<Rightarrow> nat \<Rightarrow> buffer_store \<Rightarrow> buffer_store" where
  "one_view_consume n v st = st(v := one_consume n (st v))"

definition one_view_data :: "nat \<Rightarrow> buffer_store \<Rightarrow> region list" where
  "one_view_data v st = one_data (st v)"

definition one_view_size :: "nat \<Rightarrow> buffer_store \<Rightarrow> u64" where
  "one_view_size v st = one_size (st v)"

definition one_view_max_size :: "nat \<Rightarrow> buffer_store \<Rightarrow> u64" where
  "one_view_max_size v st = one_max_size (st v)"

lemma one_view_eq:
  "one_view_prepare = view_prepare" "one_view_commit = view_commit" "one_view_consume = view_consume"
  "one_view_data = view_data" "one_view_size = view_size"
  "one_view_max_size v st = word_of_nat (view_max_size v st)"
  by (simp_all add: fun_eq_iff one_buffer_eq one_view_prepare_def one_view_commit_def one_view_consume_def
      one_view_data_def one_view_size_def one_view_max_size_def one_max_size_def view_prepare_def view_commit_def
      view_consume_def view_data_def view_size_def view_max_size_def capacity_def)

section \<open>The session\<close>

definition one_read :: "ring_session \<Rightarrow> ring_session res" where
  "one_read s =
     bind_res (one_prepare (word_of_nat (length (buffer (ring_buffer s)) - unat (one_size (ring_buffer s)))) (ring_buffer s))
       (\<lambda>rs. Inr (s\<lparr>ring_pending := ring_pending s @ [Ring_read (ring_open s) rs]\<rparr>))"

definition one_start :: "char list \<Rightarrow> ring_session res" where
  "one_start mem = one_read
     \<lparr>ring_pending = [], ring_buffer = \<lparr>buffer = mem, head = 0, tail = 0\<rparr>, ring_writing = False, ring_open = True,
      ring_log = [''[SERVER]: Session initialized.''], ring_got = [], ring_echoed = []\<rparr>"

definition one_write :: "ring_session \<Rightarrow> ring_session" where
  "one_write s =
     (let s = s\<lparr>ring_writing := True\<rparr>
      in s\<lparr>ring_pending := ring_pending s @ [Ring_write (ring_open s) (one_data (ring_buffer s))]\<rparr>)"

definition one_close :: "ring_session \<Rightarrow> ring_session" where
  "one_close s = s\<lparr>ring_open := False\<rparr>"

definition one_on_read :: "bool \<Rightarrow> nat \<Rightarrow> ring_session \<Rightarrow> ring_session res" where
  "one_on_read ec bytes_transferred s =
     (if \<not> ec \<and> bytes_transferred \<noteq> 0 then
        let s = (if \<not> ring_writing s then one_write s else s) in one_read s
      else
        let s = one_close s
        in Inr (s\<lparr>ring_log := ring_log s @
          [''[SESSION]: An error occured or the incoming buffer instance is completly full. Droped the session.'']\<rparr>))"

definition one_on_write :: "bool \<Rightarrow> ring_session \<Rightarrow> ring_session res" where
  "one_on_write ec s =
     (let s = s\<lparr>ring_writing := False\<rparr>
      in if \<not> ec then
           if one_size (ring_buffer s) \<noteq> 0 then Inr (one_write s) else Inr s
         else
           let s = s\<lparr>ring_log := ring_log s @ [''[SESSION]: An error occured during writeing. Dropped the session!'']\<rparr>
           in Inr (one_close s))"

lemma one_session_eq:
  "one_read = ring_read" "one_start = ring_start" "one_write = ring_write"
  "one_on_read = ring_on_read" "one_on_write = ring_on_write"
proof -
  show "one_read = ring_read" by (simp add: fun_eq_iff one_read_def ring_read_def one_buffer_eq capacity_def Let_def)
  then show "one_start = ring_start" by (simp add: fun_eq_iff one_start_def ring_start_def new_buffer_def)
  show "one_write = ring_write" by (simp add: fun_eq_iff one_write_def ring_write_def one_buffer_eq Let_def)
  with \<open>one_read = ring_read\<close> show "one_on_read = ring_on_read"
    by (simp add: fun_eq_iff one_on_read_def ring_on_read_def one_close_def ring_close_def Let_def)
  from \<open>one_write = ring_write\<close> show "one_on_write = ring_on_write"
    by (simp add: fun_eq_iff one_on_write_def ring_on_write_def one_buffer_eq one_close_def ring_close_def Let_def)
qed

section \<open>Runs of a session\<close>

text \<open>What the library does with the regions of an operation that completes.\<close>

definition one_receive :: "region list \<Rightarrow> char list \<Rightarrow> ring_session \<Rightarrow> ring_session res" where
  "one_receive rs d s =
     (let b = ring_buffer s; ps = take (length d) (positions rs)
      in if \<exists>p \<in> set ps. \<not> p < length (buffer b) then Inl UB_OutOfBounds
         else Inr (s\<lparr>ring_buffer := one_commit (word_of_nat (length d)) (b\<lparr>buffer := store_at ps d (buffer b)\<rparr>),
                     ring_got := ring_got s @ d\<rparr>))"

definition one_transmit :: "region list \<Rightarrow> nat \<Rightarrow> ring_session \<Rightarrow> ring_session res" where
  "one_transmit rs k s =
     (let b = ring_buffer s; ps = take k (positions rs)
      in if \<exists>p \<in> set ps. \<not> p < length (buffer b) then Inl UB_OutOfBounds
         else Inr (s\<lparr>ring_buffer := one_consume (word_of_nat k) b,
                     ring_echoed := ring_echoed s @ map (\<lambda>p. buffer b ! p) ps\<rparr>))"

fun one_complete :: "ring_op \<Rightarrow> ring_event \<Rightarrow> ring_session \<Rightarrow> ring_session res option" where
  "one_complete (Ring_read live rs) (Arrived d) s =
     (if live \<and> d \<noteq> [] \<and> length d \<le> length (positions rs)
      then Some (bind_res (one_receive rs d s) (one_on_read False (length d))) else None)"
| "one_complete (Ring_read live rs) Full s =
     (if positions rs = [] then Some (one_on_read False 0 s) else None)"
| "one_complete (Ring_read live rs) Read_error s = Some (one_on_read True 0 s)"
| "one_complete (Ring_write live rs) Sent s =
     (if live then Some (bind_res (one_transmit rs (length (positions rs)) s) (one_on_write False)) else None)"
| "one_complete (Ring_write live rs) (Send_error k) s =
     (if k \<le> length (positions rs) \<and> (live \<or> k = 0)
      then Some (bind_res (one_transmit rs k s) (one_on_write True)) else None)"
| "one_complete _ _ s = None"

inductive one_step :: "ring_session \<Rightarrow> ring_session res \<Rightarrow> bool" where
  "ring_pending s = xs @ op # ys \<Longrightarrow> one_complete op ev (s\<lparr>ring_pending := xs @ ys\<rparr>) = Some r \<Longrightarrow> one_step s r"

inductive one_reach :: "char list \<Rightarrow> ring_session \<Rightarrow> bool" for mem where
  init: "one_start mem = Inr s \<Longrightarrow> one_reach mem s"
| step: "one_reach mem s \<Longrightarrow> one_step s (Inr s') \<Longrightarrow> one_reach mem s'"

lemma one_at_work_eq: "one_receive = ring_receive" "one_transmit = ring_transmit"
  by (auto simp: fun_eq_iff one_receive_def ring_receive_def one_transmit_def ring_transmit_def one_buffer_eq
      capacity_def list_all_iff Let_def)

lemma one_complete_eq: "one_complete op ev s = ring_complete op ev s"
  by (cases "(op, ev, s)" rule: one_complete.cases) (simp_all add: one_session_eq one_at_work_eq)

lemma one_step_eq: "one_step s r \<longleftrightarrow> ring_step s r"
  by (simp add: one_step.simps ring_step.simps one_complete_eq)

lemma one_reach_eq: "one_reach mem s \<longleftrightarrow> ring_reach mem s"
proof
  show "ring_reach mem s" if "one_reach mem s"
    using that by induction (auto simp: one_session_eq one_step_eq intro: ring_reach.intros)
  show "one_reach mem s" if "ring_reach mem s"
    using that by induction (auto simp: one_session_eq one_step_eq intro: one_reach.intros)
qed

end
