(* ===== verification/Echo_Mains.thy ===== *)
theory Echo_Mains
  imports Echo_Server Echo_One_Context Outcomes
begin

text \<open>
  The servers and the \<open>main\<close> functions of the four echo servers of
  \<open>other_ressources/async_io_with_cpp/\<close>: \<open>simple_echo_server.cpp\<close>,
  \<open>tcp_echo_server_read_write_decoupled.cpp\<close>, \<open>tcp_echo_server_efficient_data_read_write.cpp\<close>
  and \<open>tcp_echo_server_circularbuffer_multithreaded.cpp\<close>.

  The conversions of the arguments and the opening of the acceptor are parameters that give
  their value or the text of the exception they throw.
\<close>

section \<open>The servers\<close>

text \<open>\<open>next_socket\<close>: the optional socket for the next session is there.\<close>

record 's echo_server =
  next_socket :: bool
  accepting :: nat
  echo_sessions :: "'s list"

definition simple_accept :: "echo_session echo_server \<Rightarrow> echo_session echo_server" where
  "simple_accept v = v\<lparr>next_socket := True, accepting := accepting v + 1\<rparr>"

definition simple_new_server :: "echo_session echo_server" where
  "simple_new_server = simple_accept \<lparr>next_socket = False, accepting = 0, echo_sessions = []\<rparr>"

definition simple_on_accept :: "bool \<Rightarrow> echo_session echo_server \<Rightarrow> echo_session echo_server" where
  "simple_on_accept ec v = v\<lparr>echo_sessions := echo_sessions v @ [echo_start]\<rparr>"

definition decoupled_accept :: "dec_session echo_server \<Rightarrow> dec_session echo_server" where
  "decoupled_accept v = v\<lparr>next_socket := True, accepting := accepting v + 1\<rparr>"

definition decoupled_new_server :: "dec_session echo_server" where
  "decoupled_new_server = decoupled_accept \<lparr>next_socket = False, accepting = 0, echo_sessions = []\<rparr>"

definition decoupled_on_accept :: "bool \<Rightarrow> dec_session echo_server \<Rightarrow> dec_session echo_server" where
  "decoupled_on_accept ec v = v\<lparr>echo_sessions := echo_sessions v @ [dec_start]\<rparr>"

definition one_accept :: "ring_session echo_server \<Rightarrow> ring_session echo_server" where
  "one_accept v = v\<lparr>next_socket := True, accepting := accepting v + 1\<rparr>"

definition one_new_server :: "ring_session echo_server" where
  "one_new_server = one_accept \<lparr>next_socket = False, accepting = 0, echo_sessions = []\<rparr>"

definition one_on_accept :: "bool \<Rightarrow> char list \<Rightarrow> ring_session echo_server \<Rightarrow> ring_session echo_server res" where
  "one_on_accept ec mem v =
     bind_res (one_start mem) (\<lambda>s. Inr (v\<lparr>echo_sessions := echo_sessions v @ [s]\<rparr>))"

section \<open>The programs\<close>

text \<open>The result: how the program ends, and the server there was, if it got that far.\<close>

definition simple_main ::
  "(string \<Rightarrow> string + 16 word) \<Rightarrow> (16 word \<Rightarrow> string + unit) \<Rightarrow> string list \<Rightarrow>
     echo_session echo_server option \<times> program_end" where
  "simple_main cast_ushort open_acceptor argv =
     (if length argv \<noteq> 2 then (None, Returns 0 [''Usage: Server [PORT]''])
      else case cast_ushort (argv ! 1) of
        Inl e \<Rightarrow> (None, Terminated [] e)
      | Inr prt \<Rightarrow>
          (case open_acceptor prt of
             Inl e \<Rightarrow> (None, Terminated [] e)
           | Inr _ \<Rightarrow> (Some simple_new_server, Returns 0 [])))"

definition decoupled_main ::
  "(string \<Rightarrow> string + 16 word) \<Rightarrow> (16 word \<Rightarrow> string + unit) \<Rightarrow> string list \<Rightarrow>
     dec_session echo_server option \<times> program_end" where
  "decoupled_main cast_ushort open_acceptor argv =
     (if length argv \<noteq> 2 then (None, Returns 0 [''Usage: Server [PORT]''])
      else case cast_ushort (argv ! 1) of
        Inl e \<Rightarrow> (None, Terminated [] e)
      | Inr prt \<Rightarrow>
          (case open_acceptor prt of
             Inl e \<Rightarrow> (None, Terminated [] e)
           | Inr _ \<Rightarrow> (Some decoupled_new_server, Returns 0 [])))"

definition one_main ::
  "(string \<Rightarrow> string + 16 word) \<Rightarrow> (16 word \<Rightarrow> string + unit) \<Rightarrow> string list \<Rightarrow>
     ring_session echo_server option \<times> program_end" where
  "one_main cast_ushort open_acceptor argv =
     (if length argv \<noteq> 2 then (None, Returns 0 [''Usage: Server [PORT]''])
      else case cast_ushort (argv ! 1) of
        Inl e \<Rightarrow> (None, Terminated [] e)
      | Inr prt \<Rightarrow>
          (case open_acceptor prt of
             Inl e \<Rightarrow> (None, Terminated [] e)
           | Inr _ \<Rightarrow> (Some one_new_server, Returns 0 [])))"

definition group_main ::
  "(string \<Rightarrow> string + nat) \<Rightarrow> (string \<Rightarrow> string + 16 word) \<Rightarrow> (16 word \<Rightarrow> string + unit) \<Rightarrow> string list \<Rightarrow>
     ring_server option \<times> program_end" where
  "group_main cast_size cast_ushort open_acceptor argv =
     (if length argv \<noteq> 3 then (None, Returns 0 [''Usage: Server [PORT] [THREADS]''])
      else case cast_size (argv ! 2) of
        Inl e \<Rightarrow> (None, Terminated [] e)
      | Inr n \<Rightarrow>
          (case new_group n of
             Inl _ \<Rightarrow> (None, Undefined_behaviour)
           | Inr ioservs \<Rightarrow>
               (case cast_ushort (argv ! 1) of
                  Inl e \<Rightarrow> (None, Terminated [] e)
                | Inr prt \<Rightarrow>
                    (case open_acceptor prt of
                       Inl e \<Rightarrow> (None, Terminated [] e)
                     | Inr _ \<Rightarrow>
                         (case ring_new_server ioservs of
                            Inl _ \<Rightarrow> (None, Undefined_behaviour)
                          | Inr v \<Rightarrow> (Some v, Returns 0 [''Finished server program on termination.'']))))))"

lemmas new_servers = simple_new_server_def decoupled_new_server_def one_new_server_def
  simple_accept_def decoupled_accept_def one_accept_def

lemma empty_group_server: "ring_new_server empty_group = Inl UB_OutOfBounds"
  by (simp add: ring_new_server_def srv_accept_def query_def empty_group_def)

section \<open>Properties\<close>

text \<open>
  None of the four echo programs serves anybody. Each starts the first accept and then
  leaves \<open>main\<close> without running its I/O service: whatever the arguments, the server that
  is there at the end is waiting in its first accept and has no session. The multithreaded one
  gets no server at all: when its arguments are numbers and the port is free, it has undefined
  behaviour, a null pointer in the group of contexts or, with no threads asked for, a
  division by zero.
\<close>

theorem mains_serve_nobody:
  "fst (simple_main cast_ushort open_acceptor argv) \<in> {None, Some simple_new_server} \<and>
   fst (decoupled_main cast_ushort open_acceptor argv) \<in> {None, Some decoupled_new_server} \<and>
   fst (one_main cast_ushort open_acceptor argv) \<in> {None, Some one_new_server} \<and>
   (accepting simple_new_server, accepting decoupled_new_server, accepting one_new_server) = (1, 1, 1) \<and>
   (echo_sessions simple_new_server, echo_sessions decoupled_new_server, echo_sessions one_new_server) = ([], [], []) \<and>
   fst (group_main cast_size cast_ushort open_acceptor argv) = None \<and>
   snd (group_main cast_size cast_ushort open_acceptor argv) =
     (if length argv \<noteq> 3 then Returns 0 [''Usage: Server [PORT] [THREADS]'']
      else case cast_size (argv ! 2) of
        Inl e \<Rightarrow> Terminated [] e
      | Inr n \<Rightarrow>
          if 0 < n then Undefined_behaviour
          else case cast_ushort (argv ! 1) of
            Inl e \<Rightarrow> Terminated [] e
          | Inr prt \<Rightarrow> (case open_acceptor prt of Inl e \<Rightarrow> Terminated [] e | Inr _ \<Rightarrow> Undefined_behaviour))"
  by (auto simp: simple_main_def decoupled_main_def one_main_def group_main_def new_servers new_group_eq empty_group_server
      split: sum.splits if_splits)

text \<open>Would the services run, each server would serve one client: the handler starts no other accept.\<close>

lemma one_client_only:
  "accepting (simple_on_accept ec (v\<lparr>accepting := 0\<rparr>)) = 0"
  "accepting (decoupled_on_accept ec (w\<lparr>accepting := 0\<rparr>)) = 0"
  "one_on_accept ec mem (u\<lparr>accepting := 0\<rparr>) = Inr u' \<Longrightarrow> accepting u' = 0"
  by (auto simp: simple_on_accept_def decoupled_on_accept_def one_on_accept_def bind_res_Inr_iff)

end
