(* ===== verification/Keyboard_Prototype.thy ===== *)
theory Keyboard_Prototype
  imports Main
begin

text \<open>
  \<open>other_ressources/user_input.cpp\<close>, the prototype of the keyboard thread of the custom client,
  with its two threads. The keyboard thread reads characters until one is known, keeps its
  promise with it and returns; the main thread polls the future, acts on the character, joins
  the thread and starts a new one with a new promise. A step is one character read, or one turn
  of the main loop, in any order.
\<close>

section \<open>The two threads\<close>

definition proto_inputs :: "char set" where
  "proto_inputs = {CHR ''a'', CHR ''d'', CHR ''p'', CHR ''m'', CHR ''s'', CHR ''q'', CHR 0x03}"

text \<open>\<open>typed\<close> is what has not been read yet, \<open>taken\<close> what has been.\<close>

record proto =
  typed :: string
  taken :: string
  listening :: bool
  promised :: "char option"
  running :: bool
  shown :: "string list"

definition show_line :: "string \<Rightarrow> proto \<Rightarrow> proto" where
  "show_line line p = p\<lparr>shown := shown p @ [line]\<rparr>"

text \<open>Setting up a thread with a new promise.\<close>

definition listen :: "proto \<Rightarrow> proto" where
  "listen p = p\<lparr>promised := None, listening := True\<rparr>"

definition proto_start :: "string \<Rightarrow> proto" where
  "proto_start input = listen
     \<lparr>typed = input, taken = [], listening = False, promised = None, running = True, shown = [''Programm started'']\<rparr>"

text \<open>The body of the loop in \<open>get_keyboard_input\<close>, for the character that is read.\<close>

definition proto_key :: "char \<Rightarrow> proto \<Rightarrow> proto" where
  "proto_key input p =
     (if input \<in> proto_inputs then
        if input = CHR 0x03 then p\<lparr>promised := Some input, listening := False\<rparr>
        else (show_line '' was your input'' p)\<lparr>promised := Some input, listening := False\<rparr>
      else show_line '' was your input - no action triggered.'' p)"

text \<open>A turn of the main loop; the future that is not ready is waited for.\<close>

definition proto_turn :: "proto \<Rightarrow> proto" where
  "proto_turn p =
     (case promised p of
        None \<Rightarrow> p
      | Some input_character \<Rightarrow>
          if input_character = CHR ''q'' then (show_line ''quit commend accepted!'' p)\<lparr>running := False\<rparr>
          else if input_character = CHR ''a'' then listen (show_line ''server accept'' p)
          else if input_character = CHR ''d'' then listen (show_line ''server deny'' p)
          else if input_character = CHR ''p'' then listen (show_line ''server ping'' p)
          else if input_character = CHR ''m'' then listen (show_line ''message all'' p)
          else if input_character = CHR ''s'' then listen (show_line ''server message'' p)
          else if input_character = CHR 0x03 then p\<lparr>running := False\<rparr>
          else listen (show_line (input_character # '' is not a valid input. Please try again with a, d, p, m or s to interact with the server or quit the program by pressing q.'') p))"

text \<open>The join in a turn waits for a thread that has kept its promise, and so is at its end.\<close>

inductive proto_step :: "proto \<Rightarrow> proto \<Rightarrow> bool" where
  key: "running p \<Longrightarrow> listening p \<Longrightarrow> typed p = c # cs \<Longrightarrow>
     proto_step p (proto_key c (p\<lparr>typed := cs, taken := taken p @ [c]\<rparr>))"
| turn: "running p \<Longrightarrow> promised p = None \<or> \<not> listening p \<Longrightarrow> proto_step p (proto_turn p)"

inductive proto_reach :: "string \<Rightarrow> proto \<Rightarrow> bool" for input where
  init: "proto_reach input (proto_start input)"
| step: "proto_reach input p \<Longrightarrow> proto_step p p' \<Longrightarrow> proto_reach input p'"

section \<open>What the program shows\<close>

definition quits :: "char \<Rightarrow> bool" where
  "quits c \<longleftrightarrow> c = CHR ''q'' \<or> c = CHR 0x03"

text \<open>The lines of the main thread, and of both, for a character.\<close>

definition answer :: "char \<Rightarrow> string list" where
  "answer c =
     (if c = CHR ''q'' then [''quit commend accepted!'']
      else if c = CHR ''a'' then [''server accept''] else if c = CHR ''d'' then [''server deny'']
      else if c = CHR ''p'' then [''server ping''] else if c = CHR ''m'' then [''message all'']
      else if c = CHR ''s'' then [''server message''] else [])"

definition echo_line :: "char \<Rightarrow> string list" where
  "echo_line c =
     (if c \<notin> proto_inputs then ['' was your input - no action triggered.'']
      else if c = CHR 0x03 then [] else ['' was your input''])"

definition transcript :: "string \<Rightarrow> string list" where
  "transcript cs = ''Programm started'' # concat (map (\<lambda>c. echo_line c @ answer c) cs)"

definition proto_ok :: "string \<Rightarrow> proto \<Rightarrow> bool" where
  "proto_ok input p \<longleftrightarrow> taken p @ typed p = input \<and>
     (case promised p of
        None \<Rightarrow> running p \<and> listening p \<and> shown p = transcript (taken p) \<and> list_all (\<lambda>c. \<not> quits c) (taken p)
      | Some c \<Rightarrow> \<not> listening p \<and> c \<in> proto_inputs \<and>
          (\<exists>cs. taken p = cs @ [c] \<and> list_all (\<lambda>c. \<not> quits c) cs \<and>
             (if running p then shown p = transcript cs @ echo_line c
              else quits c \<and> shown p = transcript (taken p))))"

lemma transcript_snoc [simp]: "transcript (cs @ [c]) = transcript cs @ echo_line c @ answer c"
  by (simp add: transcript_def)

lemma proto_key_ok:
  assumes "proto_ok input p" "running p" "listening p" "typed p = c # cs"
  shows "proto_ok input (proto_key c (p\<lparr>typed := cs, taken := taken p @ [c]\<rparr>))"
proof -
  have none: "promised p = None" using assms(1,3) by (auto simp: proto_ok_def split: option.splits)
  have "\<not> quits c \<and> answer c = []" if "c \<notin> proto_inputs"
    using that by (auto simp: proto_inputs_def quits_def answer_def)
  with assms none show ?thesis
    by (cases "c \<in> proto_inputs") (auto simp: proto_ok_def proto_key_def show_line_def echo_line_def)
qed

lemma proto_turn_ok:
  assumes ok: "proto_ok input p" and r: "running p"
  shows "proto_ok input (proto_turn p)"
proof (cases "promised p")
  case None
  with ok show ?thesis by (simp add: proto_turn_def)
next
  case (Some c)
  with ok r obtain cs where c: "c \<in> proto_inputs" "\<not> listening p" "taken p = cs @ [c]" "list_all (\<lambda>c. \<not> quits c) cs"
    "shown p = transcript cs @ echo_line c" "taken p @ typed p = input"
    by (auto simp: proto_ok_def)
  show ?thesis
  proof (cases "quits c")
    case True
    with Some c show ?thesis by (auto simp: proto_ok_def proto_turn_def quits_def answer_def show_line_def)
  next
    case False
    then have "proto_turn p = listen (p\<lparr>shown := shown p @ answer c\<rparr>)"
      using Some c(1) by (auto simp: proto_turn_def proto_inputs_def quits_def answer_def show_line_def)
    with False c r show ?thesis by (simp add: proto_ok_def listen_def)
  qed
qed

lemma proto_ok_reach: "proto_reach input p \<Longrightarrow> proto_ok input p"
proof (induction rule: proto_reach.induct)
  case init
  show ?case by (simp add: proto_ok_def proto_start_def listen_def transcript_def)
next
  case (step p p')
  from step(2) show ?case
    by cases (use step(3) proto_key_ok proto_turn_ok in blast)+
qed

section \<open>Properties\<close>

text \<open>
  C35: the two threads together act as one loop over the characters. Whatever their
  interleaving, once the program has ended it has read the characters up to the first \<open>q\<close>
  or control-C, and what it has shown is determined by them, one answer for each known character in
  its order; the message for an invalid character is never shown by the main thread. While it
  runs no such character has been answered, and nothing but missing input can hold it up.
\<close>
theorem proto_transcript:
  assumes "proto_reach input p"
  shows "taken p @ typed p = input \<and>
    (\<not> running p \<longrightarrow> shown p = transcript (taken p) \<and>
       (\<exists>cs c. taken p = cs @ [c] \<and> quits c \<and> (\<forall>d \<in> set cs. \<not> quits d))) \<and>
    (running p \<longrightarrow> (\<forall>c \<in> set (butlast (taken p)). \<not> quits c) \<and>
       (promised p = None \<and> typed p = [] \<or> (\<exists>p'. proto_step p p' \<and> p' \<noteq> p)))"
proof -
  have ok: "proto_ok input p" using assms by (rule proto_ok_reach)
  have moves: "promised p = None \<and> typed p = [] \<or> (\<exists>p'. proto_step p p' \<and> p' \<noteq> p)" if r: "running p"
  proof (cases "promised p")
    case None
    show ?thesis
    proof (cases "typed p")
      case (Cons c cs)
      with None ok have "listening p" by (simp add: proto_ok_def)
      then have "proto_step p (proto_key c (p\<lparr>typed := cs, taken := taken p @ [c]\<rparr>))"
        by (rule proto_step.key [OF r _ Cons])
      moreover have "typed (proto_key c (p\<lparr>typed := cs, taken := taken p @ [c]\<rparr>)) = cs"
        by (simp add: proto_key_def show_line_def)
      then have "proto_key c (p\<lparr>typed := cs, taken := taken p @ [c]\<rparr>) \<noteq> p" using Cons by auto
      ultimately show ?thesis by blast
    qed (simp add: None)
  next
    case (Some c)
    with ok r have "\<not> listening p" by (simp add: proto_ok_def)
    with r have "proto_step p (proto_turn p)" by (intro proto_step.turn) simp_all
    moreover have "running (proto_turn p) = False \<or> promised (proto_turn p) = None"
      using Some by (simp add: proto_turn_def listen_def)
    with Some r have "proto_turn p \<noteq> p" by auto
    ultimately show ?thesis by blast
  qed
  from ok have "\<not> running p \<longrightarrow> shown p = transcript (taken p) \<and>
       (\<exists>cs c. taken p = cs @ [c] \<and> quits c \<and> (\<forall>d \<in> set cs. \<not> quits d))"
    by (auto simp: proto_ok_def list_all_iff split: option.splits)
  moreover from ok have "running p \<longrightarrow> (\<forall>c \<in> set (butlast (taken p)). \<not> quits c)"
    by (auto simp: proto_ok_def list_all_iff split: option.splits dest: in_set_butlastD)
  ultimately show ?thesis using ok moves by (simp add: proto_ok_def)
qed

theorem proto_transcript_witness:
  "\<exists>p. proto_reach ''q'' p \<and> \<not> running p \<and>
     shown p = [''Programm started'', '' was your input'', ''quit commend accepted!'']"
proof -
  let ?p1 = "proto_key CHR ''q'' ((proto_start ''q'')\<lparr>typed := [], taken := ''q''\<rparr>)"
  note ev = proto_start_def listen_def proto_key_def proto_inputs_def show_line_def proto_turn_def
  have "proto_reach ''q'' ?p1"
    by (rule proto_reach.step [OF proto_reach.init])
      (use proto_step.key [of "proto_start ''q''" "CHR ''q''" "[]"] in \<open>simp add: proto_start_def listen_def\<close>)
  moreover have "proto_step ?p1 (proto_turn ?p1)" by (rule proto_step.turn) (simp_all add: ev)
  ultimately have r: "proto_reach ''q'' (proto_turn ?p1)" by (rule proto_reach.step)
  have "\<not> running (proto_turn ?p1)" "taken (proto_turn ?p1) = ''q''" by (simp_all add: ev)
  with proto_transcript [OF r] r show ?thesis
    by (intro exI [of _ "proto_turn ?p1"]) (simp add: transcript_def echo_line_def answer_def proto_inputs_def)
qed

end
