(* ===== verification/Sync_Clients.thy ===== *)
theory Sync_Clients
  imports Http_Clients Outcomes
begin

text \<open>
  The synchronous clients: \<open>simple_http_get_client.cpp\<close> and \<open>simple_websocket_client.cpp\<close> of
  \<open>other_ressources/boost_beast/src/\<close>, \<open>ssl_client_example.cpp\<close> of
  \<open>other_ressources/async_io_with_cpp/\<close>, and \<open>src/main_client.cpp\<close>; and the \<open>main\<close> functions
  of the asynchronous HTTP clients.

  Each is one sequence of calls of the library, which are arguments: they give their value or
  throw. A call that is given an error code does not throw, and none of these programs
  looks at the code of \<open>resolve\<close>: what it gives without a result is an empty list of endpoints.
\<close>

section \<open>HTTP and websocket\<close>

definition http_get_main ::
  "string \<Rightarrow> (string \<Rightarrow> string \<Rightarrow> 'ep list) \<Rightarrow> ('ep list \<Rightarrow> string + 'conn) \<Rightarrow>
     ('conn \<Rightarrow> get_request \<Rightarrow> string + 'conn) \<Rightarrow> ('conn \<Rightarrow> string + string) \<Rightarrow> string list \<Rightarrow> program_end" where
  "http_get_main beast resolve connect write read argv =
     (if length argv \<noteq> 4 then Returns 1
        [''Usage: http-client-sync <host> <port> <target>'', ''Example:'',
         ''    http-client-sync www.example.com 80 /'', ''    http-client-sync www.example.com 80 / 1.0'']
      else
        let host = argv ! 1; port = argv ! 2; query = argv ! 3; version = 10;
            domain_results = resolve host port
        in case attempt (connect domain_results) (\<lambda>stream.
                attempt (write stream \<lparr>get_version = version, get_target = query, get_host = host, get_agent = beast\<rparr>)
                  read) of
             Inl e \<Rightarrow> Returns 1 [''ERROR: '' @ e]
           | Inr response \<Rightarrow> Returns 0 [''The response from the server is:'' @ blank_line @ response, ''Finished program.''])"

text \<open>
  The websocket client: \<open>connect\<close> also gives the port it has connected to, which goes into the
  host text of the handshake. The answer is printed after the connection is closed.
\<close>

definition websocket_main ::
  "string \<Rightarrow> (nat \<Rightarrow> string) \<Rightarrow> (string \<Rightarrow> string \<Rightarrow> 'ep list) \<Rightarrow> ('ep list \<Rightarrow> string + nat \<times> 'conn) \<Rightarrow>
     (string \<Rightarrow> string \<Rightarrow> string \<Rightarrow> 'conn \<Rightarrow> string + 'conn) \<Rightarrow> (string \<Rightarrow> 'conn \<Rightarrow> string + 'conn) \<Rightarrow>
     ('conn \<Rightarrow> string + string \<times> 'conn) \<Rightarrow> ('conn \<Rightarrow> string + unit) \<Rightarrow> string list \<Rightarrow> program_end" where
  "websocket_main beast show_nat resolve connect handshake write read close argv =
     (if length argv \<noteq> 4 then Returns 1
        [''Usage: websocket-client-sync <host> <port> <text>'', ''Example:'',
         ''    websocket-client-sync echo.websocket.org 80 '' @ [CHR 0x22] @ ''Hello, world!'' @ [CHR 0x22]]
      else
        let host = argv ! 1; port = argv ! 2; txt = argv ! 3
        in case attempt (connect (resolve host port)) (\<lambda>(data_port, ws).
                let host = host @ '':'' @ show_nat data_port; user_agent = beast @ '' websocket-client-coro''
                in attempt (handshake user_agent host ''/'' ws) (\<lambda>ws.
                   attempt (write txt ws) (\<lambda>ws.
                   attempt (read ws) (\<lambda>(message, ws).
                   attempt (close ws) (\<lambda>_. Inr message))))) of
             Inl e \<Rightarrow> Returns 1 [''An error occured: '' @ e]
           | Inr message \<Rightarrow> Returns 0
               [''Connection successfully closed!'', ''This is the received message from the server:'' @ blank_line @ message,
                ''Finished program!''])"

section \<open>TLS, without a handler of exceptions\<close>

definition ssl_client_request :: string where
  "ssl_client_request = ''GET / HTTP/1.1'' @ [CHR 0x0A] @ ''Host: www.google.com'' @ [CHR 0x0A] @ ''Connection: close'' @ blank_line"

text \<open>
  The error of the read is not looked at: what has come in until then is printed. Printing a
  buffer without characters makes \<open>cout\<close> fail, and nothing more is printed.
\<close>

definition ssl_client_main ::
  "(string \<Rightarrow> string \<Rightarrow> string + 'ep list) \<Rightarrow> ('ep list \<Rightarrow> string + 'conn) \<Rightarrow> ('conn \<Rightarrow> string + 'conn) \<Rightarrow>
     (string \<Rightarrow> 'conn \<Rightarrow> string + 'conn) \<Rightarrow> ('conn \<Rightarrow> string \<times> string option) \<Rightarrow> program_end" where
  "ssl_client_main resolve connect handshake write read =
     (case attempt (resolve ''google.com'' ''443'') (\<lambda>endpt_array.
           attempt (connect endpt_array) (\<lambda>sock.
           attempt (handshake sock) (\<lambda>sock.
           attempt (write ssl_client_request sock) (\<lambda>sock. Inr (fst (read sock)))))) of
        Inl e \<Rightarrow> Terminated [] e
      | Inr response \<Rightarrow> Returns 0
          (''This is the response from the server:'' #
           (if response = [] then [] else [response, blank_line @ ''Finished program.''])))"

section \<open>The first client\<close>

text \<open>
  \<open>connect\<close> gives its error, if any; \<open>write_some\<close> is given the request and its error is
  overwritten; \<open>available\<close> is the number of bytes that have arrived in the pause, or throws;
  \<open>read_some\<close> stores some of them at the front of the buffer, which is as long as that number
  and filled with null characters, and its error is not looked at.
\<close>

definition first_request :: string where
  "first_request =
     (let crlf = [CHR 0x0D, CHR 0x0A]
      in ''GET /index.html HTTP/1.1'' @ crlf @ ''Host: example.com'' @ crlf @ ''Connection: close'' @ crlf @ crlf)"

definition first_client_main ::
  "(nat \<Rightarrow> string) \<Rightarrow> string option \<Rightarrow> (string \<Rightarrow> string + nat) \<Rightarrow> (nat \<Rightarrow> string) \<Rightarrow> program_end" where
  "first_client_main show_nat connect_ec available read_some =
     (case connect_ec of
        Some e \<Rightarrow> Returns 1 [''An error occured: '' @ e]
      | None \<Rightarrow>
          let out = [''Connected - continue programm'']
          in case available first_request of
               Inl e \<Rightarrow> Terminated out e
             | Inr n \<Rightarrow>
                 let out = out @ [''We have '' @ show_nat n @ '' available from the server response!'']
                 in if n > 0 then
                      let response_buffer = replicate n (CHR 0x00);
                          response_buffer = take n (read_some n) @ drop (length (read_some n)) response_buffer
                      in Returns 0 (out @ [response_buffer])
                    else Returns 1 (out @ [''There was no data from the server to be received!'']))"

section \<open>The programs of the asynchronous clients\<close>

text \<open>What a program runs: the session as it is when the service starts, with the exit code and last line.\<close>

definition get_client_main :: "string \<Rightarrow> outcome list \<Rightarrow> string list \<Rightarrow> program_end" where
  "get_client_main beast outcomes argv =
     (if length argv \<noteq> 4 then Returns 1
        [''Usage: http-client-async <host> <port> <target>'', ''Example:'',
         ''    http-client-async www.example.com 80 /'']
      else
        let s = get_run beast (argv ! 1) (argv ! 3) 10 (get_session ''[SESSION]: Session initialized.'')
        in Returns 0 (cl_out (run_chain get_handler cl_pending cl_clear outcomes s) @ [''Finished program'']))"

definition ssl_get_client_main :: "bool \<Rightarrow> string \<Rightarrow> outcome list \<Rightarrow> string list \<Rightarrow> program_end" where
  "ssl_get_client_main sni_ok beast outcomes argv =
     (if length argv \<noteq> 4 then Returns 1
        [''Usage: http-client-async-ssl <host> <port> <target> [<HTTP version: 1.0 or 1.1(default)>]'', ''Example:'',
         ''    http-client-async-ssl www.example.com 443 /'', ''    http-client-async-ssl www.example.com 443 / 1.0'']
      else
        let s = ssl_run sni_ok beast (argv ! 1) (argv ! 3) 10 (get_session ''[SESSION]: Client session initialized!'')
        in Returns 0 (cl_out (run_chain ssl_handler cl_pending cl_clear outcomes s) @ [''Finished program'']))"

section \<open>Properties\<close>

text \<open>
  The synchronous HTTP client. With the right number of arguments it exits with 0 exactly
  if it could connect, send its request and read the response, and then it has printed
  that response; otherwise it exits with 1 and one line that tells the first failure.
\<close>

theorem http_get_outcome:
  assumes "length argv = 4"
  shows "case http_get_main beast resolve connect write_all read argv of
     Returns code lines \<Rightarrow>
       (code = 0 \<longleftrightarrow> (\<exists>stream stream' response. connect (resolve (argv ! 1) (argv ! 2)) = Inr stream \<and>
          write_all stream \<lparr>get_version = 10, get_target = argv ! 3, get_host = argv ! 1, get_agent = beast\<rparr> = Inr stream' \<and>
          read stream' = Inr response \<and>
          lines = [''The response from the server is:'' @ blank_line @ response, ''Finished program.''])) \<and>
       (code \<noteq> 0 \<longrightarrow> code = 1 \<and> (\<exists>e. lines = [''ERROR: '' @ e]))
   | _ \<Rightarrow> False"
  using assms by (auto simp: http_get_main_def attempt_Inl attempt_Inr Let_def split: sum.splits)

theorem http_get_outcome_witness:
  "\<exists>e. http_get_main ''Beast'' (\<lambda>host port. []) (\<lambda>eps. if eps = [] then Inl ''no endpoint'' else Inr (hd eps))
     (\<lambda>(conn :: nat) req. Inr conn) (\<lambda>conn. Inr ''hello'') [''client'', ''nowhere'', ''80'', ''/''] = Returns 1 [''ERROR: '' @ e]"
proof -
  have "length [''client'', ''nowhere'', ''80'', ''/''] = 4" by simp
  from http_get_outcome [OF this, where beast = "''Beast''" and resolve = "\<lambda>host port. []"
      and connect = "\<lambda>eps. if eps = [] then Inl ''no endpoint'' else Inr (hd eps)"
      and write_all = "\<lambda>(conn :: nat) req. Inr conn" and read = "\<lambda>conn. Inr ''hello''"]
  show ?thesis by (auto split: program_end.splits)
qed

text \<open>
  The websocket client loses the answer of the server when closing the connection fails:
  everything before has gone well, the message is there, and the one line that is printed is
  the error of the close.
\<close>

theorem websocket_answer_lost:
  assumes "length argv = 4" "connect (resolve (argv ! 1) (argv ! 2)) = Inr (data_port, ws1)"
    and "handshake (beast @ '' websocket-client-coro'') (argv ! 1 @ '':'' @ show_nat data_port) ''/'' ws1 = Inr ws2"
    and "write (argv ! 3) ws2 = Inr ws3" "read ws3 = Inr (message, ws4)"
  shows "websocket_main beast show_nat resolve connect handshake write read close argv =
    (case close ws4 of
       Inr _ \<Rightarrow> Returns 0
         [''Connection successfully closed!'', ''This is the received message from the server:'' @ blank_line @ message,
          ''Finished program!'']
     | Inl e \<Rightarrow> Returns 1 [''An error occured: '' @ e])"
  using assms by (cases "close ws4") (simp_all add: websocket_main_def Let_def)

theorem websocket_answer_lost_witness:
  "websocket_main ''Beast'' (\<lambda>n. ''80'') (\<lambda>host port. [()]) (\<lambda>eps. Inr (80, ())) (\<lambda>agent host tgt ws. Inr ws)
     (\<lambda>txt ws. Inr ws) (\<lambda>ws. Inr (''hello'', ws)) (\<lambda>ws. Inl ''broken pipe'') [''client'', ''host'', ''80'', ''hi''] =
     Returns 1 [''An error occured: '' @ ''broken pipe'']"
  by (subst websocket_answer_lost [where message = "''hello''"]) simp_all

text \<open>
  The first client prints as many characters as have been available. When the read gives
  fewer, with an error or without, the rest is null characters, and the exit code is 0.
\<close>

theorem first_client_prints:
  assumes "connect_ec = None" "available first_request = Inr n" "0 < n" "length (read_some n) \<le> n"
  shows "\<exists>txt. first_client_main show_nat connect_ec available read_some = Returns 0
      [''Connected - continue programm'', ''We have '' @ show_nat n @ '' available from the server response!'', txt] \<and>
    length txt = n \<and> txt = read_some n @ replicate (n - length (read_some n)) (CHR 0x00)"
  using assms by (simp add: first_client_main_def Let_def)

theorem first_client_prints_witness:
  "first_client_main (\<lambda>n. ''3'') None (\<lambda>req. Inr 3) (\<lambda>n. ''a'') = Returns 0
     [''Connected - continue programm'', ''We have '' @ ''3'' @ '' available from the server response!'',
      ''a'' @ [CHR 0x00, CHR 0x00]]"
proof -
  have "(3 :: nat) - length ''a'' = 2" by simp
  moreover have "replicate 2 (CHR 0x00) = [CHR 0x00, CHR 0x00]" by (simp add: numeral_2_eq_2)
  ultimately show ?thesis
    using first_client_prints [of None "\<lambda>req. Inr 3" 3 "\<lambda>n. ''a''" "\<lambda>n. ''3''"] by simp
qed

text \<open>The asynchronous clients exit with 0 for every run of their session, failed ones included.\<close>

lemma get_client_exit_code:
  assumes "length argv = 4"
  shows "\<exists>lines. get_client_main beast outcomes argv = Returns 0 lines"
    and "\<exists>lines. ssl_get_client_main sni_ok beast outcomes argv = Returns 0 lines"
  using assms by (simp_all add: get_client_main_def ssl_get_client_main_def Let_def)

text \<open>Without a handler, the TLS client ends by the first exception, and then prints nothing.\<close>

lemma ssl_client_ends:
  "ssl_client_main resolve connect handshake write read = Terminated lines e \<Longrightarrow> lines = []"
  "ssl_client_main resolve connect handshake write read = Returns code lines \<Longrightarrow> code = 0"
  by (auto simp: ssl_client_main_def split: sum.splits)

end
