(* ===== verification/Reading_Clients.thy ===== *)
theory Reading_Clients
  imports Outcomes
begin

text \<open>
  The clients that read in a loop: \<open>src/main_client_async.cpp\<close> and
  \<open>other_ressources/the_boost_libraries/networking_client.cpp\<close>. A read stores what has come
  in at the front of a global array; the handler prints that many characters of the array
  and starts the next read; an error ends the loop. (What comes of the write of the request has no
  effect on what is printed.)

  The locale \<open>read_loop\<close> states what both rely on. Printing a number is a parameter.
\<close>

locale read_loop =
  fixes arrived :: "string \<Rightarrow> 's \<Rightarrow> 's" and broken :: "'s \<Rightarrow> 's"
    and waiting :: "'s \<Rightarrow> bool" and printed :: "'s \<Rightarrow> string"
    and chunk :: "string \<Rightarrow> bool" and shown :: "string \<Rightarrow> string" and ok :: "'s \<Rightarrow> bool"
  assumes arrived: "ok s \<Longrightarrow> waiting s \<Longrightarrow> chunk d \<Longrightarrow>
      ok (arrived d s) \<and> waiting (arrived d s) \<and> printed (arrived d s) = printed s @ shown d"
    and broken: "ok s \<Longrightarrow> waiting s \<Longrightarrow> \<not> waiting (broken s) \<and> printed (broken s) = printed s"
begin

lemma stream:
  "ok s \<Longrightarrow> waiting s \<Longrightarrow> \<forall>d \<in> set ds. chunk d \<Longrightarrow>
     ok (fold arrived ds s) \<and> waiting (fold arrived ds s) \<and>
     printed (fold arrived ds s) = printed s @ concat (map shown ds)"
proof (induction ds arbitrary: s)
  case (Cons d ds)
  with arrived [of s d] show ?case by simp
qed simp

lemma stream_ends:
  assumes "ok s" "waiting s" "\<forall>d \<in> set ds. chunk d"
  shows "\<not> waiting (broken (fold arrived ds s)) \<and>
     printed (broken (fold arrived ds s)) = printed s @ concat (map shown ds)"
  using stream [OF assms] broken by simp

end

text \<open>The characters of the array up to a length, one by one, as both handlers print them.\<close>

definition read_out :: "string \<Rightarrow> nat \<Rightarrow> string" where
  "read_out storage n = map (\<lambda>i. storage ! i) [0..<n]"

definition store_front :: "string \<Rightarrow> string \<Rightarrow> string" where
  "store_front d storage = d @ drop (length d) storage"

lemma read_out_front [simp]: "read_out (store_front d storage) (length d) = d"
proof -
  have "read_out (store_front d storage) (length d) = map (\<lambda>i. d ! i) [0..<length d]"
    by (simp add: read_out_def store_front_def nth_append)
  then show ?thesis by (simp add: map_nth)
qed

lemma length_store_front [simp]: "length d \<le> length storage \<Longrightarrow> length (store_front d storage) = length storage"
  by (simp add: store_front_def)

section \<open>The asynchronous client\<close>

text \<open>\<open>lines\<close>: what \<open>main\<close> prints. The pause and the stop of the service end the run of the handlers.\<close>

record async_client =
  global_receive_storage :: string
  grabbing :: bool
  grabbed :: string

definition grapSomeData :: "async_client \<Rightarrow> async_client" where
  "grapSomeData c = c\<lparr>grabbing := True\<rparr>"

definition grab_banner :: "(nat \<Rightarrow> string) \<Rightarrow> nat \<Rightarrow> string" where
  "grab_banner show_nat n =
     [CHR 0x0A, CHR 0x0A] @ ''Read '' @ show_nat n @ '' bytes'' @ [CHR 0x0A, CHR 0x0A]"

definition grab_handler :: "(nat \<Rightarrow> string) \<Rightarrow> bool \<Rightarrow> nat \<Rightarrow> async_client \<Rightarrow> async_client" where
  "grab_handler show_nat ec n c =
     (if \<not> ec then
        grapSomeData (c\<lparr>grabbed := grabbed c @ grab_banner show_nat n @ read_out (global_receive_storage c) n\<rparr>)
      else c)"

text \<open>The read that is pending completes: it stores its data, and its handler runs.\<close>

definition grab_arrived :: "(nat \<Rightarrow> string) \<Rightarrow> string \<Rightarrow> async_client \<Rightarrow> async_client" where
  "grab_arrived show_nat d c =
     grab_handler show_nat False (length d)
       (c\<lparr>grabbing := False, global_receive_storage := store_front d (global_receive_storage c)\<rparr>)"

definition grab_broken :: "(nat \<Rightarrow> string) \<Rightarrow> async_client \<Rightarrow> async_client" where
  "grab_broken show_nat c = grab_handler show_nat True 0 (c\<lparr>grabbing := False\<rparr>)"

definition async_client :: async_client where
  "async_client = \<lparr>global_receive_storage = replicate 1024 (CHR 0x00), grabbing = False, grabbed = []\<rparr>"

definition async_client_main ::
  "(nat \<Rightarrow> string) \<Rightarrow> string option \<Rightarrow> string list \<Rightarrow> bool \<Rightarrow> program_end" where
  "async_client_main show_nat connect_ec chunks ended =
     (case connect_ec of
        Some e \<Rightarrow> Returns 1 [''An error occured: '' @ e]
      | None \<Rightarrow>
          let c = fold (grab_arrived show_nat) chunks (grapSomeData async_client);
              c = (if ended then grab_broken show_nat c else c)
          in Returns 0 [''Connected - continue programm'', grabbed c, ''Finished reading!''])"

lemmas grab_defs = grab_arrived_def grab_broken_def grab_handler_def grapSomeData_def

interpretation grab: read_loop "grab_arrived show_nat" "grab_broken show_nat" grabbing grabbed
  "\<lambda>d. length d \<le> 1024" "\<lambda>d. grab_banner show_nat (length d) @ d" "\<lambda>c. length (global_receive_storage c) = 1024"
  for show_nat
  by unfold_locales (simp_all add: grab_defs)

section \<open>The client with three handlers\<close>

datatype net_stage = Net_resolving | Net_connecting | Net_reading

text \<open>An exception thrown by a handler leaves \<open>run\<close> and ends the program; \<open>thrown\<close> is its text.\<close>

record net_client =
  net_pending :: "net_stage option"
  bytes :: string
  net_printed :: string
  net_sent :: string
  thrown :: "string option"

definition net_request :: string where
  "net_request =
     (let crlf = [CHR 0x0D, CHR 0x0A]
      in ''GET / HTTP/1.1'' @ crlf @ ''Host: theboostcpplibraries.com'' @ crlf @ crlf)"

definition read_handler :: "bool \<Rightarrow> nat \<Rightarrow> net_client \<Rightarrow> net_client" where
  "read_handler ec bytes_transferred c =
     (if \<not> ec then c\<lparr>net_printed := net_printed c @ read_out (bytes c) bytes_transferred, net_pending := Some Net_reading\<rparr>
      else c)"

definition connect_handler :: "bool \<Rightarrow> string option \<Rightarrow> net_client \<Rightarrow> net_client" where
  "connect_handler ec write_error c =
     (if \<not> ec then
        (case write_error of
           Some e \<Rightarrow> c\<lparr>thrown := Some e\<rparr>
         | None \<Rightarrow> c\<lparr>net_sent := net_sent c @ net_request, net_pending := Some Net_reading\<rparr>)
      else c)"

definition resolve_handler :: "bool \<Rightarrow> net_client \<Rightarrow> net_client" where
  "resolve_handler ec c = (if \<not> ec then c\<lparr>net_pending := Some Net_connecting\<rparr> else c)"

definition net_start_text :: string where
  "net_start_text = ''Asynchronous operation started already'' @ [CHR 0x0A] @
     ''The io_service object .run() method is called now'' @ [CHR 0x0A]"

definition net_client :: net_client where
  "net_client = \<lparr>net_pending = Some Net_resolving, bytes = replicate 4096 (CHR 0x00), net_printed = net_start_text, net_sent = [], thrown = None\<rparr>"

datatype net_event = Succeeds | Fails | Throws string | Arrives string

fun net_complete :: "net_event \<Rightarrow> net_client \<Rightarrow> net_client option" where
  "net_complete ev c =
     (let idle = c\<lparr>net_pending := None\<rparr>
      in case (net_pending c, ev) of
           (Some Net_resolving, Succeeds) \<Rightarrow> Some (resolve_handler False idle)
         | (Some Net_resolving, Fails) \<Rightarrow> Some (resolve_handler True idle)
         | (Some Net_connecting, Succeeds) \<Rightarrow> Some (connect_handler False None idle)
         | (Some Net_connecting, Throws e) \<Rightarrow> Some (connect_handler False (Some e) idle)
         | (Some Net_connecting, Fails) \<Rightarrow> Some (connect_handler True None idle)
         | (Some Net_reading, Arrives d) \<Rightarrow>
             if length d \<le> length (bytes c)
             then Some (read_handler False (length d) (idle\<lparr>bytes := store_front d (bytes c)\<rparr>)) else None
         | (Some Net_reading, Fails) \<Rightarrow> Some (read_handler True 0 idle)
         | _ \<Rightarrow> None)"

primrec net_run :: "net_event list \<Rightarrow> net_client \<Rightarrow> net_client option" where
  "net_run [] c = Some c"
| "net_run (ev # evs) c = Option.bind (net_complete ev c) (net_run evs)"

definition net_arrived :: "string \<Rightarrow> net_client \<Rightarrow> net_client" where
  "net_arrived d c = read_handler False (length d) (c\<lparr>net_pending := None, bytes := store_front d (bytes c)\<rparr>)"

definition net_broken :: "net_client \<Rightarrow> net_client" where
  "net_broken c = read_handler True 0 (c\<lparr>net_pending := None\<rparr>)"

interpretation net: read_loop net_arrived net_broken "\<lambda>c. net_pending c = Some Net_reading" net_printed
  "\<lambda>d. length d \<le> 4096" "\<lambda>d. d" "\<lambda>c. length (bytes c) = 4096"
  by unfold_locales (simp_all add: net_arrived_def net_broken_def read_handler_def)

lemma net_run_append: "net_run (as @ bs) c = Option.bind (net_run as c) (net_run bs)"
  by (induction as arbitrary: c) (auto split: Option.bind_split)

lemma net_run_arrives:
  "length (bytes c) = 4096 \<Longrightarrow> net_pending c = Some Net_reading \<Longrightarrow> \<forall>d \<in> set ds. length d \<le> 4096 \<Longrightarrow>
     net_run (map Arrives ds) c = Some (fold net_arrived ds c)"
proof (induction ds arbitrary: c)
  case (Cons d ds)
  then have "net_complete (Arrives d) c = Some (net_arrived d c)" by (simp add: net_arrived_def)
  with Cons net.arrived [of c d] show ?case by simp
qed simp

section \<open>Properties\<close>

text \<open>
  The asynchronous client prints what comes in, all of it, once and in order. Each part, at
  most as long as the storage, is printed after a line with its length, whatever was in
  the storage before; an error ends the loop and prints nothing.
\<close>

theorem async_client_prints:
  assumes "\<forall>d \<in> set chunks. length d \<le> 1024"
  shows "async_client_main show_nat None chunks ended = Returns 0
    [''Connected - continue programm'', concat (map (\<lambda>d. grab_banner show_nat (length d) @ d) chunks), ''Finished reading!'']"
proof -
  let ?c = "grapSomeData async_client"
  have "length (global_receive_storage ?c) = 1024" "grabbing ?c" and e: "grabbed ?c = []"
    by (simp_all add: grapSomeData_def async_client_def)
  from grab.stream [OF this(1,2) assms] grab.stream_ends [OF this(1,2) assms] show ?thesis
    by (simp add: async_client_main_def e Let_def)
qed

theorem async_client_prints_witness:
  "async_client_main (\<lambda>n. ''2'') None [''ab'', ''cd''] True = Returns 0
     [''Connected - continue programm'',
      (grab_banner (\<lambda>n. ''2'') 2 @ ''ab'') @ (grab_banner (\<lambda>n. ''2'') 2 @ ''cd''), ''Finished reading!'']"
  using async_client_prints [of "[''ab'', ''cd'']" "\<lambda>n. ''2''" True] by (simp add: numeral_2_eq_2)

text \<open>
  The client of three handlers sends its request once, after it has connected, and prints the
  stream of characters that comes back; the end of the connection ends it with nothing pending.
\<close>

theorem net_client_prints:
  assumes "\<forall>d \<in> set ds. length d \<le> 4096"
  shows "\<exists>c. net_run (Succeeds # Succeeds # map Arrives ds @ [Fails]) net_client = Some c \<and>
    net_sent c = net_request \<and> net_printed c = net_start_text @ concat ds \<and> net_pending c = None \<and> thrown c = None"
proof -
  let ?c = "net_client\<lparr>net_sent := net_request, net_pending := Some Net_reading\<rparr>"
  have c: "length (bytes ?c) = 4096" "net_pending ?c = Some Net_reading" by (simp_all add: net_client_def)
  have start: "net_run (Succeeds # Succeeds # evs) net_client = net_run evs ?c" for evs
    by (simp add: net_client_def resolve_handler_def connect_handler_def)
  have sent: "net_sent (fold net_arrived ds c) = net_sent c \<and> thrown (fold net_arrived ds c) = thrown c" for c ds
    by (induction ds arbitrary: c) (simp_all add: net_arrived_def read_handler_def)
  from net.stream [OF c assms] have e: "net_pending (fold net_arrived ds ?c) = Some Net_reading"
    "net_printed (fold net_arrived ds ?c) = net_start_text @ concat ds" by (simp_all add: net_client_def)
  have "net_run [Fails] (fold net_arrived ds ?c) = Some ((fold net_arrived ds ?c)\<lparr>net_pending := None\<rparr>)"
    using e(1) by (simp add: read_handler_def)
  with net_run_arrives [OF c assms] e(2) sent [of ds ?c] show ?thesis
    unfolding start by (simp add: net_run_append net_client_def)
qed

theorem net_client_prints_witness:
  "\<exists>c. net_run [Succeeds, Succeeds, Arrives ''ab'', Arrives ''c'', Fails] net_client = Some c \<and> net_printed c = net_start_text @ ''abc''"
  using net_client_prints [of "[''ab'', ''c'']"] by (auto simp del: net_run.simps)

end
