(* ===== verification/Small_Servers.thy ===== *)
theory Small_Servers
  imports Outcomes
begin

text \<open>
  Small servers. Of \<open>other_ressources/async_io_with_cpp/\<close>: \<open>send_recursive_not_recommend.cpp\<close>,
  which sends a text in as many parts as it takes; \<open>simple_tcp_server.cpp\<close>, which prints a line
  of each client; \<open>buffer_sequence.cpp\<close> and \<open>buffer_with_variadic_templates.cpp\<close>, which send
  a fixed web page; the UDP servers \<open>simple_udp_server.cpp\<close> and \<open>simple_udp_server_async.cpp\<close>.
  And \<open>the_boost_libraries/networking_time_server.cpp\<close>, which sends the date once.
\<close>

section \<open>Sending in parts\<close>

text \<open>
  \<open>send_pending\<close>: the data given to the send operation, and whether the socket was open when it
  was started; an operation on a closed socket can only fail, one started before may still
  send something.
\<close>

record sender =
  send_pending :: "(string \<times> bool) option"
  send_open :: bool
  delivered :: string
  send_out :: "string list"

definition send_part :: "string \<Rightarrow> sender \<Rightarrow> sender" where
  "send_part data_to_send s = s\<lparr>send_pending := Some (data_to_send, send_open s)\<rparr>"

definition on_send :: "string option \<Rightarrow> nat \<Rightarrow> string \<Rightarrow> sender \<Rightarrow> sender" where
  "on_send ec bytes_transferred data_to_send s =
     (case ec of
        None \<Rightarrow>
          let rest = drop bytes_transferred data_to_send
          in if rest \<noteq> [] then send_part rest s else s\<lparr>send_out := send_out s @ [''Message delivered'']\<rparr>
      | Some message \<Rightarrow> s\<lparr>send_out := send_out s @ [''ERROR: '' @ message]\<rparr>)"

text \<open>The text is an array of characters, with the null character at its end.\<close>

definition greeting :: string where
  "greeting = ''Hello, this is a test.'' @ [CHR 0x00]"

definition send_on_accept :: "bool \<Rightarrow> sender \<Rightarrow> sender" where
  "send_on_accept ec s =
     (if \<not> ec then
        let s = s\<lparr>send_out := send_out s @ [''Sending data to the client'']\<rparr>;
            s = send_part greeting s;
            s = s\<lparr>send_out := send_out s @ [''Finished sending.'']\<rparr>
        in s\<lparr>send_open := False\<rparr>
      else s\<lparr>send_out := send_out s @ [''ERROR: Error while trying to send data to the client.'']\<rparr>)"

datatype send_event = Sent_part nat | Send_failed string

definition send_complete :: "send_event \<Rightarrow> sender \<Rightarrow> sender option" where
  "send_complete ev s =
     (case send_pending s of
        None \<Rightarrow> None
      | Some (d, live) \<Rightarrow>
          (case ev of
             Sent_part k \<Rightarrow>
               if live \<and> 0 < k \<and> k \<le> length d
               then Some (on_send None k d (s\<lparr>send_pending := None, delivered := delivered s @ take k d\<rparr>)) else None
           | Send_failed message \<Rightarrow> Some (on_send (Some message) 0 d (s\<lparr>send_pending := None\<rparr>))))"

primrec send_run :: "send_event list \<Rightarrow> sender \<Rightarrow> sender option" where
  "send_run [] s = Some s"
| "send_run (ev # evs) s = Option.bind (send_complete ev s) (send_run evs)"

definition sender :: sender where
  "sender = \<lparr>send_pending = None, send_open = True, delivered = [], send_out = []\<rparr>"

text \<open>On a socket that stays open, sending on after each part delivers the whole text.\<close>

lemma send_run_open:
  "send_run evs s = Some s' \<Longrightarrow> send_pending s = Some (d, True) \<Longrightarrow> send_open s \<Longrightarrow> d \<noteq> [] \<Longrightarrow>
     (\<forall>ev \<in> set evs. \<exists>k. ev = Sent_part k) \<Longrightarrow>
     (case send_pending s' of
        None \<Rightarrow> delivered s' = delivered s @ d \<and> send_out s' = send_out s @ [''Message delivered'']
      | Some (rest, live) \<Rightarrow> live \<and> delivered s' @ rest = delivered s @ d \<and> send_out s' = send_out s)"
proof (induction evs arbitrary: s d)
  case (Cons ev evs)
  then obtain k where ev: "ev = Sent_part k" by auto
  from Cons.prems(1) obtain s1 where s1: "send_complete ev s = Some s1" "send_run evs s1 = Some s'"
    by (cases "send_complete ev s") auto
  show ?case
  proof (cases "drop k d = []")
    case True
    with s1(1) ev Cons.prems(2) have "s1 = s\<lparr>send_pending := None, delivered := delivered s @ d,
        send_out := send_out s @ [''Message delivered'']\<rparr>"
      by (auto simp: send_complete_def on_send_def split: if_splits)
    with s1(2) show ?thesis by (cases evs) (auto simp: send_complete_def)
  next
    case False
    with s1(1) ev Cons.prems(2,3) have
      "send_pending s1 = Some (drop k d, True)" "send_open s1" "delivered s1 = delivered s @ take k d" "send_out s1 = send_out s"
      by (auto simp: send_complete_def on_send_def send_part_def Let_def split: if_splits)
    with Cons.IH [OF s1(2)] False Cons.prems(5) show ?thesis by (auto split: option.splits)
  qed
qed simp

text \<open>With nothing pending nothing completes; an operation on the closed socket can only fail.\<close>

lemma send_run_idle: "send_pending s = None \<Longrightarrow> send_run evs s = Some s' \<longleftrightarrow> evs = [] \<and> s' = s"
  by (cases evs) (auto simp: send_complete_def)

lemma send_run_dead:
  assumes "send_pending s = Some (d, False)"
  shows "send_run evs s = Some s' \<longleftrightarrow> (evs = [] \<and> s' = s) \<or>
    (\<exists>m. evs = [Send_failed m] \<and> s' = s\<lparr>send_pending := None, send_out := send_out s @ [''ERROR: '' @ m]\<rparr>)"
proof (cases evs)
  case (Cons ev evs')
  with assms show ?thesis by (cases ev) (auto simp: send_complete_def on_send_def send_run_idle)
qed auto

section \<open>Lines of clients\<close>

text \<open>
  A session reads once, until a line has come in or an error ends the read, and prints all that is in
  its buffer then. The handler of an accept starts a session, with an error or without, and the
  next accept. \<open>line_taken\<close> records what a handler has taken out of the buffer of its session.
  Printing a buffer without characters puts \<open>cout\<close> into the failed state, in which it
  prints nothing any more.
\<close>

record line_session =
  line_reading :: bool
  line_taken :: "string list"

record line_server =
  line_accepting :: nat
  line_sessions :: "line_session list"
  cout_good :: bool
  line_out :: "string list"

definition line_start :: line_session where
  "line_start = \<lparr>line_reading = True, line_taken = []\<rparr>"

definition line_print :: "string \<Rightarrow> line_server \<Rightarrow> line_server" where
  "line_print line v = (if cout_good v then v\<lparr>line_out := line_out v @ [line]\<rparr> else v)"

definition line_async_accept :: "line_server \<Rightarrow> line_server" where
  "line_async_accept v = v\<lparr>line_accepting := line_accepting v + 1\<rparr>"

definition line_on_accept :: "bool \<Rightarrow> line_server \<Rightarrow> line_server" where
  "line_on_accept ec v =
     line_async_accept ((line_print ''Session initialized'' v)\<lparr>line_sessions := line_sessions v @ [line_start]\<rparr>)"

definition line_on_read :: "nat \<Rightarrow> string \<Rightarrow> line_server \<Rightarrow> line_server" where
  "line_on_read i streambuff v =
     (let s = line_sessions v ! i;
          v = (if streambuff = [] then v\<lparr>cout_good := False\<rparr> else line_print streambuff v)
      in v\<lparr>line_sessions := (line_sessions v)[i := s\<lparr>line_taken := line_taken s @ [streambuff]\<rparr>]\<rparr>)"

definition line_server :: line_server where
  "line_server = line_async_accept
     \<lparr>line_accepting = 0, line_sessions = [], cout_good = True, line_out = [''Initializing Server successful.'']\<rparr>"

inductive line_step :: "line_server \<Rightarrow> line_server \<Rightarrow> bool" where
  accepted: "line_accepting v = Suc n \<Longrightarrow> line_step v (line_on_accept ec (v\<lparr>line_accepting := n\<rparr>))"
| read: "i < length (line_sessions v) \<Longrightarrow> line_reading (line_sessions v ! i) \<Longrightarrow>
     line_step v (line_on_read i got
       (v\<lparr>line_sessions := (line_sessions v)[i := (line_sessions v ! i)\<lparr>line_reading := False\<rparr>]\<rparr>))"

inductive line_reach :: "line_server \<Rightarrow> bool" where
  init: "line_reach line_server"
| step: "line_reach v \<Longrightarrow> line_step v v' \<Longrightarrow> line_reach v'"

definition line_session_ok :: "bool \<Rightarrow> line_session \<Rightarrow> bool" where
  "line_session_ok good s \<longleftrightarrow>
     length (line_taken s) = (if line_reading s then 0 else 1) \<and> (good \<longrightarrow> [] \<notin> set (line_taken s))"

definition line_ok :: "line_server \<Rightarrow> bool" where
  "line_ok v \<longleftrightarrow> line_accepting v = 1 \<and> (\<forall>s \<in> set (line_sessions v). line_session_ok (cout_good v) s) \<and>
     (\<not> cout_good v \<longrightarrow> (\<exists>s \<in> set (line_sessions v). [] \<in> set (line_taken s)))"

lemma line_print_simps [simp]:
  "line_accepting (line_print t v) = line_accepting v" "line_sessions (line_print t v) = line_sessions v"
  "cout_good (line_print t v) = cout_good v" "\<not> cout_good v \<Longrightarrow> line_print t v = v"
  by (simp_all add: line_print_def)

lemma line_read_result:
  assumes "i < length (line_sessions v)" "line_reading (line_sessions v ! i)"
    and "v' = line_on_read i got (v\<lparr>line_sessions := (line_sessions v)[i := (line_sessions v ! i)\<lparr>line_reading := False\<rparr>]\<rparr>)"
  shows "line_sessions v' = (line_sessions v)[i := (line_sessions v ! i)\<lparr>line_reading := False,
      line_taken := line_taken (line_sessions v ! i) @ [got]\<rparr>]"
    and "line_accepting v' = line_accepting v" "cout_good v' \<longleftrightarrow> cout_good v \<and> got \<noteq> []"
    and "\<not> cout_good v \<Longrightarrow> line_out v' = line_out v"
  using assms by (simp_all add: line_on_read_def Let_def)

lemma line_read_ok:
  assumes ok: "line_ok v" and i: "i < length (line_sessions v)" "line_reading (line_sessions v ! i)"
    and v': "line_sessions v' = (line_sessions v)[i := (line_sessions v ! i)\<lparr>line_reading := False,
      line_taken := line_taken (line_sessions v ! i) @ [got]\<rparr>]"
      "line_accepting v' = line_accepting v" "cout_good v' \<longleftrightarrow> cout_good v \<and> got \<noteq> []"
  shows "line_ok v'"
proof -
  let ?s = "line_sessions v ! i" and ?good = "cout_good v \<and> got \<noteq> []"
  let ?t = "?s\<lparr>line_reading := False, line_taken := line_taken ?s @ [got]\<rparr>"
  have all: "\<forall>s \<in> set (line_sessions v). line_session_ok (cout_good v) s" using ok by (simp add: line_ok_def)
  then have "line_session_ok (cout_good v) ?s" using i(1) by simp
  with i(2) have t: "line_session_ok ?good ?t" and s: "line_taken ?s = []" by (auto simp: line_session_ok_def)
  have "line_session_ok ?good s" if "s \<in> set ((line_sessions v)[i := ?t])" for s
  proof -
    from that have "s = ?t \<or> s \<in> set (line_sessions v)" using set_update_subset_insert [of "line_sessions v" i ?t] by blast
    with t all show ?thesis by (auto simp: line_session_ok_def)
  qed
  moreover have "\<exists>s \<in> set ((line_sessions v)[i := ?t]). [] \<in> set (line_taken s)" if "\<not> ?good"
  proof (cases "got = []")
    case True
    then show ?thesis using i(1) by (intro bexI [of _ ?t]) (simp_all add: set_update_memI)
  next
    case False
    with that ok obtain j where j: "j < length (line_sessions v)" "[] \<in> set (line_taken (line_sessions v ! j))"
      unfolding line_ok_def by (metis in_set_conv_nth)
    with s have "(line_sessions v)[i := ?t] ! j = line_sessions v ! j" by (cases "i = j") simp_all
    with j show ?thesis by (metis length_list_update nth_mem)
  qed
  ultimately show ?thesis using ok v' by (simp add: line_ok_def)
qed

lemma line_ok_reach: "line_reach v \<Longrightarrow> line_ok v"
proof (induction rule: line_reach.induct)
  case init
  show ?case by (simp add: line_ok_def line_server_def line_async_accept_def)
next
  case (step v v')
  from step(2) show ?case
  proof cases
    case (accepted n ec)
    with step(3) show ?thesis
      by (auto simp: line_ok_def line_on_accept_def line_async_accept_def line_start_def line_session_ok_def)
  next
    case (read i got)
    from line_read_ok [OF step(3) read(2,3)] line_read_result [OF read(2,3,1)] show ?thesis by blast
  qed
qed

section \<open>A fixed web page\<close>

definition nl :: string where
  "nl = [CHR 0x0A]"

definition http_header :: string where
  "http_header =
     ''HTTP/1.1 200 OK'' @ nl @ ''Date: Mon, 06 Sept 2021 08:59:53 GMT'' @ nl @ ''Server: Ubuntu 16.04 LTS'' @ nl @
     ''Last-Modified: Mon, 06 Sept 2021 08:57:56 GMT'' @ nl @ ''Content-Length: 88'' @ nl @
     ''Content-Type: text/html'' @ nl @ ''Connection: Closed'' @ nl @ nl"

definition payload :: string where
  "payload = ''<html>'' @ nl @ ''<body>'' @ nl"

definition payload2 :: "string \<Rightarrow> string" where
  "payload2 title = ''<h1>'' @ title @ ''</h1>'' @ nl @ ''</body>'' @ nl @ ''</html>'' @ nl @ nl"

text \<open>The sequence of buffers is written as one; on success the socket is closed. The result: what was sent, and the lines.\<close>

definition page_server :: "string \<Rightarrow> (nat \<Rightarrow> string) \<Rightarrow> string \<Rightarrow> bool \<Rightarrow> nat option \<Rightarrow> string \<times> bool \<times> string list" where
  "page_server title show_nat address accept_ec stopped =
     (let page = concat [http_header, payload, payload2 title];
          out = [''Starting the server.'', ''The size of the payload buffer is: '' @ show_nat (length payload),
                 ''And the pointer to the data is: '' @ address]
      in if accept_ec then ([], False, out @ [''[SERVER]: Error on connection.'', ''Finished program.''])
         else
           let out = out @ [''Connection successful. Sending the HTTP response.'']
           in case stopped of
                None \<Rightarrow> (page, True, out @ [''Sending the Web page.'', ''Finished program.''])
              | Some k \<Rightarrow> (take k page, False,
                  out @ [''[SERVER]: An error occured by sending the http response.'', ''Finished program.'']))"

definition first_page :: "(nat \<Rightarrow> string) \<Rightarrow> string \<Rightarrow> bool \<Rightarrow> nat option \<Rightarrow> string \<times> bool \<times> string list" where
  "first_page = page_server ''Hello, World!''"

definition variadic_page :: "(nat \<Rightarrow> string) \<Rightarrow> string \<Rightarrow> bool \<Rightarrow> nat option \<Rightarrow> string \<times> bool \<times> string list" where
  "variadic_page = page_server ''hello, world!''"

section \<open>Datagrams\<close>

text \<open>
  The array has the size of the largest datagram; what is received is sent back. Both calls
  may throw: a receive gives the exception or the datagram, which comes with the exception of
  the send, if there is one. The result: what was sent back, and the exception that has ended
  the program.
\<close>

fun udp_echo :: "(string + string \<times> string option) list \<Rightarrow> string list \<times> string option" where
  "udp_echo [] = ([], None)"
| "udp_echo (Inl e # rs) = ([], Some e)"
| "udp_echo (Inr (d, send_error) # rs) =
     (let buffer_array = take 65536 d
      in case send_error of
           Some e \<Rightarrow> ([], Some e)
         | None \<Rightarrow> let (sent, fin) = udp_echo rs in (buffer_array # sent, fin))"

text \<open>
  The asynchronous server receives one datagram into an array that is not initialised, \<open>mem\<close>, and
  makes a string of the array up to its first null character; without one it reads past the
  end, which is undefined. (An error is handled as a datagram without characters.)
\<close>

definition udp_receive_one :: "(nat \<Rightarrow> string) \<Rightarrow> string \<Rightarrow> string \<Rightarrow> program_end" where
  "udp_receive_one show_nat mem d =
     (let stored = take (length mem) d;
          buffer_array = stored @ drop (length stored) mem
      in if CHR 0x00 \<notin> set buffer_array then Undefined_behaviour
         else Returns 0
           [''Message is received, message size is: '' @ show_nat (length stored),
            ''This is the received data:'' @ nl @ takeWhile (\<lambda>c. c \<noteq> CHR 0x00) buffer_array @ nl, ''Finished program!''])"

section \<open>The date\<close>

text \<open>\<open>date\<close> is the text of the time of the accept; \<open>data\<close> is a global variable, since the write refers to it.\<close>

record time_server =
  time_data :: string
  time_writing :: bool
  time_sent :: string
  time_shut :: bool
  time_out :: "string list"

definition accept_handler :: "bool \<Rightarrow> string \<Rightarrow> time_server \<Rightarrow> time_server" where
  "accept_handler ec date s =
     (let s = s\<lparr>time_out := time_out s @ [''New client request was recognized. Processing the request...'']\<rparr>
      in if \<not> ec then s\<lparr>time_data := date, time_writing := True\<rparr> else s)"

definition write_handler :: "bool \<Rightarrow> time_server \<Rightarrow> time_server" where
  "write_handler ec s =
     (if \<not> ec then s\<lparr>time_out := time_out s @ [''Finished processing the request. End the connection to the client''],
                      time_shut := True\<rparr>
      else s)"

text \<open>The program: the accept completes, then the write, if one was started; with an error after a part.\<close>

definition time_main :: "bool \<Rightarrow> string \<Rightarrow> nat option \<Rightarrow> time_server" where
  "time_main accept_ec date stopped =
     (let s = accept_handler accept_ec date
            \<lparr>time_data = [], time_writing = False, time_sent = [], time_shut = False, time_out = []\<rparr>
      in if \<not> time_writing s then s
         else case stopped of
           None \<Rightarrow> write_handler False (s\<lparr>time_writing := False, time_sent := time_data s\<rparr>)
         | Some k \<Rightarrow> write_handler True (s\<lparr>time_writing := False, time_sent := take k (time_data s)\<rparr>))"

section \<open>Properties\<close>

text \<open>
  The server that sends in parts closes its socket at once. So only the first part arrives:
  however the operations complete, what was delivered is a prefix of the text, all of it
  exactly if the first operation took all, and \<open>Message delivered\<close> is printed exactly then;
  there are at most two completions.
\<close>

theorem sent_in_one_part:
  assumes "send_run evs (send_on_accept False sender) = Some s"
  shows "length evs \<le> 2 \<and> (\<exists>rest. delivered s @ rest = greeting) \<and>
    (delivered s = greeting \<longleftrightarrow> evs = [Sent_part (length greeting)]) \<and>
    (''Message delivered'' \<in> set (send_out s) \<longleftrightarrow> delivered s = greeting)"
proof -
  let ?s0 = "send_on_accept False sender"
  have g: "greeting \<noteq> []" by (simp add: greeting_def)
  have p: "send_pending ?s0 = Some (greeting, True)" "\<not> send_open ?s0" "delivered ?s0 = []"
    "send_out ?s0 = [''Sending data to the client'', ''Finished sending.'']"
    by (simp_all add: send_on_accept_def send_part_def sender_def Let_def)
  show ?thesis
  proof (cases evs)
    case Nil
    with assms p g show ?thesis by simp
  next
    case (Cons ev es)
    show ?thesis
    proof (cases ev)
      case (Send_failed m)
      with assms Cons p g show ?thesis by (auto simp: send_complete_def on_send_def send_run_idle)
    next
      case (Sent_part k)
      let ?t = "?s0\<lparr>send_pending := None, delivered := take k greeting\<rparr>"
      from assms Cons Sent_part p have k: "0 < k" "k \<le> length greeting"
        and run: "send_run es (on_send None k greeting ?t) = Some s"
        by (auto simp: send_complete_def split: if_splits)
      show ?thesis
      proof (cases "k = length greeting")
        case True
        with run p have "es = []" "s = ?t\<lparr>send_out := send_out ?t @ [''Message delivered'']\<rparr>"
          by (simp_all add: on_send_def send_run_idle)
        with True Cons Sent_part show ?thesis by simp
      next
        case False
        with k have part: "take k greeting \<noteq> greeting" by (metis le_antisym length_take min.absorb2 order_refl)
        from False k have "on_send None k greeting ?t = send_part (drop k greeting) ?t" by (simp add: on_send_def)
        with run p have "(es = [] \<and> s = send_part (drop k greeting) ?t) \<or> (\<exists>m. es = [Send_failed m] \<and>
            s = (send_part (drop k greeting) ?t)\<lparr>send_pending := None, send_out := send_out ?t @ [''ERROR: '' @ m]\<rparr>)"
          by (simp add: send_run_dead send_part_def)
        with part False Cons Sent_part p show ?thesis
          by (auto simp: send_part_def intro: exI [of _ "drop k greeting"])
      qed
    qed
  qed
qed

theorem sent_in_one_part_witness:
  "\<exists>s. send_run [Sent_part 5, Send_failed ''Bad file descriptor''] (send_on_accept False sender) = Some s \<and>
     delivered s \<noteq> greeting"
proof -
  obtain s where s: "send_run [Sent_part 5, Send_failed ''Bad file descriptor''] (send_on_accept False sender) = Some s"
    by (simp add: send_on_accept_def send_part_def sender_def send_complete_def on_send_def greeting_def)
  from sent_in_one_part [OF this] have "delivered s \<noteq> greeting" by simp
  with s show ?thesis by blast
qed

text \<open>
  The server of lines is always ready for the next client, and the handler of each session
  runs once. But \<open>cout\<close> works exactly as long as each client has sent something: after a client
  that goes away without a character the server prints nothing any more, for any client.
\<close>

theorem line_server_serves:
  assumes "line_reach v"
  shows "line_accepting v = 1 \<and>
    (\<forall>s \<in> set (line_sessions v). length (line_taken s) = (if line_reading s then 0 else 1)) \<and>
    (cout_good v \<longleftrightarrow> (\<forall>s \<in> set (line_sessions v). [] \<notin> set (line_taken s))) \<and>
    (\<not> cout_good v \<longrightarrow> (\<forall>v'. line_step v v' \<longrightarrow> line_out v' = line_out v \<and> \<not> cout_good v'))"
proof -
  have "line_out v' = line_out v \<and> \<not> cout_good v'" if "\<not> cout_good v" "line_step v v'" for v'
    using that(2)
  proof cases
    case (accepted n ec)
    with that(1) show ?thesis by (simp add: line_on_accept_def line_async_accept_def)
  next
    case (read i got)
    from line_read_result(3,4) [OF read(2,3,1)] that(1) show ?thesis by blast
  qed
  with line_ok_reach [OF assms] show ?thesis by (auto simp: line_ok_def line_session_ok_def)
qed

theorem line_server_serves_witness:
  "\<exists>v. line_reach v \<and> line_sessions v = [line_start] \<and> line_accepting v = 1"
proof -
  let ?v = "line_on_accept False (line_server\<lparr>line_accepting := 0\<rparr>)"
  have "line_accepting line_server = Suc 0" by (simp add: line_server_def line_async_accept_def)
  then have r: "line_reach ?v" by (rule line_reach.step [OF line_reach.init line_step.accepted])
  have "line_sessions ?v = [line_start]" by (simp add: line_on_accept_def line_async_accept_def line_server_def)
  with r line_server_serves [OF r] show ?thesis by blast
qed

text \<open>
  The page announces 88 characters and has fewer: a client that goes by the length waits until
  the server closes the connection.
\<close>

lemma page_length:
  "length (payload @ payload2 ''Hello, World!'') = 54"
  "fst (first_page show_nat address False None) = http_header @ payload @ payload2 ''Hello, World!''"
  by (simp_all add: payload_def payload2_def nl_def first_page_def page_server_def Let_def)

text \<open>
  The asynchronous UDP server prints the datagram exactly if the array happens to hold a null
  character right behind it; otherwise it prints what else is there, up to the first null
  character, or reads outside of the array. (The datagram is one without null characters.)
\<close>

theorem udp_prints_datagram:
  assumes "CHR 0x00 \<notin> set d" "length d < length mem"
  shows "(udp_receive_one show_nat mem d = Undefined_behaviour \<longleftrightarrow> CHR 0x00 \<notin> set (drop (length d) mem)) \<and>
    (udp_receive_one show_nat mem d = Returns 0
       [''Message is received, message size is: '' @ show_nat (length d),
        ''This is the received data:'' @ nl @ d @ nl, ''Finished program!''] \<longleftrightarrow> mem ! length d = CHR 0x00)"
proof -
  have m: "drop (length d) mem = mem ! length d # drop (Suc (length d)) mem"
    using assms(2) by (simp add: Cons_nth_drop_Suc)
  have "takeWhile (\<lambda>c. c \<noteq> CHR 0x00) (d @ drop (length d) mem) = d @ takeWhile (\<lambda>c. c \<noteq> CHR 0x00) (drop (length d) mem)"
    using assms(1) by (intro takeWhile_append2) auto
  with assms m show ?thesis by (auto simp: udp_receive_one_def Let_def)
qed

theorem udp_prints_datagram_witness:
  "udp_receive_one (\<lambda>n. ''2'') ''abcd'' ''hi'' = Undefined_behaviour"
  using udp_prints_datagram [of "''hi''" "''abcd''" "\<lambda>n. ''2''"] by simp

text \<open>The client of the time server gets the date exactly if its socket is shut down.\<close>

lemma time_server_sends:
  "time_shut (time_main accept_ec date stopped) \<longleftrightarrow> \<not> accept_ec \<and> stopped = None"
  "time_shut (time_main accept_ec date stopped) \<Longrightarrow> time_sent (time_main accept_ec date stopped) = date"
  by (auto simp: time_main_def accept_handler_def write_handler_def Let_def split: option.splits)

lemma udp_echo_sends:
  "\<forall>d \<in> set ds. length d \<le> 65536 \<Longrightarrow> udp_echo (map (\<lambda>d. Inr (d, None)) ds) = (ds, None)"
  by (induction ds) auto

end
