(* ===== verification/Example_Mains.thy ===== *)
theory Example_Mains
  imports "HOL-Library.Word" Chat_Server Terminal_Shared Http_Clients Outcomes
begin

text \<open>
  The \<open>main\<close> functions of three programs of \<open>other_ressources/async_io_with_cpp/\<close>:
  \<open>simple_tcp_chat_server.cpp\<close>, \<open>simple_terminal_server.cpp\<close> and \<open>simple_http_client.cpp\<close>. The
  result is the end of the program, or the state in which \<open>main\<close> runs its I/O service, from which
  the step relation of the program goes on. Opening the acceptor is a parameter, as is the
  conversion of an argument.
\<close>

definition chat_main :: "(nat \<Rightarrow> string + unit) \<Rightarrow> program_end + chat_server" where
  "chat_main open_acceptor =
     (case open_acceptor 15002 of
        Inl e \<Rightarrow> Inl (Terminated [] e)
      | Inr _ \<Rightarrow> Inr new_chat_server)"

definition term_main ::
  "(string \<Rightarrow> string + 16 word) \<Rightarrow> (16 word \<Rightarrow> string + unit) \<Rightarrow> 'w dispatcher \<Rightarrow> 'w \<Rightarrow> string list \<Rightarrow>
     program_end + 'w dispatcher \<times> 'w term_server" where
  "term_main cast_ushort open_acceptor commands w argv =
     (if length argv \<noteq> 2 then Inl (Returns 0 [''Usage: server [Port]''])
      else case cast_ushort (argv ! 1) of
        Inl e \<Rightarrow> Inl (Terminated [] e)
      | Inr prt \<Rightarrow>
          (case open_acceptor prt of
             Inl e \<Rightarrow> Inl (Terminated [] e)
           | Inr _ \<Rightarrow> Inr (commands, new_term_server w)))"

text \<open>
  The client asks for a host name, and runs until nothing is pending (\<open>None\<close>: the events given do
  not bring it so far).
\<close>

definition app_main :: "string \<Rightarrow> app_event list \<Rightarrow> program_end option" where
  "app_main input_domain evs =
     (let app = run_chain app_handler app_pending app_clear evs (client_application input_domain)
      in if app_pending app = [] then
           Some (Returns 0 (''Please insert the domain that you want the GET request: '' # app_out app @ [''Finished program.'']))
         else None)"

text \<open>The client returns 0 after four events, whatever they are, and not before.\<close>

lemma app_main_returns:
  "app_main input_domain (e1 # e2 # e3 # e4 # es) =
     Some (Returns 0 [''Please insert the domain that you want the GET request: '',
       ''Resolve: '' @ ev_message e1, ''Connect: '' @ ev_message e2 @ '', endpoint: '' @ ev_info e2,
       ''Write: '' @ ev_message e3 @ '', bytes transferred: '' @ ev_info e3,
       ''Read: '' @ ev_message e4 @ '', bytes received: '' @ ev_info e4, ev_data e4, ''Finished program.''])"
  "length evs < 4 \<Longrightarrow> app_main input_domain evs = None"
proof -
  show "app_main input_domain (e1 # e2 # e3 # e4 # es) = Some (Returns 0 [''Please insert the domain that you want the GET request: '',
      ''Resolve: '' @ ev_message e1, ''Connect: '' @ ev_message e2 @ '', endpoint: '' @ ev_info e2,
      ''Write: '' @ ev_message e3 @ '', bytes transferred: '' @ ev_info e3,
      ''Read: '' @ ev_message e4 @ '', bytes received: '' @ ev_info e4, ev_data e4, ''Finished program.''])"
    unfolding app_main_def application_ignores_errors by (simp add: Let_def)
  assume "length evs < 4"
  then consider "evs = []" | a where "evs = [a]" | a b where "evs = [a, b]" | a b c where "evs = [a, b, c]"
    by (auto simp: numeral_eq_Suc less_Suc_eq length_Suc_conv)
  then show "app_main input_domain evs = None"
    by cases (simp_all add: app_main_def client_application_def app_simps)
qed

text \<open>Both servers start in the state that their step relations begin with.\<close>

lemma servers_start:
  "chat_main open_chat = Inr s \<Longrightarrow> chat_reach s"
  "term_main cast_ushort open_acceptor commands w argv = Inr (d, v) \<Longrightarrow> d = commands \<and> shared_reach show_nat d w v"
  by (auto simp: chat_main_def term_main_def split: sum.splits if_splits intro: chat_reach.init shared_reach.init)

text \<open>
  The terminal server knows its five commands, in the order of their names, and takes two
  arguments for \<open>mul\<close> and none for the others.
\<close>

lemma terminal_commands:
  "map (\<lambda>(name, entry). (name, args_count entry)) (main_dispatcher now cwd listing chdir mul) =
     [(''cd'', 0), (''date'', 0), (''dir'', 0), (''mul'', 2), (''pwd'', 0)]"
  by (simp add: main_dispatcher_def attach_def split_def less_char_def)

end
