(* ===== verification/Coroutine_Server.thy ===== *)
theory Coroutine_Server
  imports Main
begin

text \<open>
  \<open>other_ressources/the_boost_libraries/time_server_with_coroutines.cpp\<close>: a server that sends the
  date to two clients. One coroutine accepts, and spawns another for each client. A coroutine
  runs from one suspension to the next, which is where a function below begins and ends. When a
  spawned coroutine runs for the first time is up to the library: inside of the call of
  \<open>spawn\<close>, or after the coroutine that spawned it has been suspended. Both are modelled; the code is
  right for the first only, since a coroutine looks up its socket when it starts, as the last one of
  the list.
\<close>

section \<open>State\<close>

record co_socket =
  connected :: bool
  got :: "string list"
  send_shut :: bool

text \<open>
  Where the accepting coroutine is: suspended in the accept of its \<open>i\<close>th round, in the call of \<open>spawn\<close>,
  or at its end. A sending coroutine is suspended in the write to socket \<open>k\<close>, which was started
  while the socket was connected or not.
\<close>

datatype accepting = Awaits nat | Spawns nat | Accepted_all

datatype sending = Unstarted | Awaits_write nat string bool | Finished

record coro =
  tcp_sockets :: "co_socket list"
  acceptor :: accepting
  writers :: "sending list"
  co_out :: "string list"
  thrown :: bool

definition co_say :: "string \<Rightarrow> coro \<Rightarrow> coro" where
  "co_say l s = s\<lparr>co_out := co_out s @ [l]\<rparr>"

text \<open>An exception that leaves a coroutine leaves \<open>run\<close>, and so \<open>main\<close>.\<close>

definition co_throw :: "coro \<Rightarrow> coro" where
  "co_throw s = s\<lparr>thrown := True\<rparr>"

section \<open>The coroutines\<close>

text \<open>The head of a round of the loop in \<open>do_accept\<close>, up to the accept.\<close>

definition co_round :: "nat \<Rightarrow> coro \<Rightarrow> coro" where
  "co_round i s =
     (if i < 2 then s\<lparr>tcp_sockets := tcp_sockets s @ [\<lparr>connected = False, got = [], send_shut = False\<rparr>], acceptor := Awaits i\<rparr>
      else s\<lparr>acceptor := Accepted_all\<rparr>)"

definition co_accepted :: "bool \<Rightarrow> nat \<Rightarrow> coro \<Rightarrow> coro" where
  "co_accepted ok i s =
     (if ok then
        let k = length (tcp_sockets s) - 1;
            s = s\<lparr>tcp_sockets := (tcp_sockets s)[k := (tcp_sockets s ! k)\<lparr>connected := True\<rparr>]\<rparr>;
            s = co_say ''Answering client'' s
        in s\<lparr>writers := writers s @ [Unstarted], acceptor := Spawns i\<rparr>
      else co_throw s)"

definition co_go_on :: "nat \<Rightarrow> coro \<Rightarrow> coro" where
  "co_go_on i s = co_round (Suc i) (co_say ''Next client incoming!!!'' s)"

text \<open>
  The coroutine of a client: it looks up the last socket of the list, and \<open>do_write\<close> starts the
  write of \<open>ctime\<close>, the text of the current time.
\<close>

definition co_do_write :: "string \<Rightarrow> nat \<Rightarrow> nat \<Rightarrow> coro \<Rightarrow> coro" where
  "co_do_write ctime j k s = s\<lparr>writers := (writers s)[j := Awaits_write k ctime (connected (tcp_sockets s ! k))]\<rparr>"

definition co_send :: "string \<Rightarrow> nat \<Rightarrow> coro \<Rightarrow> coro" where
  "co_send ctime j s =
     (let s = co_say ''Start sending data to the client...'' s
      in co_do_write ctime j (length (tcp_sockets s) - 1) s)"

definition co_finish :: "nat \<Rightarrow> coro \<Rightarrow> coro" where
  "co_finish j s = (co_say ''sending data to the client finished!'' s)\<lparr>writers := (writers s)[j := Finished]\<rparr>"

text \<open>
  The rest of \<open>do_write\<close>, after a write that has failed, or has sent everything; then
  \<open>shutdown\<close> may fail as well.
\<close>

definition co_written :: "bool \<Rightarrow> bool \<Rightarrow> nat \<Rightarrow> nat \<Rightarrow> string \<Rightarrow> coro \<Rightarrow> coro" where
  "co_written write_ok shutdown_ok j k data s =
     (if \<not> write_ok then co_throw s
      else
        let sock = tcp_sockets s ! k;
            s = s\<lparr>tcp_sockets := (tcp_sockets s)[k := sock\<lparr>got := got sock @ [data]\<rparr>]\<rparr>;
            sock = tcp_sockets s ! k
        in if \<not> shutdown_ok then co_throw s
           else co_finish j (s\<lparr>tcp_sockets := (tcp_sockets s)[k := sock\<lparr>send_shut := True\<rparr>]\<rparr>))"

text \<open>
  \<open>main\<close>: the first coroutine is spawned from outside, before \<open>run\<close>, so it starts after the line
  of \<open>main\<close>.
\<close>

definition co_main :: coro where
  "co_main = co_round 0
     \<lparr>tcp_sockets = [], acceptor = Awaits 0, writers = [], co_out = [''Main execution goes on!''], thrown = False\<rparr>"

text \<open>
  \<open>run\<close>: one thread resumes whatever has completed, in any order. With \<open>at_once\<close> a spawned coroutine starts
  inside of the call of \<open>spawn\<close>, otherwise after it. A write to a socket that is not connected cannot
  succeed.
\<close>

inductive co_step :: "bool \<Rightarrow> coro \<Rightarrow> coro \<Rightarrow> bool"
  for at_once :: bool where
  accept: "\<not> thrown s \<Longrightarrow> acceptor s = Awaits i \<Longrightarrow> co_step at_once s (co_accepted ok i s)"
| go_on: "\<not> thrown s \<Longrightarrow> acceptor s = Spawns i \<Longrightarrow> (at_once \<longrightarrow> Unstarted \<notin> set (writers s)) \<Longrightarrow>
     co_step at_once s (co_go_on i s)"
| start: "\<not> thrown s \<Longrightarrow> j < length (writers s) \<Longrightarrow> writers s ! j = Unstarted \<Longrightarrow>
     (at_once \<longleftrightarrow> (\<exists>i. acceptor s = Spawns i)) \<Longrightarrow> co_step at_once s (co_send ctime j s)"
| written: "\<not> thrown s \<Longrightarrow> j < length (writers s) \<Longrightarrow> writers s ! j = Awaits_write k data live \<Longrightarrow>
     (\<forall>i. acceptor s \<noteq> Spawns i) \<Longrightarrow> (write_ok \<longrightarrow> live) \<Longrightarrow>
     co_step at_once s (co_written write_ok shutdown_ok j k data s)"

inductive co_reach :: "bool \<Rightarrow> coro \<Rightarrow> bool"
  for at_once :: bool where
  start: "co_reach at_once co_main"
| step: "co_reach at_once s \<Longrightarrow> co_step at_once s s' \<Longrightarrow> co_reach at_once s'"

section \<open>Started at once\<close>


definition rounds_ok :: "coro \<Rightarrow> bool" where
  "rounds_ok s \<longleftrightarrow>
     (case acceptor s of
        Awaits i \<Rightarrow> length (tcp_sockets s) = Suc i \<and> length (writers s) = i \<and> i < 2
      | Spawns i \<Rightarrow> length (tcp_sockets s) = Suc i \<and> length (writers s) = Suc i \<and> i < 2
      | Accepted_all \<Rightarrow> length (tcp_sockets s) = 2 \<and> length (writers s) = 2)"


lemmas co_defs = co_round_def co_accepted_def co_go_on_def co_send_def co_do_write_def co_finish_def co_written_def co_throw_def co_say_def Let_def

text \<open>The rounds: what the coroutines of the clients do leaves them alone.\<close>

lemma rounds_main: "rounds_ok co_main"
  by (simp add: rounds_ok_def co_main_def co_round_def)

lemma rounds_accepted: "rounds_ok s \<Longrightarrow> acceptor s = Awaits i \<Longrightarrow> rounds_ok (co_accepted ok i s)"
  by (simp add: rounds_ok_def co_defs)

lemma rounds_go_on: "rounds_ok s \<Longrightarrow> acceptor s = Spawns i \<Longrightarrow> rounds_ok (co_go_on i s)"
  by (auto simp: rounds_ok_def co_defs)

lemma rounds_send: "rounds_ok s \<Longrightarrow> rounds_ok (co_send ctime j s)"
  by (simp add: rounds_ok_def co_defs split: accepting.splits)

lemma rounds_written: "rounds_ok s \<Longrightarrow> rounds_ok (co_written write_ok shutdown_ok j k data s)"
  by (auto simp: rounds_ok_def co_defs split: accepting.splits)
















section \<open>Started later\<close>

definition serves_last :: "coro \<Rightarrow> bool" where
  "serves_last s \<longleftrightarrow> rounds_ok s \<and> (tcp_sockets s \<noteq> [] \<longrightarrow> got (tcp_sockets s ! 0) = []) \<and>
     (\<forall>k data live. Awaits_write k data live \<in> set (writers s) \<longrightarrow> k = 1 \<and> 1 < length (tcp_sockets s))"

lemma serves_last_step:
  assumes "co_step False s s'" "serves_last s"
  shows "serves_last s'"
  using assms(1)
proof (cases rule: co_step.cases)
  case (accept i ok)
  then show ?thesis using assms(2) rounds_accepted [of s i ok]
    by (cases ok) (auto simp: serves_last_def co_defs nth_list_update)
next
  case (go_on i)
  then show ?thesis using assms(2) rounds_go_on [of s i] by (auto simp: serves_last_def co_defs nth_append)
next
  case (start j ctime)
  have "length (tcp_sockets s) = 2"
    using assms(2) start(3,5) by (auto simp: serves_last_def rounds_ok_def split: accepting.splits)
  then show ?thesis using assms(2) rounds_send [of s ctime j] unfolding start(1)
    by (fastforce simp: serves_last_def co_defs dest!: set_update_subset_insert [THEN subsetD])
next
  case (written j k data live write_ok shutdown_ok)
  have k: "k = 1" "1 < length (tcp_sockets s)"
    using assms(2) written(3,4) by (auto simp: serves_last_def in_set_conv_nth)
  have "rounds_ok s'" using rounds_written [of s] assms(2) unfolding written(1) serves_last_def by blast
  then show ?thesis using assms(2) k unfolding written(1)
    by (fastforce simp: serves_last_def co_defs dest!: set_update_subset_insert [THEN subsetD])
qed

section \<open>Properties\<close>



text \<open>Started later, they answer the client after their own: the first client never gets anything.\<close>

lemma late_coroutines_miss_the_first:
  assumes "co_reach False s" "tcp_sockets s \<noteq> []"
  shows "got (tcp_sockets s ! 0) = []"
proof -
  have "serves_last s" using assms(1)
  proof (induction rule: co_reach.induct)
    case start
    then show ?case using rounds_main by (simp add: serves_last_def co_main_def co_round_def)
  qed (blast intro: serves_last_step)
  with assms(2) show ?thesis by (simp add: serves_last_def)
qed

end
