(* ===== verification/Library_Calls.thy ===== *)
theory Library_Calls
  imports Outcomes Net_Message
begin

text \<open>
  The programs that try out a part of a library. Of \<open>other_ressources/async_io_with_cpp/\<close>:
  \<open>std_bind_example.cpp\<close>, \<open>working_with_buffer_sequences.cpp\<close>, \<open>asio_post_function.cpp\<close>,
  \<open>async_timer_example.cpp\<close>, \<open>resolver_intro.cpp\<close>, \<open>resolver_intro_async.cpp\<close> and
  \<open>basic_client_code.cpp\<close>; and \<open>tests/test_serialization.cpp\<close>, which tries out the messages of the
  framework. What the library's calls return is an argument.
\<close>

section \<open>std::bind\<close>

text \<open>
  The variable \<open>i\<close> of \<open>main\<close> is the only one that is referred to. A bound argument is a copy of a
  value, a reference to \<open>i\<close>, or the \<open>k\<close>th argument of the call, counted from 1.
\<close>

datatype bind_value = VInt int | VString string | VDouble string

datatype bind_arg = Copied bind_value | Ref_i | Placeholder nat

type_synonym callable = "bind_value list \<Rightarrow> string option"

definition bind_call :: "callable \<Rightarrow> bind_arg list \<Rightarrow> int \<Rightarrow> bind_value list \<Rightarrow> string option" where
  "bind_call f args i actuals =
     f (map (\<lambda>a. case a of Copied v \<Rightarrow> v | Ref_i \<Rightarrow> VInt i | Placeholder k \<Rightarrow> actuals ! (k - 1)) args)"

text \<open>The functions; arguments of other types are refused by the compiler.\<close>

fun bind_print :: callable where
  "bind_print [VInt i] = Some (''Hello, my number is: '' @ dec_int i)"
| "bind_print _ = None"

fun multiple_params :: callable where
  "multiple_params [VInt counter, VString input_str] = Some (''Counter: '' @ dec_int counter @ '' , with string: '' @ input_str)"
| "multiple_params _ = None"

fun test_template :: callable where
  "test_template [VDouble i, VString s] = Some (i @ '' , '' @ s)"
| "test_template _ = None"

definition bind_main :: "string option list" where
  "bind_main =
     (let i = 7;
          result_of_binding = bind_call bind_print [Copied (VInt i)];
          out1 = result_of_binding i [];
          i = 9;
          out2 = result_of_binding i [];
          result_2 = bind_call bind_print [Ref_i];
          out3 = result_2 i [];
          i = 11;
          out4 = result_2 i [];
          one_param = bind_call multiple_params [Ref_i, Placeholder 1];
          out5 = one_param i [VString ''hello''];
          swaped_params = bind_call multiple_params [Placeholder 2, Placeholder 1];
          out6 = swaped_params i [VString ''hello'', VInt 2];
          test_templ = bind_call test_template [Copied (VDouble ''4.2''), Placeholder 1];
          out7 = test_templ i [VString ''hello''];
          out8 = test_templ i [VString ''hello function'']
      in [out1, out2, out3, out4, out5, out6, out7, out8, Some ''Finished program!''])"

text \<open>What the comments say: a copy does not see the later values of \<open>i\<close>, a reference does.\<close>

lemma bound_copy: "Ref_i \<notin> set args \<Longrightarrow> bind_call f args i actuals = bind_call f args i' actuals"
  unfolding bind_call_def by (intro arg_cong [of _ _ f] map_cong) (auto split: bind_arg.splits)

lemma bound_reference: "bind_call bind_print [Ref_i] i actuals = Some (''Hello, my number is: '' @ dec_int i)"
  by (simp add: bind_call_def)

lemma bind_main_prints:
  "bind_main =
     [Some ''Hello, my number is: 7'', Some ''Hello, my number is: 7'', Some ''Hello, my number is: 9'',
      Some ''Hello, my number is: 11'', Some ''Counter: 11 , with string: hello'', Some ''Counter: 2 , with string: hello'',
      Some ''4.2 , hello'', Some ''4.2 , hello function'', Some ''Finished program!'']"
  by (simp add: bind_main_def bind_call_def dec_int_def dec_nat.simps char_of_eq_iff Let_def)

section \<open>Buffer sequences\<close>

text \<open>
  A buffer is the characters of the object it points at (no value where nothing has been written)
  and the size that it was made with. To read beyond the object, or a character that has no
  value, is undefined.
\<close>

type_synonym io_buffer = "char option list \<times> nat"

definition io_buffer :: "string \<Rightarrow> io_buffer" where
  "io_buffer content = (map Some content, length content)"

fun read_buffers :: "io_buffer list \<Rightarrow> string option" where
  "read_buffers [] = Some []"
| "read_buffers ((mem, n) # bs) =
     (if n \<le> length mem \<and> None \<notin> set (take n mem)
      then map_option ((@) (map the (take n mem))) (read_buffers bs) else None)"

text \<open>\<open>buffer_copy\<close> fills the buffers in their order; to write beyond an object is undefined.\<close>

fun write_buffers :: "string \<Rightarrow> io_buffer list \<Rightarrow> io_buffer list option" where
  "write_buffers content [] = Some []"
| "write_buffers content ((mem, n) # bs) =
     (let k = min n (length content)
      in if k \<le> length mem
         then map_option (Cons (map Some (take k content) @ drop k mem, n)) (write_buffers (drop k content) bs) else None)"

definition buffer_copy :: "io_buffer list \<Rightarrow> io_buffer list \<Rightarrow> nat \<Rightarrow> io_buffer list option" where
  "buffer_copy target src n = Option.bind (read_buffers src) (\<lambda>content. write_buffers (take n content) target)"

definition size_bytes :: "nat \<Rightarrow> string" where
  "size_bytes n = map (\<lambda>b. char_of (unat b)) (le_bytes 4 (word_of_nat n :: u32))"

definition buffer_sequence_view :: "io_buffer list" where
  "buffer_sequence_view =
     (let data_1 = ''Hello World'' @ [CHR 0x0A]; size_1 = length data_1;
          data_2 = ''This is the second data.'' @ [CHR 0x0A]; size_2 = length data_2
      in [io_buffer data_1, io_buffer data_2, io_buffer (size_bytes size_1), io_buffer (size_bytes size_2)])"

text \<open>The target: four characters on the heap, with the size of the pointer to them, and one more.\<close>

definition buffer_sequ_receive :: "nat \<Rightarrow> io_buffer list" where
  "buffer_sequ_receive pointer_size = [(replicate 4 None, pointer_size), ([None], 1)]"

definition numbered :: "string list \<Rightarrow> string list" where
  "numbered ls = map (\<lambda>(k, l). ''The '' @ dec_nat k @ '' is: '' @ l) (zip [0..<length ls] ls)"

definition buffers_main :: "nat \<Rightarrow> string list \<Rightarrow> program_end" where
  "buffers_main pointer_size addresses =
     (let views = map2 (\<lambda>a (mem, n). a @ '' with the size: '' @ dec_nat n) addresses buffer_sequence_view
      in case read_buffers buffer_sequence_view of
           None \<Rightarrow> Undefined_behaviour
         | Some content \<Rightarrow>
             (case buffer_copy (buffer_sequ_receive pointer_size) buffer_sequence_view 3 of
                None \<Rightarrow> Undefined_behaviour
              | Some target \<Rightarrow>
                  (case read_buffers target of
                     None \<Rightarrow> Undefined_behaviour
                   | Some copied \<Rightarrow>
                       Returns 0 ([''Program started.''] @ numbered views @ numbered (map (\<lambda>c. [c]) content) @
                         [''[DEBUG]: The size is: '' @ dec_nat pointer_size, ''This is the copy test:''] @
                         map (\<lambda>c. [c]) copied @ [''Program finished.'']))))"

lemma read_source: "\<exists>content. read_buffers buffer_sequence_view = Some content \<and> 3 < length content"
  by (simp add: buffer_sequence_view_def io_buffer_def Let_def image_iff)

text \<open>
  A copy that is read as it was written: as many characters as the target takes, from the
  beginning of the source.
\<close>

lemma write_read:
  assumes "write_buffers content bs = Some bs'" "\<forall>(mem, n) \<in> set bs. n \<le> length mem" "sum_list (map snd bs) \<le> length content"
  shows "read_buffers bs' = Some (take (sum_list (map snd bs)) content)"
  using assms
proof (induction content bs arbitrary: bs' rule: write_buffers.induct)
  case (2 content mem n bs)
  have n: "n \<le> length mem" "n + sum_list (map snd bs) \<le> length content" using "2.prems"(2,3) by auto
  then have k: "min n (length content) = n" by simp
  then obtain bs1 :: "io_buffer list" where bs1: "write_buffers (drop n content) bs = Some bs1" "bs' = (map Some (take n content) @ drop n mem, n) # bs1"
    using "2.prems"(1) n(1) by (auto simp: Let_def)
  have "read_buffers bs1 = Some (take (sum_list (map snd bs)) (drop n content))"
    using "2.IH" [OF refl, unfolded k, OF n(1) bs1(1)] "2.prems"(2) n(2) by simp
  then show ?case using n bs1(2) by (simp add: take_add image_iff)
qed simp

text \<open>
  The target is neither as long as the four characters (the size is that of a pointer), nor filled
  by the three that are copied, so reading it is undefined; as it is meant, it would be read as the
  first five characters of the source.
\<close>

lemma copy_test_undefined:
  assumes "3 \<le> pointer_size"
  shows "buffers_main pointer_size addresses = Undefined_behaviour"
proof -
  obtain content where content: "read_buffers buffer_sequence_view = Some content" "3 < length content" using read_source by auto
  have "buffer_copy (buffer_sequ_receive pointer_size) buffer_sequence_view 3 =
      Some [(map Some (take 3 content) @ drop (length (take 3 content)) (replicate 4 None), pointer_size), ([None], 1)]"
    using assms content by (simp add: buffer_copy_def buffer_sequ_receive_def Let_def min_def)
  then show ?thesis using content by (simp add: buffers_main_def Let_def)
qed

lemma copy_test_undefined_witness: "buffers_main 8 [[], [], [], []] = Undefined_behaviour"
  by (rule copy_test_undefined) simp

lemma copy_as_meant:
  "Option.bind (buffer_copy (buffer_sequ_receive 4) buffer_sequence_view 5) read_buffers = Some ''Hello''"
  by (simp add: buffer_copy_def buffer_sequ_receive_def buffer_sequence_view_def io_buffer_def Let_def image_iff eval_nat_numeral)

section \<open>Posting a function\<close>

text \<open>
  Three threads: \<open>posting_thread\<close> posts the function, \<open>watchdog_timeout\<close> takes the work guard away
  after its time, and the thread of \<open>main\<close> runs the service, which returns when there is neither work
  nor guard; then it joins the others.
\<close>

record poster =
  to_post :: bool
  guarded :: bool
  queued_calls :: nat
  serving :: bool
  joined :: bool
  post_out :: "string list"

definition post_info :: string where
  "post_info = ''Function owned by jens was executed asynchronously!''"

definition post_timeout :: string where
  "post_timeout = ''[TIMEOUT]: No work to do for more then 5 seconds. Exiting the program.''"

definition post_start :: poster where
  "post_start = \<lparr>to_post = True, guarded = True, queued_calls = 0, serving = True, joined = False, post_out = []\<rparr>"

definition my_info_function :: "poster \<Rightarrow> poster" where
  "my_info_function s = s\<lparr>post_out := post_out s @ [post_info]\<rparr>"

inductive post_step :: "poster \<Rightarrow> poster \<Rightarrow> bool" where
  posting: "to_post s \<Longrightarrow> post_step s (s\<lparr>to_post := False, queued_calls := Suc (queued_calls s)\<rparr>)"
| watchdog: "guarded s \<Longrightarrow> post_step s (s\<lparr>guarded := False\<rparr>)"
| call: "serving s \<Longrightarrow> queued_calls s = Suc n \<Longrightarrow> post_step s (my_info_function (s\<lparr>queued_calls := n\<rparr>))"
| run_returns: "serving s \<Longrightarrow> queued_calls s = 0 \<Longrightarrow> \<not> guarded s \<Longrightarrow>
     post_step s (s\<lparr>serving := False, post_out := post_out s @ [post_timeout]\<rparr>)"
| joins: "\<not> serving s \<Longrightarrow> \<not> to_post s \<Longrightarrow> \<not> guarded s \<Longrightarrow> \<not> joined s \<Longrightarrow> post_step s (s\<lparr>joined := True\<rparr>)"

inductive_cases post_stepE: "post_step s s'"

text \<open>What the threads have done so far, in one invariant.\<close>

definition post_inv :: "poster \<Rightarrow> bool" where
  "post_inv s \<longleftrightarrow>
     post_out s = (if \<not> to_post s \<and> queued_calls s = 0 then [post_info] else []) @ (if serving s then [] else [post_timeout]) \<and>
     queued_calls s \<le> (if to_post s then 0 else 1) \<and> (serving s \<or> \<not> guarded s) \<and>
     (joined s \<longrightarrow> \<not> serving s \<and> \<not> to_post s)"

definition post_left :: "poster \<Rightarrow> nat" where
  "post_left s = (if to_post s then 2 else 0) + (if guarded s then 1 else 0) + queued_calls s + (if serving s then 1 else 0) +
     (if joined s then 0 else 1)"

lemma post_step_inv: "post_step s s' \<Longrightarrow> post_inv s \<Longrightarrow> post_inv s' \<and> post_left s' < post_left s"
  by (erule post_stepE) (auto simp: post_inv_def post_left_def my_info_function_def split: if_splits)

text \<open>
  The threads come to an end whatever their order, after at most five steps. All have ended then, and
  the function was called exactly if it was posted while the service was running: one that is posted
  after \<open>run\<close> has returned stays in the queue.
\<close>

lemma post_ends:
  assumes "(post_step ^^ n) post_start s"
  shows "n \<le> 5 \<and>
    ((\<nexists>s'. post_step s s') \<longleftrightarrow> joined s) \<and>
    (joined s \<longrightarrow> (queued_calls s = 0 \<and> post_out s = [post_info, post_timeout]) \<or>
       (queued_calls s = 1 \<and> post_out s = [post_timeout]))"
proof -
  have "post_inv s \<and> post_left s + n \<le> 5" using assms
  proof (induction n arbitrary: s)
    case 0
    then have "s = post_start" by simp
    then show ?case by (simp add: post_inv_def post_left_def post_start_def)
  next
    case (Suc n)
    then obtain t where t: "(post_step ^^ n) post_start t" "post_step t s" by auto
    from Suc.IH [OF t(1)] post_step_inv [OF t(2)] show ?case by auto
  qed
  then have inv: "post_inv s" and n: "n \<le> 5" by auto
  have "(\<nexists>s'. post_step s s') \<longleftrightarrow> joined s"
  proof
    show "joined s" if stuck: "\<nexists>s'. post_step s s'"
    proof -
      have "\<not> to_post s" "\<not> guarded s" using stuck post_step.posting post_step.watchdog by blast+
      moreover have "\<not> serving s"
        using stuck post_step.call post_step.run_returns \<open>\<not> guarded s\<close> by (metis not0_implies_Suc)
      ultimately show ?thesis using stuck post_step.joins by blast
    qed
    show "\<nexists>s'. post_step s s'" if "joined s"
      using that inv by (auto simp: post_inv_def elim!: post_stepE)
  qed
  moreover have "queued_calls s = 0 \<and> post_out s = [post_info, post_timeout] \<or> queued_calls s = 1 \<and> post_out s = [post_timeout]"
    if "joined s"
    using inv that by (cases "queued_calls s = 0") (auto simp: post_inv_def le_Suc_eq)
  ultimately show ?thesis using n by blast
qed

section \<open>A timer\<close>

text \<open>
  \<open>clock\<close> is the time of the last reading, in nanoseconds, and nobody sets it back; \<open>expiry\<close> the one for which the
  wait that is pending was set up; \<open>elapsed\<close> the seconds printed. The timer is read to have expired
  first; then the handler reads the clock for its line, and again for the next wait.
\<close>

record ticker =
  clock :: nat
  expiry :: "nat option"
  elapsed :: "nat list"

definition my_async_wait :: "nat \<Rightarrow> ticker \<Rightarrow> ticker" where
  "my_async_wait now s = s\<lparr>clock := now, expiry := Some (now + 10 ^ 9)\<rparr>"

definition on_tick :: "nat \<Rightarrow> nat \<Rightarrow> nat \<Rightarrow> ticker \<Rightarrow> ticker" where
  "on_tick begun now later s = my_async_wait later (s\<lparr>expiry := None, elapsed := elapsed s @ [(now - begun) div 10 ^ 9]\<rparr>)"

inductive ticker_reach :: "nat \<Rightarrow> ticker \<Rightarrow> bool"
  for begun :: nat where
  main: "begun \<le> now \<Longrightarrow> ticker_reach begun (my_async_wait now \<lparr>clock = begun, expiry = None, elapsed = []\<rparr>)"
| tick: "ticker_reach begun s \<Longrightarrow> expiry s = Some t \<Longrightarrow> max t (clock s) \<le> now \<Longrightarrow> now \<le> later \<Longrightarrow>
     ticker_reach begun (on_tick begun now later s)"

text \<open>
  There is always one wait, so \<open>run\<close> does not return; the seconds go up, and the \<open>n\<close>th line
  comes after \<open>n\<close> seconds at the earliest, however late the handlers run.
\<close>

lemma timer_ticks:
  assumes "ticker_reach begun s"
  shows "expiry s \<noteq> None \<and> sorted (elapsed s) \<and> (\<forall>i < length (elapsed s). Suc i \<le> elapsed s ! i)"
proof -
  have "begun + length (elapsed s) * 10 ^ 9 \<le> clock s \<and> expiry s = Some (clock s + 10 ^ 9) \<and>
      (\<forall>e \<in> set (elapsed s). e \<le> (clock s - begun) div 10 ^ 9) \<and>
      sorted (elapsed s) \<and> (\<forall>i < length (elapsed s). Suc i \<le> elapsed s ! i)"
    using assms
  proof (induction rule: ticker_reach.induct)
    case (main now)
    then show ?case by (simp add: my_async_wait_def)
  next
    case (tick s t now later)
    then have now: "clock s + 10 ^ 9 \<le> now" "clock s \<le> now" by auto
    have n: "begun + Suc (length (elapsed s)) * 10 ^ 9 \<le> now" using tick.IH now by simp
    then have "Suc (length (elapsed s)) * 10 ^ 9 div 10 ^ 9 \<le> (now - begun) div 10 ^ 9" by (intro div_le_mono) simp
    then have k: "Suc (length (elapsed s)) \<le> (now - begun) div 10 ^ 9" by simp
    have mono: "(clock s - begun) div 10 ^ 9 \<le> (now - begun) div 10 ^ 9" "(now - begun) div 10 ^ 9 \<le> (later - begun) div 10 ^ 9"
      using now tick.hyps(4) by (auto intro!: div_le_mono)
    have le: "e \<le> (now - begun) div 10 ^ 9" if "e \<in> set (elapsed s)" for e using tick.IH mono(1) that by fastforce
    show ?case using tick.IH n k le mono(2) tick.hyps(4)
      by (auto simp: on_tick_def my_async_wait_def sorted_append nth_append less_Suc_eq intro: le_trans)
  qed
  then show ?thesis by simp
qed

section \<open>Resolvers, and a connection\<close>

definition address_lines :: "string list \<Rightarrow> string list" where
  "address_lines results =
     map (\<lambda>(counter, endpt). ''The '' @ dec_nat counter @ '' address is: '' @ endpt)
       (zip [1..<Suc (length results)] results)"

text \<open>The addresses or an error; the call with \<open>ec\<close> gives no addresses then. Lines of output, and of errors.\<close>

definition resolver_main :: "string + string list \<Rightarrow> string list \<times> string list" where
  "resolver_main resolved =
     (let resolve_results = (case resolved of Inl ec \<Rightarrow> [] | Inr results \<Rightarrow> results)
      in (address_lines resolve_results @ [''Finished program.''], []))"

definition resolver_async_main :: "string + string list \<Rightarrow> string list \<times> string list" where
  "resolver_async_main resolved =
     (let (out, err) = (case resolved of
            Inr results \<Rightarrow> (address_lines results, [])
          | Inl ec \<Rightarrow> ([], [''[RESOLVER]: Could not resolve the given address.'']))
      in (out @ [''Finished program!''], err))"

definition basic_client_main :: "string option \<Rightarrow> string list \<times> string list" where
  "basic_client_main ec =
     (case ec of
        None \<Rightarrow> ([''[CLIENT]: Connection established!''], [])
      | Some _ \<Rightarrow> ([], [''[CLIENT]: Cound not connect to the server!'']))"

text \<open>
  Both resolvers print the same lines for the same addresses, one for each. The first
  does not look at the error: its output is that of a name without addresses.
\<close>

lemma resolvers_agree:
  "butlast (fst (resolver_main resolved)) = butlast (fst (resolver_async_main resolved)) \<and>
   length (fst (resolver_main (Inr results))) = Suc (length results) \<and>
   resolver_main (Inl e) = resolver_main (Inr []) \<and> resolver_async_main (Inl e) \<noteq> resolver_async_main (Inr [])"
  by (auto simp: resolver_main_def resolver_async_main_def address_lines_def Suc_le_eq split: sum.splits)

section \<open>The test of the messages\<close>

text \<open>
  The test pushes a \<open>float\<close>, a \<open>bool\<close> and an \<open>int\<close>, and pops them in the opposite order; it
  passes when each is the one that was pushed.
\<close>

definition sample_test :: "byte list \<Rightarrow> byte list \<Rightarrow> byte list \<Rightarrow> bool list res" where
  "sample_test test_payload_1 test_payload_2 test_payload_3 =
     (let test_msg = set_id 0 empty_message;
          test_msg = push_data (push_data (push_data test_msg test_payload_1) test_payload_2) test_payload_3
      in bind_res (pop_data 4 test_msg) (\<lambda>(test_msg, returned_3).
         bind_res (pop_data 1 test_msg) (\<lambda>(test_msg, returned_2).
         bind_res (pop_data 4 test_msg) (\<lambda>(test_msg, returned_1).
           Inr [test_payload_1 = returned_1, test_payload_2 = returned_2, test_payload_3 = returned_3]))))"

text \<open>It passes for any values of these sizes, not just for its own.\<close>

lemma sample_test_passes:
  assumes "length p1 = 4" "length p2 = 1" "length p3 = 4"
  shows "sample_test p1 p2 p3 = Inr [True, True, True]"
proof -
  have pop: "pop_data n (push_data m d) = Inr (m, d)" if "length d = n" "wf_msg m" for n m d
    using pop_push_data [OF that(2), of d] that(1) by simp
  show ?thesis by (simp add: sample_test_def pop assms)
qed

end
