(* ===== verification/Spec2Isabelle.thy ===== *)
theory Spec2Isabelle
  imports
    Net_Prelude Net_Message Ts_Queue Ts_Queue_Threads
    Connection Wire_Format Connection_Run Connection_Read Handshake Connection_Sched Connection_Safety End_To_End
    Connection_Progress
    Net_Server Net_Server_Run Custom_Server Net_Client Custom_Client Message_Origin Network Network_Progress
    Network_Round Network_Join Network_Answers Programs
    Http_Request Http_Windows Http_Session Http_Sync Http_Tls Http_Main Http_Example Http_Certificate Http_Clients
    Chat_Server Terminal_Server Terminal_Shared Echo_Server Circular_Buffer Context_Group Circular_Echo Echo_One_Context Echo_Mains
    Keyboard_Prototype Outcomes Sync_Clients Reading_Clients Small_Servers Example_Mains
    Coroutine_Server Library_Calls
begin

text \<open>
  A verification development for a client-server networking framework in C++ over
  boost::asio, and for the example programs of its repository. Source paths are
  relative to \<open>src/\<close>.

  The program. A server and its clients exchange messages (an identifier, and a payload that
  works as a stack of values) over TCP connections. Each end of a connection is a
  \<open>ConnectionInterface\<close>: completion handlers that call each other in chains, one chain reading
  headers and payloads and putting messages into the owner's queue, one chain writing the
  messages of an outgoing queue. A connection starts with a handshake, in which the server sends a
  number and checks the client's answer. The server class accepts connections and keeps them
  in a queue; \<open>update\<close> hands queued messages to virtual methods; the client class owns one
  connection. A custom server and a custom client with a keyboard thread are built on them.

  Conventions. Machine integers are words of their width, objects in memory their
  little-endian bytes, and an operation that can fail ends in an error value
  (\<open>Net_Prelude\<close>): undefined behaviour, an exception or the end of the program. An
  asynchronous operation is a value in a list of pending operations; its completion is one
  step, which runs the whole completion handler. The socket is a stream of bytes in and one
  out. What has come in and gone out of a session is kept by the step that completes the operation, from what the
  operation was started with, never by the handlers. What the code prints is recorded as lines where the handlers print; standard error
  output of internals is left out. Locales state what one component relies on of another, and are
  interpreted on the definitions translated from the code.

  The framework (\<open>include/custom_net_lib/\<close>).
  \<^item> \<open>Net_Message\<close>: \<open>net_message.hpp\<close>, the header and payload, the operators that push and
    pop a value, printing. A payload is a vector of 32-bit elements that is resized by the number
    of bytes of a value, which the model keeps. Lemmas: values come out last in first out,
    and every operation keeps the header's size field in step with the payload.
  \<^item> \<open>Ts_Queue\<close>, \<open>Ts_Queue_Threads\<close>: \<open>net_ts_queue.hpp\<close>, first as a sequential container
    with the contracts of a queue and of a deque, then at the grain of its lock operations with
    any number of threads, reading and writing the container in separate steps: mutual exclusion, that
    no element is lost between the two steps because no other thread is at the container, absence of deadlock, and
    the wake-up of \<open>wait()\<close> that can be lost.
  \<^item> \<open>Connection\<close>: \<open>connection_net_interface.hpp\<close>, every member function and every completion
    handler, as a function from the object to the new object and the operations it
    starts. \<open>Wire_Format\<close> is the protocol as a function on byte streams. \<open>Connection_Run\<close> is the
    step relation of a connection at work (bytes arriving, a handler completing or
    failing, a call from outside), with the write side's invariant; \<open>Connection_Read\<close> the read side's;
    \<open>Handshake\<close> the puzzle; \<open>Connection_Sched\<close> an executable scheduler, used for concrete
    runs; \<open>Connection_Safety\<close> the theorems about all reachable states; \<open>End_To_End\<close>
    joins two connections; \<open>Connection_Progress\<close> is about what a connection can still do: read on
    until everything that has arrived is delivered, have everything accepted arrive at the other
    end, and, once it is closed, come to rest.
  \<^item> \<open>Net_Server\<close>, \<open>Net_Server_Run\<close>: \<open>net_server.hpp\<close>, the operations, and the server at work.
    The virtual methods are a record of functions; the locales \<open>reporting_logic\<close> and
    \<open>server_logic\<close> state what the base class relies on of an override.
  \<^item> \<open>Net_Client\<close>: \<open>net_client.hpp\<close>, with the connection objects as a store, so that leaked and
    deleted ones are visible.

  The programs (\<open>src/\<close>). \<open>Custom_Server\<close>: \<open>custom_server.cpp\<close>, with the interpretations of the
  two locales; \<open>Custom_Client\<close>: \<open>custom_client.cpp\<close>, the keyboard thread, one turn of the
  main loop, the reaction to each message type, and the round trips with the server;
  \<open>Programs\<close>: what the two do before their loops.

  The closed system. \<open>Network\<close> joins one custom server and any number of custom clients by
  cables that carry the bytes of one side to the other, in any order of steps of any of them;
  \<open>Message_Origin\<close> has what that needs of the programs alone: which messages a client can
  have sent. The theorems hold for the reachable states that are \<open>calm\<close>: no connection has overlapped two
  writes, and each client has answered the handshake before it sent anything else. The code does not see to
  that (\<open>Connection_Safety\<close> has the runs in which it goes wrong), and nothing is claimed about the network once it
  is no longer so. In calm states no program fails, and each line a client prints has a
  cause at the server and, for a message to all, at another client that sent the request. \<open>Network_Progress\<close> lifts
  the runs of single connections to the network: from a calm state there is a run in which what the server has
  accepted for a client that listens reaches that client's console. \<open>Network_Round\<close> has the stages of a round trip,
  each a run of the whole network: a posted message is accepted and written, the server reads it,
  works off its queue, and posts the answers. \<open>Network_Join\<close> has a run, from each calm state in which the server
  accepts, that lets a new client in, after which both ends are at work (\<open>linked\<close>). \<open>Network_Answers\<close> puts
  the stages together: after the key for a ping or a message to all in a calm state there is a run
  to the state in which the line for it is on the console of the right client.

  The examples (\<open>other_ressources/\<close>).
  \<^item> \<open>Http_Request\<close>, \<open>Http_Session\<close>: \<open>boost_beast/src/async_http_server.cpp\<close>; \<open>Http_Sync\<close>:
    \<open>simple_http_server.cpp\<close>; \<open>Http_Tls\<close>: \<open>ssl_http_server.cpp\<close>. The HTTP parser and the file
    system are parameters; the locale \<open>http_responder\<close> is what a session relies on of the
    function that answers a request, interpreted for the plain server and the one over TLS.
    \<open>Http_Windows\<close> has the branch of \<open>path_cat\<close> for Windows hosts. \<open>Http_Main\<close> has the three \<open>main\<close>
    functions, and the step relations of whole servers, in which the acceptor and the sessions
    run in any order. \<open>Http_Example\<close>: \<open>test.cpp\<close>, the library's own example server, from which two
    of them were made, translated on its own and compared with them; \<open>Http_Certificate\<close>:
    \<open>common/server_certificate.hpp\<close>, the data those over TLS serve with, and the calls that load it.
  \<^item> \<open>Http_Clients\<close>: the asynchronous clients (\<open>async_http_get_client.cpp\<close>,
    \<open>ssl_http_get_client.cpp\<close>, \<open>simple_http_client.cpp\<close>); the locale \<open>chain\<close> is what they have in
    common, that each completion shortens the chain of operations. \<open>Sync_Clients\<close>: the synchronous
    clients (\<open>simple_http_get_client.cpp\<close>, \<open>simple_websocket_client.cpp\<close>, \<open>ssl_client_example.cpp\<close>,
    \<open>src/main_client.cpp\<close>), sequences of calls that may throw (\<open>Outcomes\<close>). \<open>Reading_Clients\<close>:
    \<open>src/main_client_async.cpp\<close> and \<open>the_boost_libraries/networking_client.cpp\<close>, with the locale
    \<open>read_loop\<close> for the loop that both print with.
  \<^item> \<open>Chat_Server\<close>, \<open>Terminal_Server\<close>, \<open>Echo_Server\<close>: servers of \<open>async_io_with_cpp/\<close>.
    \<open>Circular_Buffer\<close>, \<open>Circular_Echo\<close>: the ring buffer of one of them, with the locale
    \<open>dynamic_buffer\<close>, and the session on top of it, which reads and writes at the same time;
    \<open>Context_Group\<close>: its group of I/O contexts, as the constructor makes it and as it is meant.
    \<open>Echo_One_Context\<close>: the server with the same buffer and one I/O service, translated on its own
    and shown to be equal; \<open>Echo_Mains\<close>: the servers and \<open>main\<close> functions of the four echo
    programs. \<open>Terminal_Shared\<close>: the terminal server with all of its sessions on the one
    directory of the process.
  \<^item> \<open>Small_Servers\<close>: sending in parts, the server of lines, the fixed web page, the UDP servers,
    the time server.
  \<^item> \<open>Example_Mains\<close>: \<open>main\<close> of the chat server, of the terminal server and of the third HTTP client.
  \<^item> \<open>Coroutine_Server\<close>: \<open>time_server_with_coroutines.cpp\<close>, with the two moments at which a spawned
    coroutine can start. \<open>Library_Calls\<close>: the programs that try out one part of a library
    (\<open>std::bind\<close>, buffer sequences, posting, a timer, resolvers), and the test of the messages in \<open>tests/\<close>.
  \<^item> \<open>Keyboard_Prototype\<close>: \<open>user_input.cpp\<close>, with its two threads.

  Groups of theorems. Safety of all handlers (none reads outside of memory or pops an empty
  queue, as long as no two writes overlap); framing of the outgoing and incoming streams;
  progress of the write and the read loop, delivery, and rest after a close; authentication by the handshake; the effect of each message
  type, from the sender to the receiver's printed line, also in the closed system; identifiers;
  order and completeness in the chat, terminal and echo servers; confinement of the HTTP server
  to its directory, on both kinds of hosts, the cycle of its sessions, the statuses of its variants,
  and how long each server serves; first in first
  out of the queue and of the ring buffer; the reports of the HTTP clients; the keyboard
  threads as one loop. Where the code does something else than it means to, the theorem states
  what it does, on a concrete run or for all of them.

  Bounds. Recursions are structural or with a measure (\<open>recv_frames\<close>: the number of bytes
  left; \<open>dec_nat\<close>: the number), so no fuel is used. The loops that wait for input are step
  relations or functions of the list of what arrives; the loop of \<open>update\<close> is bounded by its
  own counter. A payload length that does not fit the 32-bit size field wraps around, and the
  theorems that depend on it have the bound as a hypothesis.

  What is not modelled. The library (boost::asio, beast, OpenSSL, the standard library's
  threads) is represented by what the code relies on: completion of each operation once,
  with success or an error; order of a stream. Memory lifetime is modelled where the code
  gets it wrong (dropped and leaked connections), not in general. Left out are \<open>infinite_for_loop.cpp\<close>,
  which has no state; \<open>std_optional_test.cpp\<close>, which does not compile; \<open>dynamic_buffers.cpp\<close>, where
  the program and the library change the same vector, with an effect that only the library's code
  tells; the empty drafts; and the lists of includes. Several example programs do not compile as they are; the theory of
  each says where, and how the line is read.
  Of the programs with threads, that a thread cannot be started is not modelled.
\<close>

end
